(* ===== verification/Mcrs_Prelude.thy ===== *)
theory Mcrs_Prelude
  imports Main "HOL-Library.Word"
begin

text \<open>
  Shared ground of the room server development: the C++ integer and result types as HOL
  types, \<open>size_t\<close> arithmetic with its wrap-around written out, the collections of rules
  the component theories register their facts in, and the generic list lemmas that more
  than one component needs.

  \<^item> \<open>std::byte\<close>, \<open>std::uint16_t\<close>, \<open>std::uint32_t\<close>, \<open>std::uint64_t\<close> are words of that width.
  \<^item> \<open>std::int32_t\<close> is its 32-bit two's complement pattern (\<open>sint\<close> reads it), so
    \<open>std::bit_cast\<close> between \<open>uint32_t\<close> and \<open>int32_t\<close> is the identity on patterns.
  \<^item> \<open>std::size_t\<close> is a \<open>nat\<close> below \<open>2 ^ 64\<close>; sums, differences and products the code computes on it
    go through \<open>size_add\<close>, \<open>size_sub\<close> and \<open>size_mul\<close>, which wrap.
  \<^item> \<open>std::expected<T, E>\<close> is the sum \<open>E + T\<close>: \<open>Inl\<close> is the error.
\<close>

section \<open>C++ types\<close>

type_synonym byte = "8 word"
type_synonym uint16 = "16 word"
type_synonym uint32 = "32 word"
type_synonym uint64 = "64 word"
type_synonym int32 = "32 word"
type_synonym size_t = nat
type_synonym ('a, 'e) expected = "'e + 'a"

text \<open>What an \<open>std::exception_ptr\<close> points to: an exception with its \<open>what\<close>, or one of a foreign type.\<close>

datatype cpp_exception = Std_exception string | Other_exception

section \<open>Collections of rules\<close>

named_theorems wire_simps "rewriting wire integers and framed packets"
named_theorems queue_simps "rewriting queue operations to lists"
named_theorems inv_intros "invariants kept by the operations"

section \<open>Arithmetic of size\_t\<close>

definition size_add :: "size_t \<Rightarrow> size_t \<Rightarrow> size_t" where
  "size_add a b = (a + b) mod 2 ^ 64"

definition size_sub :: "size_t \<Rightarrow> size_t \<Rightarrow> size_t" where
  "size_sub a b = (if b \<le> a then a - b else (a + 2 ^ 64 - b) mod 2 ^ 64)"

definition size_mul :: "size_t \<Rightarrow> size_t \<Rightarrow> size_t" where
  "size_mul a b = (a * b) mod 2 ^ 64"

lemma size_mul_exact: "a * b < 2 ^ 64 \<Longrightarrow> size_mul a b = a * b"
  by (simp add: size_mul_def)

lemma size_add_exact [simp]: "a + b < 2 ^ 64 \<Longrightarrow> size_add a b = a + b"
  by (simp add: size_add_def)

lemma size_sub_exact [simp]: "b \<le> a \<Longrightarrow> size_sub a b = a - b"
  by (simp add: size_sub_def)

lemma size_sub_wraps: "a < b \<Longrightarrow> b < 2 ^ 64 \<Longrightarrow> size_sub a b = 2 ^ 64 - (b - a)"
  by (simp add: size_sub_def)

section \<open>Results\<close>

primrec is_ok :: "('a, 'e) expected \<Rightarrow> bool" where
  "is_ok (Inl e) = False"
| "is_ok (Inr v) = True"

lemma is_ok_iff: "is_ok r \<longleftrightarrow> (\<exists>v. r = Inr v)"
  by (cases r) auto

lemma not_is_ok_iff: "\<not> is_ok r \<longleftrightarrow> (\<exists>e. r = Inl e)"
  by (cases r) auto

section \<open>Lists and blocks of memory\<close>

text \<open>
  \<open>memcpy_at buf off src\<close> is the buffer after \<open>memcpy(buf + off, src, |src|)\<close> and
  \<open>memmove_within buf dst src n\<close> the one after \<open>memmove(buf + dst, buf + src, n)\<close>, for
  ranges inside the buffer.
\<close>

definition memcpy_at :: "'a list \<Rightarrow> size_t \<Rightarrow> 'a list \<Rightarrow> 'a list" where
  "memcpy_at buf off src = take off buf @ src @ drop (off + length src) buf"

definition memmove_within :: "'a list \<Rightarrow> size_t \<Rightarrow> size_t \<Rightarrow> size_t \<Rightarrow> 'a list" where
  "memmove_within buf dst src n = memcpy_at buf dst (take n (drop src buf))"

lemma length_memcpy_at [simp]:
  "off + length src \<le> length buf \<Longrightarrow> length (memcpy_at buf off src) = length buf"
  by (simp add: memcpy_at_def)

lemma memcpy_at_split:
  "length xs = off \<Longrightarrow> length ys = length src \<Longrightarrow>
    memcpy_at (xs @ ys @ zs) off src = xs @ src @ zs"
  by (simp add: memcpy_at_def)

lemma sum_list_take_le: "sum_list (take n xs) \<le> sum_list (xs :: nat list)"
  by (metis append_take_drop_id le_add1 sum_list_append)

lemma sum_list_take_drop: "sum_list (take n xs) + sum_list (drop n xs) = sum_list (xs :: nat list)"
  by (metis append_take_drop_id sum_list_append)

end
