(* ===== verification/Receive_Buffer.thy ===== *)
theory Receive_Buffer
  imports Mcrs_Prelude
begin

text \<open>
  \<open>include/mcrs/network/receive_buffer.hpp\<close> and \<open>src/network/receive_buffer.cpp\<close>: the bytes a
  session has read and not yet consumed, kept in one vector behind a read offset, moved to the
  front only when the tail of the vector is too small.

  The capacity of \<open>std::vector\<close> is part of the state because \<open>append\<close> decides on it. How
  far a vector grows is left to the standard library: it is the parameter \<open>grow\<close>, and
  \<open>vector_room\<close> builds in what the standard promises of it. The assertion of \<open>consume\<close> is
  the precondition of its lemmas; the callers are shown to meet it.
\<close>

section \<open>Data\<close>

datatype ReceiveBufferError = buffer_limit_exceeded

type_synonym growth = "size_t \<Rightarrow> size_t \<Rightarrow> size_t"

record ReceiveBuffer =
  rb_storage :: "byte list"
  rb_capacity :: size_t
  rb_max_buffered_bytes :: size_t
  rb_read_offset :: size_t

text \<open>
  Room for \<open>required\<close> elements (\<open>std::vector::reserve\<close>, \<open>std::vector::insert\<close>): the capacity
  when it is enough, otherwise at least what is asked for and, beyond that, what the growth
  policy of the library chooses within the largest object size.
\<close>

definition vector_room :: "growth \<Rightarrow> size_t \<Rightarrow> size_t \<Rightarrow> size_t" where
  "vector_room grow capacity required =
     (if required \<le> capacity then capacity
      else max required (min (grow capacity required) (2 ^ 63 - 1)))"

section \<open>Operations\<close>

definition ReceiveBuffer_new :: "growth \<Rightarrow> size_t \<Rightarrow> size_t \<Rightarrow> ReceiveBuffer" where
  "ReceiveBuffer_new grow max_buffered_bytes initial_capacity =
     \<lparr>rb_storage = [],
      rb_capacity = vector_room grow 0 (min initial_capacity max_buffered_bytes),
      rb_max_buffered_bytes = max_buffered_bytes,
      rb_read_offset = 0\<rparr>"

definition ReceiveBuffer_size :: "ReceiveBuffer \<Rightarrow> size_t" where
  "ReceiveBuffer_size b = size_sub (length (rb_storage b)) (rb_read_offset b)"

definition ReceiveBuffer_max_size :: "ReceiveBuffer \<Rightarrow> size_t" where
  "ReceiveBuffer_max_size b = rb_max_buffered_bytes b"

definition ReceiveBuffer_empty :: "ReceiveBuffer \<Rightarrow> bool" where
  "ReceiveBuffer_empty b \<longleftrightarrow> ReceiveBuffer_size b = 0"

definition readable_bytes :: "ReceiveBuffer \<Rightarrow> byte list" where
  "readable_bytes b = drop (rb_read_offset b) (rb_storage b)"

definition compact :: "ReceiveBuffer \<Rightarrow> ReceiveBuffer" where
  "compact b =
     (let readable_size = ReceiveBuffer_size b;
          moved = memmove_within (rb_storage b) 0 (rb_read_offset b) readable_size
      in b\<lparr>rb_storage := take readable_size moved, rb_read_offset := 0\<rparr>)"

definition ReceiveBuffer_append ::
  "growth \<Rightarrow> ReceiveBuffer \<Rightarrow> byte list \<Rightarrow> (ReceiveBuffer, ReceiveBufferError) expected" where
  "ReceiveBuffer_append grow b bytes =
     (if bytes = [] then Inr b
      else if length bytes > size_sub (rb_max_buffered_bytes b) (ReceiveBuffer_size b)
      then Inl buffer_limit_exceeded
      else
        let unused_tail_capacity = size_sub (rb_capacity b) (length (rb_storage b));
            b' = (if rb_read_offset b \<noteq> 0 \<and> unused_tail_capacity < length bytes
                  then compact b else b)
        in Inr (b'\<lparr>rb_storage := rb_storage b' @ bytes,
                   rb_capacity := vector_room grow (rb_capacity b')
                     (length (rb_storage b') + length bytes)\<rparr>))"

definition ReceiveBuffer_consume :: "ReceiveBuffer \<Rightarrow> size_t \<Rightarrow> ReceiveBuffer" where
  "ReceiveBuffer_consume b byte_count =
     (let b' = b\<lparr>rb_read_offset := size_add (rb_read_offset b) byte_count\<rparr>
      in if rb_read_offset b' = length (rb_storage b')
         then b'\<lparr>rb_storage := [], rb_read_offset := 0\<rparr> else b')"

section \<open>The interface: a bounded stream of bytes\<close>

text \<open>
  What a reader of the stream relies on: \<open>contents\<close> is what has been appended and not
  consumed; an append succeeds exactly when the bytes fit under the limit.
\<close>

primrec append_all :: "('b \<Rightarrow> 'a list \<Rightarrow> 'e + 'b) \<Rightarrow> 'b \<Rightarrow> 'a list list \<Rightarrow> 'e + 'b" where
  "append_all app b [] = Inr b"
| "append_all app b (c # cs) = (case app b c of Inl e \<Rightarrow> Inl e | Inr b' \<Rightarrow> append_all app b' cs)"

locale bounded_stream =
  fixes invar :: "'b \<Rightarrow> bool"
    and contents :: "'b \<Rightarrow> 'a list"
    and limit :: "'b \<Rightarrow> nat"
    and app :: "'b \<Rightarrow> 'a list \<Rightarrow> 'e + 'b"
    and consume :: "'b \<Rightarrow> nat \<Rightarrow> 'b"
  assumes contents_limit: "invar b \<Longrightarrow> length (contents b) \<le> limit b"
    and append_fits: "invar b \<Longrightarrow> length (contents b) + length bytes \<le> limit b \<Longrightarrow>
      \<exists>b'. app b bytes = Inr b' \<and> invar b' \<and> contents b' = contents b @ bytes
        \<and> limit b' = limit b"
    and append_full: "invar b \<Longrightarrow> limit b < length (contents b) + length bytes \<Longrightarrow>
      bytes \<noteq> [] \<Longrightarrow> \<exists>e. app b bytes = Inl e"
    and consume_invar: "invar b \<Longrightarrow> n \<le> length (contents b) \<Longrightarrow> invar (consume b n)"
    and consume_contents: "invar b \<Longrightarrow> n \<le> length (contents b) \<Longrightarrow>
      contents (consume b n) = drop n (contents b)"
    and consume_limit: "invar b \<Longrightarrow> n \<le> length (contents b) \<Longrightarrow> limit (consume b n) = limit b"
begin

lemma append_InrD:
  assumes "invar b" and "app b bytes = Inr b'"
  shows "invar b' \<and> contents b' = contents b @ bytes \<and> limit b' = limit b"
proof (cases "length (contents b) + length bytes \<le> limit b")
  case True
  with append_fits [OF assms(1) True] assms(2) show ?thesis by auto
next
  case False
  then have "limit b < length (contents b) + length bytes" by simp
  moreover from this contents_limit [OF assms(1)] have "bytes \<noteq> []" by auto
  ultimately obtain e where "app b bytes = Inl e"
    using append_full [OF assms(1)] by blast
  with assms(2) show ?thesis by simp
qed

lemma append_ok_iff:
  assumes "invar b"
  shows "(\<exists>b'. app b bytes = Inr b') \<longleftrightarrow> length (contents b) + length bytes \<le> limit b"
proof
  assume "\<exists>b'. app b bytes = Inr b'"
  then obtain b' where "app b bytes = Inr b'" ..
  with assms have "invar b'" "contents b' = contents b @ bytes" "limit b' = limit b"
    by (auto dest: append_InrD)
  with contents_limit [of b'] show "length (contents b) + length bytes \<le> limit b" by simp
qed (use append_fits assms in blast)

text \<open>However the bytes are cut into chunks, the stream holds their concatenation.\<close>

lemma append_all_contents:
  assumes "invar b" and "length (contents b) + length (concat cs) \<le> limit b"
  shows "\<exists>b'. append_all app b cs = Inr b' \<and> invar b' \<and> limit b' = limit b
    \<and> contents b' = contents b @ concat cs"
  using assms
proof (induction cs arbitrary: b)
  case Nil
  then show ?case by simp
next
  case (Cons c cs)
  then have "length (contents b) + length c \<le> limit b" by simp
  with Cons.prems(1) obtain b1 where b1: "app b c = Inr b1" "invar b1"
    "contents b1 = contents b @ c" "limit b1 = limit b"
    by (auto dest: append_fits)
  with Cons.prems(2) have "length (contents b1) + length (concat cs) \<le> limit b1" by simp
  from Cons.IH [OF b1(2) this] b1 show ?case by auto
qed

end

section \<open>Invariant\<close>

definition rb_inv :: "ReceiveBuffer \<Rightarrow> bool" where
  "rb_inv b \<longleftrightarrow>
     rb_read_offset b \<le> length (rb_storage b) \<and>
     (rb_storage b \<noteq> [] \<longrightarrow> rb_read_offset b < length (rb_storage b)) \<and>
     length (rb_storage b) - rb_read_offset b \<le> rb_max_buffered_bytes b \<and>
     length (rb_storage b) \<le> rb_capacity b \<and>
     rb_capacity b < 2 ^ 63 \<and> rb_max_buffered_bytes b < 2 ^ 63"

lemma vector_room_ge: "required \<le> vector_room grow capacity required"
  by (simp add: vector_room_def)

lemma vector_room_bound:
  "required < 2 ^ 63 \<Longrightarrow> capacity < 2 ^ 63 \<Longrightarrow> vector_room grow capacity required < 2 ^ 63"
  by (auto simp: vector_room_def min_def)

lemma ReceiveBuffer_size_readable:
  "rb_inv b \<Longrightarrow> ReceiveBuffer_size b = length (readable_bytes b)"
  by (simp add: ReceiveBuffer_size_def readable_bytes_def rb_inv_def)

lemma ReceiveBuffer_empty_readable:
  "rb_inv b \<Longrightarrow> ReceiveBuffer_empty b \<longleftrightarrow> readable_bytes b = []"
  by (simp add: ReceiveBuffer_empty_def ReceiveBuffer_size_readable)

lemma readable_limit: "rb_inv b \<Longrightarrow> length (readable_bytes b) \<le> rb_max_buffered_bytes b"
  by (simp add: readable_bytes_def rb_inv_def)

lemma ReceiveBuffer_new_inv [inv_intros]:
  "max_bytes < 2 ^ 63 \<Longrightarrow> rb_inv (ReceiveBuffer_new grow max_bytes initial)"
  using vector_room_bound [of "min initial max_bytes" 0 grow]
  by (simp add: rb_inv_def ReceiveBuffer_new_def)

lemma readable_new [simp]: "readable_bytes (ReceiveBuffer_new grow m i) = []"
  "rb_max_buffered_bytes (ReceiveBuffer_new grow m i) = m"
  by (simp_all add: readable_bytes_def ReceiveBuffer_new_def)

lemma compact_readable:
  assumes "rb_inv b"
  shows "rb_storage (compact b) = readable_bytes b" "rb_read_offset (compact b) = 0"
    "rb_capacity (compact b) = rb_capacity b"
    "rb_max_buffered_bytes (compact b) = rb_max_buffered_bytes b"
  using assms
  by (simp_all add: compact_def Let_def ReceiveBuffer_size_readable memmove_within_def
      memcpy_at_def readable_bytes_def)

text \<open>
  The vector an append writes to: compacted or not, it shows the same bytes, and the append
  fits into the room it has or stays under the limit of the buffer.
\<close>

definition append_target :: "ReceiveBuffer \<Rightarrow> byte list \<Rightarrow> ReceiveBuffer" where
  "append_target b bytes =
     (if rb_read_offset b \<noteq> 0 \<and> size_sub (rb_capacity b) (length (rb_storage b)) < length bytes
      then compact b else b)"

lemma append_target_facts:
  assumes "rb_inv b"
  shows "readable_bytes (append_target b bytes) = readable_bytes b"
    "rb_capacity (append_target b bytes) = rb_capacity b"
    "rb_max_buffered_bytes (append_target b bytes) = rb_max_buffered_bytes b"
    "rb_read_offset (append_target b bytes) \<le> length (rb_storage (append_target b bytes))"
  using assms
  by (auto simp: append_target_def compact_readable readable_bytes_def rb_inv_def)

lemma append_target_room:
  assumes "rb_inv b" and "length (readable_bytes b) + length bytes \<le> rb_max_buffered_bytes b"
  shows "length (rb_storage (append_target b bytes)) + length bytes
    \<le> max (rb_capacity b) (rb_max_buffered_bytes b)"
proof (cases "rb_read_offset b \<noteq> 0 \<and>
    size_sub (rb_capacity b) (length (rb_storage b)) < length bytes")
  case True
  with assms show ?thesis
    by (simp add: append_target_def compact_readable)
next
  case False
  with assms show ?thesis
    by (auto simp: append_target_def rb_inv_def readable_bytes_def)
qed

lemma append_success:
  fixes grow :: growth
  assumes "rb_inv b" and "bytes \<noteq> []"
    and "length (readable_bytes b) + length bytes \<le> rb_max_buffered_bytes b"
  defines "b' \<equiv> (append_target b bytes)
    \<lparr>rb_storage := rb_storage (append_target b bytes) @ bytes,
     rb_capacity := vector_room grow (rb_capacity b)
       (length (rb_storage (append_target b bytes)) + length bytes)\<rparr>"
  shows "ReceiveBuffer_append grow b bytes = Inr b'" "rb_inv b'"
    "readable_bytes b' = readable_bytes b @ bytes"
    "rb_max_buffered_bytes b' = rb_max_buffered_bytes b"
    "length (rb_storage b') \<le> max (rb_capacity b) (rb_max_buffered_bytes b)"
proof -
  note target = append_target_facts [OF assms(1), of bytes]
  have room: "length (rb_storage (append_target b bytes)) + length bytes
      \<le> max (rb_capacity b) (rb_max_buffered_bytes b)"
    by (rule append_target_room [OF assms(1,3)])
  moreover have caps: "rb_capacity b < 2 ^ 63" "rb_max_buffered_bytes b < 2 ^ 63"
    using assms(1) by (simp_all add: rb_inv_def)
  ultimately have small: "length (rb_storage (append_target b bytes)) + length bytes < 2 ^ 63"
    by (simp add: max_def split: if_splits)
  from assms(2) have some: "0 < length bytes" by simp
  show "readable_bytes b' = readable_bytes b @ bytes"
    using target by (simp add: b'_def readable_bytes_def)
  then have "length (rb_storage b') - rb_read_offset b' \<le> rb_max_buffered_bytes b"
    using assms(3) unfolding readable_bytes_def by (metis length_append length_drop)
  then show "rb_inv b'"
    using caps some target vector_room_ge [of _ grow "rb_capacity b"]
      vector_room_bound [OF small caps(1), of grow]
    by (simp add: b'_def rb_inv_def trans_le_add1 le_less_trans)
  have "\<not> size_sub (rb_max_buffered_bytes b) (ReceiveBuffer_size b) < length bytes"
    using assms(1,3) by (simp add: ReceiveBuffer_size_readable)
  then show "ReceiveBuffer_append grow b bytes = Inr b'"
    using assms(2) target(2)
    by (simp add: ReceiveBuffer_append_def b'_def append_target_def Let_def)
  show "rb_max_buffered_bytes b' = rb_max_buffered_bytes b"
    using target by (simp add: b'_def)
  show "length (rb_storage b') \<le> max (rb_capacity b) (rb_max_buffered_bytes b)"
    using room by (simp add: b'_def)
qed

lemma append_overflow:
  assumes "rb_inv b" and "rb_max_buffered_bytes b < length (readable_bytes b) + length bytes"
    and "bytes \<noteq> []"
  shows "ReceiveBuffer_append grow b bytes = Inl buffer_limit_exceeded"
proof -
  have "length (readable_bytes b) \<le> rb_max_buffered_bytes b"
    using assms(1) by (simp add: readable_bytes_def rb_inv_def)
  moreover from this assms(2) have "rb_max_buffered_bytes b - length (readable_bytes b) < length bytes"
    by linarith
  ultimately show ?thesis
    using assms(1,3) by (simp add: ReceiveBuffer_append_def ReceiveBuffer_size_readable)
qed

lemma consume_facts:
  assumes "rb_inv b" and "n \<le> length (readable_bytes b)"
  shows "rb_inv (ReceiveBuffer_consume b n)"
    "readable_bytes (ReceiveBuffer_consume b n) = drop n (readable_bytes b)"
    "rb_max_buffered_bytes (ReceiveBuffer_consume b n) = rb_max_buffered_bytes b"
proof -
  have add: "size_add (rb_read_offset b) n = rb_read_offset b + n"
    using assms by (simp add: rb_inv_def readable_bytes_def)
  show "rb_inv (ReceiveBuffer_consume b n)"
    using assms add by (auto simp: ReceiveBuffer_consume_def rb_inv_def readable_bytes_def Let_def)
  show "readable_bytes (ReceiveBuffer_consume b n) = drop n (readable_bytes b)"
    using assms add
    by (auto simp: ReceiveBuffer_consume_def readable_bytes_def Let_def add.commute)
  show "rb_max_buffered_bytes (ReceiveBuffer_consume b n) = rb_max_buffered_bytes b"
    by (simp add: ReceiveBuffer_consume_def Let_def)
qed

text \<open>The buffer is a bounded stream, for every way a vector may grow.\<close>

interpretation rb: bounded_stream rb_inv readable_bytes ReceiveBuffer_max_size
  "ReceiveBuffer_append grow" ReceiveBuffer_consume for grow
proof unfold_locales
  fix grow b and bytes :: "byte list"
  assume "rb_inv b" and "length (readable_bytes b) + length bytes \<le> ReceiveBuffer_max_size b"
  with append_success [of b bytes grow]
  show "\<exists>b'. ReceiveBuffer_append grow b bytes = Inr b' \<and> rb_inv b' \<and>
      readable_bytes b' = readable_bytes b @ bytes \<and>
      ReceiveBuffer_max_size b' = ReceiveBuffer_max_size b"
    by (cases "bytes = []")
      (auto simp: ReceiveBuffer_max_size_def ReceiveBuffer_append_def [of _ _ "[]"])
qed (auto simp: readable_limit consume_facts append_overflow ReceiveBuffer_max_size_def)

section \<open>Properties\<close>

text \<open>
  The receive buffer refines a bounded queue of bytes: bytes appended in any number of
  reads and within the limit are all kept, in order, behind what was already readable; the
  buffer stays well formed and its limit unchanged.
\<close>
theorem ReceiveBuffer_append_all:
  assumes "rb_inv b"
    and "length (readable_bytes b) + length (concat chunks) \<le> ReceiveBuffer_max_size b"
  shows "\<exists>b'. append_all (ReceiveBuffer_append grow) b chunks = Inr b' \<and> rb_inv b'
    \<and> ReceiveBuffer_max_size b' = ReceiveBuffer_max_size b
    \<and> readable_bytes b' = readable_bytes b @ concat chunks"
  using assms by (rule rb.append_all_contents)

theorem ReceiveBuffer_append_all_witness:
  "\<exists>b'. append_all (ReceiveBuffer_append (\<lambda>c r. 2 * c)) (ReceiveBuffer_new (\<lambda>c r. 2 * c) 8 4)
      [[1, 2], [3], [4, 5]] = Inr b' \<and> readable_bytes b' = [1, 2, 3, 4, 5]"
proof -
  let ?b = "ReceiveBuffer_new (\<lambda>c r. 2 * c) 8 4"
  have "rb_inv ?b" by (rule ReceiveBuffer_new_inv) simp
  moreover have "length (readable_bytes ?b) + length (concat [[1, 2], [3], [4, 5 :: byte]])
      \<le> ReceiveBuffer_max_size ?b"
    by (simp add: ReceiveBuffer_max_size_def)
  ultimately show ?thesis
    using ReceiveBuffer_append_all [of ?b "[[1, 2], [3], [4, 5]]" "\<lambda>c r. 2 * c"] by auto
qed

text \<open>
  An append is refused exactly when the bytes would exceed the limit of the buffer, and an
  accepted one never makes the vector longer than the capacity it already had or the limit,
  so a peer cannot make the buffer grow without bound.
\<close>
theorem ReceiveBuffer_append_bounded:
  assumes "rb_inv b"
  shows "(ReceiveBuffer_append grow b bytes = Inl buffer_limit_exceeded
      \<longleftrightarrow> ReceiveBuffer_max_size b < length (readable_bytes b) + length bytes)
    \<and> (\<forall>b'. ReceiveBuffer_append grow b bytes = Inr b' \<longrightarrow>
      length (rb_storage b') \<le> max (rb_capacity b) (ReceiveBuffer_max_size b))"
proof (cases "ReceiveBuffer_max_size b < length (readable_bytes b) + length bytes")
  case True
  with readable_limit [OF assms] have "bytes \<noteq> []"
    by (auto simp: ReceiveBuffer_max_size_def)
  with True append_overflow [OF assms, of bytes grow] show ?thesis
    by (simp add: ReceiveBuffer_max_size_def)
next
  case False
  with append_success [OF assms, of bytes grow] assms show ?thesis
    by (cases "bytes = []")
      (auto simp: ReceiveBuffer_max_size_def ReceiveBuffer_append_def [of _ _ "[]"] rb_inv_def)
qed

theorem ReceiveBuffer_append_bounded_witness:
  "rb_inv (ReceiveBuffer_new (\<lambda>c r. r) 2 2) \<and>
   ReceiveBuffer_append (\<lambda>c r. r) (ReceiveBuffer_new (\<lambda>c r. r) 2 2) [1, 2, 3] =
     Inl buffer_limit_exceeded"
proof -
  have inv: "rb_inv (ReceiveBuffer_new (\<lambda>c r. r) 2 2)"
    by (rule ReceiveBuffer_new_inv) simp
  from inv ReceiveBuffer_append_bounded [OF inv, of "\<lambda>c r. r" "[1, 2, 3]"] show ?thesis
    by (simp add: ReceiveBuffer_max_size_def)
qed

end
