(* ===== verification/Wire_Bytes.thy ===== *)
theory Wire_Bytes
  imports Mcrs_Prelude
begin

text \<open>
  Integers in memory. The codec moves integers with \<open>std::memcpy\<close> and, on a little endian
  machine, \<open>std::byteswap\<close>; the payload code shifts and masks. Both are compared with one
  reference: \<open>bytes_be\<close> and \<open>of_bytes_be\<close>, the most significant byte first. The facts are
  proved once for every width, through the bits of the words.
\<close>

unbundle bit_operations_syntax

section \<open>Bytes of a word\<close>

definition bytes_le :: "'a::len word \<Rightarrow> byte list" where
  "bytes_le w = map (\<lambda>i. ucast (drop_bit (8 * i) w)) [0..<LENGTH('a) div 8]"

primrec of_bytes_le :: "byte list \<Rightarrow> 'a::len word" where
  "of_bytes_le [] = 0"
| "of_bytes_le (b # bs) = ucast b OR push_bit 8 (of_bytes_le bs)"

definition bytes_be :: "'a::len word \<Rightarrow> byte list" where
  "bytes_be w = rev (bytes_le w)"

definition of_bytes_be :: "byte list \<Rightarrow> 'a::len word" where
  "of_bytes_be bs = of_bytes_le (rev bs)"

lemma length_bytes_le [simp]: "length (bytes_le (w :: 'a::len word)) = LENGTH('a) div 8"
  by (simp add: bytes_le_def)

lemma length_bytes_be [simp]: "length (bytes_be (w :: 'a::len word)) = LENGTH('a) div 8"
  by (simp add: bytes_be_def)

lemma nth_bytes_le:
  "i < LENGTH('a) div 8 \<Longrightarrow> bytes_le (w :: 'a::len word) ! i = ucast (drop_bit (8 * i) w)"
  by (simp add: bytes_le_def)

lemma bit_of_bytes_le:
  "bit (of_bytes_le bs :: 'a::len word) n \<longleftrightarrow>
    n < LENGTH('a) \<and> n div 8 < length bs \<and> bit (bs ! (n div 8)) (n mod 8)"
proof (induction bs arbitrary: n)
  case Nil
  then show ?case by simp
next
  case (Cons b bs)
  show ?case
  proof (cases "n < 8")
    case True
    then show ?thesis
      by (auto simp: bit_simps)
  next
    case False
    then have step: "n div 8 = Suc ((n - 8) div 8)" "n mod 8 = (n - 8) mod 8"
      by (simp_all add: le_div_geq le_mod_geq)
    from False have "\<not> bit b n"
      using bit_imp_le_length [of b n] by auto
    with False show ?thesis
      by (auto simp: bit_simps Cons.IH step)
  qed
qed

lemma of_bytes_le_bytes_le:
  fixes w :: "'a::len word"
  assumes "8 dvd LENGTH('a)"
  shows "of_bytes_le (bytes_le w) = w"
proof (rule bit_word_eqI)
  fix n assume n: "n < LENGTH('a)"
  with assms have "n div 8 < LENGTH('a) div 8"
    by (metis dvd_div_mult_self less_mult_imp_div_less)
  with n show "bit (of_bytes_le (bytes_le w) :: 'a word) n \<longleftrightarrow> bit w n"
    by (auto simp: bit_of_bytes_le bytes_le_def bit_simps)
qed

lemma bytes_le_of_bytes_le:
  assumes "8 * length bs = LENGTH('a)"
  shows "bytes_le (of_bytes_le bs :: 'a::len word) = bs"
proof (rule nth_equalityI)
  show "length (bytes_le (of_bytes_le bs :: 'a word)) = length bs"
    using assms by simp
next
  fix i assume "i < length (bytes_le (of_bytes_le bs :: 'a word))"
  with assms have i: "i < length bs" by simp
  show "bytes_le (of_bytes_le bs :: 'a word) ! i = bs ! i"
  proof (rule bit_word_eqI)
    fix n assume "n < LENGTH(8)"
    then have n: "n < 8" by simp
    with i assms have "8 * i + n < LENGTH('a)" and "i < LENGTH('a) div 8"
      by linarith+
    with i n show "bit (bytes_le (of_bytes_le bs :: 'a word) ! i) n \<longleftrightarrow> bit (bs ! i) n"
      by (simp add: nth_bytes_le bit_simps bit_of_bytes_le)
  qed
qed

text \<open>The four facts as they are used: the two directions, most significant byte first.\<close>

lemma of_bytes_be_bytes_be [wire_simps]:
  "8 dvd LENGTH('a) \<Longrightarrow> of_bytes_be (bytes_be w) = (w :: 'a::len word)"
  by (simp add: of_bytes_be_def bytes_be_def of_bytes_le_bytes_le)

lemma bytes_be_of_bytes_be [wire_simps]:
  "8 * length bs = LENGTH('a) \<Longrightarrow> bytes_be (of_bytes_be bs :: 'a::len word) = bs"
  by (simp add: of_bytes_be_def bytes_be_def bytes_le_of_bytes_le)

lemma bytes_be_inject [wire_simps]:
  "8 dvd LENGTH('a) \<Longrightarrow> bytes_be a = bytes_be b \<longleftrightarrow> a = (b :: 'a::len word)"
  by (metis of_bytes_be_bytes_be)

section \<open>Shifting and masking\<close>

lemma bytes_le_16: "bytes_le (w :: uint16) = [ucast w, ucast (drop_bit 8 w)]"
  by (simp add: bytes_le_def upt_rec)

lemma bytes_be_16:
  "bytes_be (w :: uint16) = [ucast (drop_bit 8 w), ucast w]"
  by (simp add: bytes_be_def bytes_le_16)

lemma bytes_be_32:
  "bytes_be (w :: uint32) =
    [ucast (drop_bit 24 w), ucast (drop_bit 16 w), ucast (drop_bit 8 w), ucast w]"
  by (simp add: bytes_be_def bytes_le_def upt_rec)

lemma of_bytes_be_snoc:
  "of_bytes_be (bs @ [b]) = (push_bit 8 (of_bytes_be bs) OR ucast b :: 'a::len word)"
  by (simp add: of_bytes_be_def or.commute)

lemma of_bytes_be_Nil [simp]: "of_bytes_be [] = 0"
  by (simp add: of_bytes_be_def)

lemma foldl_shift_or_of_bytes_be:
  "foldl (\<lambda>v b. push_bit 8 v OR ucast b) 0 bs = (of_bytes_be bs :: 'a::len word)"
  by (induction bs rule: rev_induct) (simp_all add: of_bytes_be_snoc)

lemma ucast_mask_byte: "(ucast (w AND 0xFF) :: byte) = ucast (w :: 'a::len word)"
proof (rule bit_word_eqI)
  fix n assume "n < LENGTH(8)"
  then have "bit (0xFF :: 'a word) n \<longleftrightarrow> n < LENGTH('a)"
    using bit_mask_iff [of 8 n, where ?'a = "'a word"] by (simp add: mask_eq_exp_minus_1)
  then show "bit (ucast (w AND 0xFF) :: byte) n \<longleftrightarrow> bit (ucast w :: byte) n"
    using bit_imp_le_length [of w n] by (auto simp: bit_simps)
qed

end
