(* ===== verification/Gameplay_Payload.thy ===== *)
theory Gameplay_Payload
  imports Wire_Bytes
begin

text \<open>
  \<open>include/mcrs/protocol/gameplay_payload.hpp\<close> and \<open>src/protocol/gameplay_payload.cpp\<close>: the
  fixed size payloads of move, player state and player left packets, read and written by
  shifting. \<open>bytes ! i\<close> models the unchecked \<open>bytes[i]\<close>; every decoder checks the size of
  the span first, and the lemmas below give the value of every read.
\<close>

unbundle bit_operations_syntax

section \<open>Data\<close>

definition move_payload_size :: size_t where
  "move_payload_size = 4 * 2"

definition player_state_payload_size :: size_t where
  "player_state_payload_size = 8 + 4 * 2"

definition player_left_payload_size :: size_t where
  "player_left_payload_size = 8 + 2"

record MovePayload =
  move_x :: int32
  move_y :: int32

record PlayerStatePayload =
  state_session_id :: uint64
  state_x :: int32
  state_y :: int32

record PlayerLeftPayload =
  left_session_id :: uint64
  left_reason :: uint16

datatype GameplayPayloadError =
  expected_empty_payload
| invalid_move_payload_size
| invalid_player_state_payload_size
| invalid_player_left_payload_size

section \<open>Big endian by shifting\<close>

text \<open>The 16-bit operands are promoted to \<open>int\<close> before the shift and narrowed at the end.\<close>

definition read_uint16_big_endian :: "byte list \<Rightarrow> size_t \<Rightarrow> uint16" where
  "read_uint16_big_endian bytes offset =
     ucast (push_bit 8 (ucast (bytes ! offset) :: 32 word) OR ucast (bytes ! (offset + 1)))"

definition read_uint32_big_endian :: "byte list \<Rightarrow> size_t \<Rightarrow> uint32" where
  "read_uint32_big_endian bytes offset =
     push_bit 24 (ucast (bytes ! offset)) OR push_bit 16 (ucast (bytes ! (offset + 1))) OR
     push_bit 8 (ucast (bytes ! (offset + 2))) OR ucast (bytes ! (offset + 3))"

fun read_uint64_loop :: "byte list \<Rightarrow> size_t \<Rightarrow> nat \<Rightarrow> size_t \<Rightarrow> uint64 \<Rightarrow> uint64" where
  "read_uint64_loop bytes offset 0 index v = v"
| "read_uint64_loop bytes offset (Suc left) index v =
     read_uint64_loop bytes offset left (Suc index)
       (push_bit 8 v OR ucast (bytes ! (offset + index)))"

definition read_uint64_big_endian :: "byte list \<Rightarrow> size_t \<Rightarrow> uint64" where
  "read_uint64_big_endian bytes offset = read_uint64_loop bytes offset 8 0 0"

definition write_uint32_big_endian :: "byte list \<Rightarrow> size_t \<Rightarrow> uint32 \<Rightarrow> byte list" where
  "write_uint32_big_endian bytes offset v =
     bytes[offset := ucast (drop_bit 24 v AND 0xFF),
           offset + 1 := ucast (drop_bit 16 v AND 0xFF),
           offset + 2 := ucast (drop_bit 8 v AND 0xFF),
           offset + 3 := ucast (v AND 0xFF)]"

section \<open>Payload operations\<close>

definition validate_empty_payload :: "byte list \<Rightarrow> (unit, GameplayPayloadError) expected" where
  "validate_empty_payload bytes =
     (if bytes \<noteq> [] then Inl expected_empty_payload else Inr ())"

definition decode_move_payload :: "byte list \<Rightarrow> (MovePayload, GameplayPayloadError) expected" where
  "decode_move_payload bytes =
     (if length bytes \<noteq> move_payload_size then Inl invalid_move_payload_size
      else Inr \<lparr>move_x = read_uint32_big_endian bytes 0,
                move_y = read_uint32_big_endian bytes 4\<rparr>)"

definition encode_move_payload :: "MovePayload \<Rightarrow> byte list" where
  "encode_move_payload p =
     write_uint32_big_endian
       (write_uint32_big_endian (replicate move_payload_size 0) 0 (move_x p)) 4 (move_y p)"

definition decode_player_state_payload ::
  "byte list \<Rightarrow> (PlayerStatePayload, GameplayPayloadError) expected" where
  "decode_player_state_payload bytes =
     (if length bytes \<noteq> player_state_payload_size then Inl invalid_player_state_payload_size
      else Inr \<lparr>state_session_id = read_uint64_big_endian bytes 0,
                state_x = read_uint32_big_endian bytes 8,
                state_y = read_uint32_big_endian bytes (8 + 4)\<rparr>)"

definition decode_player_left_payload ::
  "byte list \<Rightarrow> (PlayerLeftPayload, GameplayPayloadError) expected" where
  "decode_player_left_payload bytes =
     (if length bytes \<noteq> player_left_payload_size then Inl invalid_player_left_payload_size
      else Inr \<lparr>left_session_id = read_uint64_big_endian bytes 0,
                left_reason = read_uint16_big_endian bytes 8\<rparr>)"

fun GameplayPayloadError_to_string :: "GameplayPayloadError \<Rightarrow> string" where
  "GameplayPayloadError_to_string expected_empty_payload = ''packet payload must be empty''"
| "GameplayPayloadError_to_string invalid_move_payload_size =
     ''move payload must contain two 32-bit coordinates''"
| "GameplayPayloadError_to_string invalid_player_state_payload_size =
     ''player state payload must contain a session id and two coordinates''"
| "GameplayPayloadError_to_string invalid_player_left_payload_size =
     ''player left payload must contain a session id and reason''"

section \<open>Shifting agrees with the byte lists\<close>

lemmas payload_sizes = move_payload_size_def player_state_payload_size_def
  player_left_payload_size_def

lemma read_uint16_eq [wire_simps]:
  "read_uint16_big_endian (xs @ [a, b] @ ys) (length xs) = of_bytes_be [a, b]"
proof -
  have "read_uint16_big_endian (xs @ [a, b] @ ys) (length xs) =
      ucast (push_bit 8 (ucast a :: 32 word) OR ucast b)"
    by (simp add: read_uint16_big_endian_def nth_append)
  also have "\<dots> = of_bytes_be [a, b]"
    by (rule bit_word_eqI) (auto simp: of_bytes_be_def bit_simps)
  finally show ?thesis .
qed

lemma read_uint32_eq [wire_simps]:
  "read_uint32_big_endian (xs @ [a, b, c, d] @ ys) (length xs) = of_bytes_be [a, b, c, d]"
proof -
  have "read_uint32_big_endian (xs @ [a, b, c, d] @ ys) (length xs) =
      push_bit 24 (ucast a) OR push_bit 16 (ucast b) OR push_bit 8 (ucast c) OR ucast d"
    by (simp add: read_uint32_big_endian_def nth_append)
  also have "\<dots> = of_bytes_be [a, b, c, d]"
    by (simp add: of_bytes_be_def push_bit_or or.assoc or.commute or.left_commute)
  finally show ?thesis .
qed

lemma read_uint64_loop_eq:
  "length xs = offset + index \<Longrightarrow> length bs = left \<Longrightarrow>
    read_uint64_loop (xs @ bs @ ys) offset left index v =
      foldl (\<lambda>v b. push_bit 8 v OR ucast b) v bs"
proof (induction left arbitrary: xs index v bs)
  case 0
  then show ?case by simp
next
  case (Suc left)
  then obtain b bs' where bs: "bs = b # bs'" and "length bs' = left"
    by (cases bs) auto
  with Suc.IH [of "xs @ [b]" "Suc index" bs'] Suc.prems show ?case
    by (simp add: nth_append)
qed

lemma read_uint64_eq [wire_simps]:
  "length bs = 8 \<Longrightarrow> read_uint64_big_endian (xs @ bs @ ys) (length xs) = of_bytes_be bs"
  by (simp add: read_uint64_big_endian_def read_uint64_loop_eq foldl_shift_or_of_bytes_be)

lemma write_uint32_eq [wire_simps]:
  "length old = 4 \<Longrightarrow>
    write_uint32_big_endian (xs @ old @ ys) (length xs) v = xs @ bytes_be v @ ys"
  by (auto simp: write_uint32_big_endian_def ucast_mask_byte bytes_be_32 list_update_append
      numeral_eq_Suc length_Suc_conv)

section \<open>Payload layouts\<close>

lemma encode_move_payload_eq:
  "encode_move_payload p = bytes_be (move_x p) @ bytes_be (move_y p)"
proof -
  have z: "replicate move_payload_size 0 = [] @ replicate 4 (0 :: byte) @ replicate 4 0"
    by (simp add: move_payload_size_def flip: replicate_add)
  have "write_uint32_big_endian (replicate move_payload_size 0) 0 v = bytes_be v @ replicate 4 0" for v
    unfolding z using write_uint32_eq [of "replicate 4 0" "[]" "replicate 4 0" v] by simp
  then show ?thesis
    using write_uint32_eq [of "replicate 4 0" "bytes_be (move_x p)" "[]" "move_y p"]
    by (simp add: encode_move_payload_def)
qed

lemma read_uint32_bytes_be [wire_simps]:
  "length xs = offset \<Longrightarrow> read_uint32_big_endian (xs @ bytes_be w @ ys) offset = w"
  using read_uint32_eq [of xs _ _ _ _ ys] of_bytes_be_bytes_be [of w] by (simp add: bytes_be_32)

lemma read_uint64_bytes_be [wire_simps]:
  "length xs = offset \<Longrightarrow> read_uint64_big_endian (xs @ bytes_be w @ ys) offset = w"
  using read_uint64_eq [of "bytes_be w" xs ys] by (auto simp: of_bytes_be_bytes_be)

lemma read_uint16_bytes_be [wire_simps]:
  "length xs = offset \<Longrightarrow> read_uint16_big_endian (xs @ bytes_be w @ ys) offset = w"
  using read_uint16_eq [of xs _ _ ys] of_bytes_be_bytes_be [of w] by (simp add: bytes_be_16)

lemma decode_move_payload_layout [wire_simps]:
  "decode_move_payload (bytes_be x @ bytes_be y) = Inr \<lparr>move_x = x, move_y = y\<rparr>"
  using read_uint32_bytes_be [of "[]" 0 x "bytes_be y"] read_uint32_bytes_be [of "bytes_be x" 4 y "[]"]
  by (simp add: decode_move_payload_def payload_sizes)

lemma decode_player_state_layout [wire_simps]:
  "decode_player_state_payload (bytes_be i @ bytes_be x @ bytes_be y) =
    Inr \<lparr>state_session_id = i, state_x = x, state_y = y\<rparr>"
  using read_uint64_bytes_be [of "[]" 0 i "bytes_be x @ bytes_be y"]
    read_uint32_bytes_be [of "bytes_be i" 8 x "bytes_be y"]
    read_uint32_bytes_be [of "bytes_be i @ bytes_be x" 12 y "[]"]
  by (simp add: decode_player_state_payload_def payload_sizes)

lemma decode_player_left_layout [wire_simps]:
  "decode_player_left_payload (bytes_be i @ bytes_be r) =
    Inr \<lparr>left_session_id = i, left_reason = r\<rparr>"
  using read_uint64_bytes_be [of "[]" 0 i "bytes_be r"]
    read_uint16_bytes_be [of "bytes_be i" 8 r "[]"]
  by (simp add: decode_player_left_payload_def payload_sizes)

lemma decode_move_payload_ok_iff: "is_ok (decode_move_payload bs) \<longleftrightarrow> length bs = 8"
  by (simp add: decode_move_payload_def payload_sizes)

lemma move_payload_split:
  assumes "length bs = 8"
  shows "bs = bytes_be (of_bytes_be (take 4 bs) :: uint32) @ bytes_be (of_bytes_be (drop 4 bs) :: uint32)"
  using assms by (simp add: bytes_be_of_bytes_be)

section \<open>Properties\<close>

text \<open>
  Move payloads round trip in both directions: decoding an encoded move gives the two
  coordinates back, the encoding always has eight bytes, and every payload that decodes is the
  encoding of its result.
\<close>
theorem move_payload_roundtrip:
  "decode_move_payload (encode_move_payload p) = Inr p
   \<and> length (encode_move_payload p) = move_payload_size
   \<and> (decode_move_payload bs = Inr q \<longrightarrow> encode_move_payload q = bs)"
proof (intro conjI impI)
  show "decode_move_payload (encode_move_payload p) = Inr p"
    by (simp add: encode_move_payload_eq decode_move_payload_layout)
  show "length (encode_move_payload p) = move_payload_size"
    by (simp add: encode_move_payload_eq payload_sizes)
next
  assume dec: "decode_move_payload bs = Inr q"
  then have "length bs = 8"
    using decode_move_payload_ok_iff [of bs] by simp
  then show "encode_move_payload q = bs"
    using dec move_payload_split [of bs] decode_move_payload_layout
    by (metis MovePayload.select_convs encode_move_payload_eq sum.inject(2))
qed

theorem move_payload_roundtrip_witness:
  "decode_move_payload [0, 0, 0, 3, 255, 255, 255, 252] = Inr \<lparr>move_x = 3, move_y = - 4\<rparr> \<and>
   encode_move_payload \<lparr>move_x = 3, move_y = - 4\<rparr> = [0, 0, 0, 3, 255, 255, 255, 252]"
proof -
  have "decode_move_payload [0, 0, 0, 3, 255, 255, 255, 252] = Inr \<lparr>move_x = 3, move_y = - 4\<rparr>"
    by (simp add: decode_move_payload_def payload_sizes read_uint32_big_endian_def)
  with move_payload_roundtrip [of _ "[0, 0, 0, 3, 255, 255, 255, 252]" "\<lparr>move_x = 3, move_y = - 4\<rparr>"]
  show ?thesis by blast
qed

end
