(* ===== verification/Packet_Codec.thy ===== *)
theory Packet_Codec
  imports Wire_Bytes
begin

text \<open>
  \<open>include/mcrs/protocol/packet_codec.hpp\<close> and \<open>src/protocol/packet_codec.cpp\<close>: the six
  byte header (payload size, packet type, both big endian), \<open>decode_one\<close> and
  \<open>encode_packet\<close>. A \<open>std::span\<close> is the list of the bytes it views.

  The enumeration \<open>PacketType\<close> has a fixed underlying type, so a value cast from the wire
  need not be one of its enumerators: \<open>unlisted c\<close> is such a value.
\<close>

section \<open>Data\<close>

datatype PacketType =
  ping | join_room | move | attack | leave_room
| player_joined | player_moved | player_left
| unlisted uint16

fun PacketType_value :: "PacketType \<Rightarrow> uint16" where
  "PacketType_value ping = 1"
| "PacketType_value join_room = 2"
| "PacketType_value move = 3"
| "PacketType_value attack = 4"
| "PacketType_value leave_room = 5"
| "PacketType_value player_joined = 101"
| "PacketType_value player_moved = 102"
| "PacketType_value player_left = 103"
| "PacketType_value (unlisted c) = c"

definition PacketType_cast :: "uint16 \<Rightarrow> PacketType" where
  "PacketType_cast c =
     (if c = 1 then ping else if c = 2 then join_room else if c = 3 then move
      else if c = 4 then attack else if c = 5 then leave_room
      else if c = 101 then player_joined else if c = 102 then player_moved
      else if c = 103 then player_left else unlisted c)"

definition wire_header_size :: size_t where
  "wire_header_size = 6"

definition max_payload_size :: uint32 where
  "max_payload_size = 64 * 1024"

record PacketHeader =
  payload_size :: uint32
  packet_type :: PacketType

datatype DecodeError =
  incomplete_header | payload_too_large | unknown_packet_type | incomplete_payload

datatype EncodeError = payload_too_large | unknown_packet_type

record PacketView =
  header :: PacketHeader
  payload :: "byte list"
  consumed_bytes :: size_t

section \<open>Integers on the wire\<close>

text \<open>
  \<open>load_native\<close> and \<open>store_native\<close> are \<open>std::memcpy\<close> between an integer object and
  memory on a machine of the given byte order, \<open>byteswap\<close> is \<open>std::byteswap\<close>.
\<close>

datatype endian = little | big

definition load_native :: "endian \<Rightarrow> byte list \<Rightarrow> 'a::len word" where
  "load_native en bs = (case en of little \<Rightarrow> of_bytes_le bs | big \<Rightarrow> of_bytes_be bs)"

definition store_native :: "endian \<Rightarrow> 'a::len word \<Rightarrow> byte list" where
  "store_native en w = (case en of little \<Rightarrow> bytes_le w | big \<Rightarrow> bytes_be w)"

definition byteswap :: "'a::len word \<Rightarrow> 'a word" where
  "byteswap w = of_bytes_le (rev (bytes_le w))"

definition read_big_endian :: "endian \<Rightarrow> byte list \<Rightarrow> size_t \<Rightarrow> 'a::len word" where
  "read_big_endian native bytes offset =
     (let value = load_native native (take (LENGTH('a) div 8) (drop offset bytes))
      in if native = little then byteswap value else value)"

definition write_big_endian ::
  "endian \<Rightarrow> byte list \<Rightarrow> size_t \<Rightarrow> 'a::len word \<Rightarrow> byte list" where
  "write_big_endian native bytes offset value =
     (let value' = (if native = little then byteswap value else value)
      in memcpy_at bytes offset (store_native native value'))"

text \<open>The byte order of the machine the code is built for; the lemmas show it is immaterial.\<close>

definition native_endian :: endian where
  "native_endian = little"

fun is_known :: "PacketType \<Rightarrow> bool" where
  "is_known (unlisted c) = False"
| "is_known t = True"

section \<open>decode\_one and encode\_packet\<close>

definition decode_one :: "byte list \<Rightarrow> (PacketView, DecodeError) expected" where
  "decode_one bytes =
     (if length bytes < wire_header_size then Inl DecodeError.incomplete_header
      else
        let sz = (read_big_endian native_endian bytes 0 :: uint32);
            type = PacketType_cast (read_big_endian native_endian bytes 4)
        in if sz > max_payload_size then Inl DecodeError.payload_too_large
           else if \<not> is_known type then Inl DecodeError.unknown_packet_type
           else
             let total_size = size_add wire_header_size (unat sz)
             in if length bytes < total_size then Inl DecodeError.incomplete_payload
                else Inr \<lparr>header = \<lparr>payload_size = sz, packet_type = type\<rparr>,
                          payload = take (unat sz) (drop wire_header_size bytes),
                          consumed_bytes = total_size\<rparr>)"

definition encode_packet :: "PacketType \<Rightarrow> byte list \<Rightarrow> (byte list, EncodeError) expected" where
  "encode_packet type bytes =
     (if length bytes > unat max_payload_size \<or> length bytes > 2 ^ 32 - 1
      then Inl EncodeError.payload_too_large
      else if \<not> is_known type then Inl EncodeError.unknown_packet_type
      else
        let encoded = replicate (size_add wire_header_size (length bytes)) 0;
            encoded = write_big_endian native_endian encoded 0 (of_nat (length bytes) :: uint32);
            encoded = write_big_endian native_endian encoded 4 (PacketType_value type)
        in Inr (if bytes \<noteq> [] then memcpy_at encoded wire_header_size bytes else encoded))"

definition is_incomplete :: "DecodeError \<Rightarrow> bool" where
  "is_incomplete e \<longleftrightarrow> e = DecodeError.incomplete_header \<or> e = DecodeError.incomplete_payload"

fun DecodeError_to_string :: "DecodeError \<Rightarrow> string" where
  "DecodeError_to_string DecodeError.incomplete_header = ''incomplete header''"
| "DecodeError_to_string DecodeError.payload_too_large = ''payload exceeds configured limit''"
| "DecodeError_to_string DecodeError.unknown_packet_type = ''unknown packet type''"
| "DecodeError_to_string DecodeError.incomplete_payload = ''incomplete payload''"

fun EncodeError_to_string :: "EncodeError \<Rightarrow> string" where
  "EncodeError_to_string EncodeError.payload_too_large = ''payload exceeds configured limit''"
| "EncodeError_to_string EncodeError.unknown_packet_type = ''unknown packet type''"

section \<open>Reading and writing do not depend on the machine\<close>

lemma read_big_endian_eq:
  assumes "8 dvd LENGTH('a)" and "offset + LENGTH('a) div 8 \<le> length bytes"
  shows "(read_big_endian native bytes offset :: 'a::len word) =
    of_bytes_be (take (LENGTH('a) div 8) (drop offset bytes))"
proof -
  let ?bs = "take (LENGTH('a) div 8) (drop offset bytes)"
  have "8 * length ?bs = LENGTH('a)"
    using assms by simp
  then show ?thesis
    by (cases native)
      (simp_all add: read_big_endian_def load_native_def byteswap_def bytes_le_of_bytes_le
        of_bytes_be_def)
qed

lemma write_big_endian_eq:
  fixes v :: "'a::len word"
  assumes "8 dvd LENGTH('a)"
  shows "write_big_endian native bytes offset v = memcpy_at bytes offset (bytes_be v)"
proof -
  have "bytes_le (of_bytes_le (rev (bytes_le v)) :: 'a word) = rev (bytes_le v)"
    using assms by (intro bytes_le_of_bytes_le) simp
  then show ?thesis
    by (cases native)
      (simp_all add: write_big_endian_def store_native_def byteswap_def bytes_be_def)
qed

section \<open>Packet types\<close>

lemma PacketType_cast_value [simp]: "is_known t \<Longrightarrow> PacketType_cast (PacketType_value t) = t"
  by (cases t) (simp_all add: PacketType_cast_def)

lemma PacketType_value_cast [simp]: "PacketType_value (PacketType_cast c) = c"
  by (simp add: PacketType_cast_def)

lemma is_known_iff: "is_known t \<longleftrightarrow> (\<forall>c. t \<noteq> unlisted c)"
  by (cases t) simp_all

section \<open>Framing\<close>

text \<open>A frame is the header followed by the payload; both operations are described by it.\<close>

definition frame :: "PacketType \<Rightarrow> byte list \<Rightarrow> byte list" where
  "frame t p = bytes_be (of_nat (length p) :: uint32) @ bytes_be (PacketType_value t) @ p"

definition view_of :: "PacketType \<Rightarrow> byte list \<Rightarrow> PacketView" where
  "view_of t p = \<lparr>header = \<lparr>payload_size = of_nat (length p), packet_type = t\<rparr>,
                  payload = p, consumed_bytes = wire_header_size + length p\<rparr>"

lemma unat_max_payload_size [simp]: "unat max_payload_size = 65536"
  by (simp add: max_payload_size_def)

lemma unat_of_nat_payload:
  "n \<le> 65536 \<Longrightarrow> unat (of_nat n :: uint32) = n"
  by (simp add: unat_of_nat)

lemma payload_in_range: "sz \<le> max_payload_size \<longleftrightarrow> unat sz \<le> 65536"
  by (simp add: word_le_nat_alt)

lemma length_frame [simp]: "length (frame t p) = wire_header_size + length p"
  by (simp add: frame_def wire_header_size_def)

lemma encode_packet_frame:
  assumes "length p \<le> 65536" and "is_known t"
  shows "encode_packet t p = Inr (frame t p)"
proof -
  have z: "replicate (6 + length p) (0 :: byte) =
      replicate 4 0 @ replicate 2 0 @ replicate (length p) 0"
  proof -
    have "6 + length p = 4 + (2 + length p)" by simp
    then show ?thesis by (simp only: replicate_add)
  qed
  have zero: "memcpy_at (memcpy_at (replicate (6 + length p) 0) 0 a) 4 b =
      a @ b @ replicate (length p) 0"
    if "length a = 4" "length b = 2" for a b :: "byte list"
    using that unfolding z by (simp add: memcpy_at_def)
  have "memcpy_at (a @ b @ replicate (length p) 0) 6 p = a @ b @ p"
    if "length a = 4" "length b = 2" for a b :: "byte list"
    using that by (simp add: memcpy_at_def)
  with assms zero [of "bytes_be (of_nat (length p) :: uint32)" "bytes_be (PacketType_value t)"]
  show ?thesis
    by (cases "p = []")
      (simp_all add: encode_packet_def wire_header_size_def write_big_endian_eq frame_def Let_def)
qed

lemma encode_packet_cases:
  "encode_packet t p =
    (if 65536 < length p then Inl EncodeError.payload_too_large
     else if \<not> is_known t then Inl EncodeError.unknown_packet_type
     else Inr (frame t p))"
proof (cases "length p \<le> 65536 \<and> is_known t")
  case True
  then show ?thesis by (simp add: encode_packet_frame)
next
  case False
  then show ?thesis by (auto simp: encode_packet_def)
qed

text \<open>The fields of a header in front of any bytes.\<close>

lemma read_size_field:
  "length hd4 = 4 \<Longrightarrow> read_big_endian native (hd4 @ bs) 0 = (of_bytes_be hd4 :: uint32)"
  by (subst read_big_endian_eq) simp_all

lemma read_type_field:
  "length hd4 = 4 \<Longrightarrow> length hd2 = 2 \<Longrightarrow>
    read_big_endian native (hd4 @ hd2 @ bs) 4 = (of_bytes_be hd2 :: uint16)"
  by (subst read_big_endian_eq) simp_all

lemma split_header:
  assumes "6 \<le> length bs"
  obtains hd4 hd2 rest where "bs = hd4 @ hd2 @ rest" "length hd4 = 4" "length hd2 = 2"
proof
  show "bs = take 4 bs @ take 2 (drop 4 bs) @ drop 2 (drop 4 bs)"
    by (simp only: append_take_drop_id)
qed (use assms in simp_all)

lemma decode_one_split:
  assumes "length hd4 = 4" and "length hd2 = 2"
  defines "sz \<equiv> (of_bytes_be hd4 :: uint32)" and "t \<equiv> PacketType_cast (of_bytes_be hd2)"
  shows "decode_one (hd4 @ hd2 @ rest) =
    (if 65536 < unat sz then Inl DecodeError.payload_too_large
     else if \<not> is_known t then Inl DecodeError.unknown_packet_type
     else if length rest < unat sz then Inl DecodeError.incomplete_payload
     else Inr \<lparr>header = \<lparr>payload_size = sz, packet_type = t\<rparr>,
               payload = take (unat sz) rest, consumed_bytes = 6 + unat sz\<rparr>)"
proof -
  have "size_add 6 (unat sz) = 6 + unat sz" if "unat sz \<le> 65536"
    using that by simp
  moreover have "max_payload_size < sz \<longleftrightarrow> 65536 < unat sz"
    by (simp add: word_less_nat_alt)
  ultimately show ?thesis
    using assms by (auto simp: decode_one_def wire_header_size_def Let_def read_size_field
        read_type_field)
qed

lemma decode_one_frame [wire_simps]:
  assumes "is_known t" and "length p \<le> 65536"
  shows "decode_one (frame t p @ rest) = Inr (view_of t p)"
  using assms
  by (simp add: frame_def decode_one_split wire_simps unat_of_nat_payload view_of_def
      wire_header_size_def)

lemma decode_one_short: "length bs < 6 \<Longrightarrow> decode_one bs = Inl DecodeError.incomplete_header"
  by (simp add: decode_one_def wire_header_size_def)

lemma decode_one_InrE:
  assumes "decode_one bs = Inr v"
  obtains t p rest where "bs = frame t p @ rest" "is_known t" "length p \<le> 65536"
    "v = view_of t p"
proof -
  from assms have "6 \<le> length bs"
    by (cases "length bs < 6") (simp_all add: decode_one_short)
  then obtain hd4 hd2 rest where bs: "bs = hd4 @ hd2 @ rest" and len: "length hd4 = 4" "length hd2 = 2"
    by (rule split_header)
  let ?sz = "of_bytes_be hd4 :: uint32" and ?t = "PacketType_cast (of_bytes_be hd2)"
  let ?p = "take (unat ?sz) rest"
  from assms len have ok: "unat ?sz \<le> 65536" "is_known ?t" "unat ?sz \<le> length rest"
    and v: "v = \<lparr>header = \<lparr>payload_size = ?sz, packet_type = ?t\<rparr>, payload = ?p,
                  consumed_bytes = 6 + unat ?sz\<rparr>"
    unfolding bs by (auto simp: decode_one_split split: if_splits)
  show ?thesis
  proof
    show "bs = frame ?t ?p @ drop (unat ?sz) rest"
      using ok len by (simp add: bs frame_def wire_simps)
    show "v = view_of ?t ?p"
      using ok by (simp add: v view_of_def wire_header_size_def)
  qed (use ok in simp_all)
qed

text \<open>What the codec promises: decoding succeeds exactly on a frame followed by anything.\<close>

lemma decode_one_Inr_iff:
  "decode_one bs = Inr v \<longleftrightarrow>
    (\<exists>t p rest. is_known t \<and> length p \<le> 65536 \<and> bs = frame t p @ rest \<and> v = view_of t p)"
  by (auto elim!: decode_one_InrE simp: decode_one_frame)

lemma view_of_simps [simp]:
  "packet_type (header (view_of t p)) = t" "payload (view_of t p) = p"
  "consumed_bytes (view_of t p) = 6 + length p"
  by (simp_all add: view_of_def wire_header_size_def)

lemma decode_one_append:
  assumes "\<And>e. decode_one bs = Inl e \<Longrightarrow> \<not> is_incomplete e"
  shows "decode_one (bs @ ext) = decode_one bs"
proof -
  from assms have "6 \<le> length bs"
    by (cases "length bs < 6") (auto simp: decode_one_short is_incomplete_def)
  then obtain hd4 hd2 rest where bs: "bs = hd4 @ hd2 @ rest" and len: "length hd4 = 4" "length hd2 = 2"
    by (rule split_header)
  from assms [of DecodeError.incomplete_payload]
  have "decode_one bs \<noteq> Inl DecodeError.incomplete_payload"
    by (auto simp: is_incomplete_def)
  then show ?thesis
    using len unfolding bs by (auto simp: decode_one_split split: if_splits)
qed

lemma decode_one_incompleteE:
  assumes "decode_one bs = Inl e" and "is_incomplete e"
  obtains "length bs < 6" "e = DecodeError.incomplete_header"
  | hd4 hd2 rest where "bs = hd4 @ hd2 @ rest" "length hd4 = 4" "length hd2 = 2"
      "unat (of_bytes_be hd4 :: uint32) \<le> 65536" "is_known (PacketType_cast (of_bytes_be hd2))"
      "length rest < unat (of_bytes_be hd4 :: uint32)" "e = DecodeError.incomplete_payload"
proof (cases "length bs < 6")
  case True
  with assms show ?thesis by (auto simp: decode_one_short intro: that)
next
  case False
  then have "6 \<le> length bs" by simp
  then obtain hd4 hd2 rest where bs: "bs = hd4 @ hd2 @ rest" and len: "length hd4 = 4" "length hd2 = 2"
    by (rule split_header)
  from assms len show ?thesis
    unfolding bs
    by (intro that(2) [OF bs len]) (auto simp: decode_one_split is_incomplete_def split: if_splits)
qed

lemma incomplete_length:
  "decode_one bs = Inl e \<Longrightarrow> is_incomplete e \<Longrightarrow> length bs < 65542"
  by (auto elim!: decode_one_incompleteE)

section \<open>Properties\<close>

text \<open>
  C8: Encoding then decoding gives back the packet: whatever bytes follow it in the stream,
  \<open>decode_one\<close> returns the type and payload that \<open>encode_packet\<close> was given and consumes
  exactly the bytes it produced.
\<close>
theorem decode_one_encode_packet:
  assumes "encode_packet t p = Inr bs"
  shows "decode_one (bs @ rest) =
    Inr \<lparr>header = \<lparr>payload_size = of_nat (length p), packet_type = t\<rparr>,
         payload = p, consumed_bytes = length bs\<rparr>"
  using assms
  by (auto simp: encode_packet_cases decode_one_frame view_of_def split: if_splits)

text \<open>The hypothesis of C0 at a join packet with two payload bytes, followed by a stray byte.\<close>
theorem decode_one_encode_packet_witness:
  "encode_packet join_room [7, 9] = Inr [0, 0, 0, 2, 0, 2, 7, 9] \<and>
   decode_one ([0, 0, 0, 2, 0, 2, 7, 9] @ [255]) =
    Inr \<lparr>header = \<lparr>payload_size = of_nat (length [7 :: byte, 9]), packet_type = join_room\<rparr>,
         payload = [7, 9], consumed_bytes = length [0 :: byte, 0, 0, 2, 0, 2, 7, 9]\<rparr>"
proof -
  have enc: "encode_packet join_room [7, 9] = Inr [0, 0, 0, 2, 0, 2, 7, 9]"
    by (simp add: encode_packet_cases frame_def bytes_be_32 bytes_be_16)
  from enc decode_one_encode_packet [OF enc, of "[255]"] show ?thesis by blast
qed

text \<open>
  C31: A successful decode is canonical: re-encoding the decoded type and payload gives exactly
  the bytes that were consumed, the type is a known one, and the size lies between the header
  and the largest packet (65542 bytes) and inside the input.
\<close>
theorem encode_packet_decode_one:
  assumes "decode_one bs = Inr v"
  shows "encode_packet (packet_type (header v)) (payload v) = Inr (take (consumed_bytes v) bs)
    \<and> is_known (packet_type (header v))
    \<and> wire_header_size \<le> consumed_bytes v
    \<and> consumed_bytes v \<le> min (length bs) (wire_header_size + unat max_payload_size)"
  using assms
  by (elim decode_one_InrE) (simp add: encode_packet_cases wire_header_size_def)

theorem encode_packet_decode_one_witness:
  "\<exists>v. decode_one [0, 0, 0, 1, 0, 1, 42, 9] = Inr v
    \<and> encode_packet (packet_type (header v)) (payload v) =
        Inr (take (consumed_bytes v) [0, 0, 0, 1, 0, 1, 42, 9])"
proof -
  have "[0, 0, 0, 1, 0, 1, 42, 9] = frame ping [42] @ [9]"
    by (simp add: frame_def bytes_be_32 bytes_be_16)
  then have dec: "decode_one [0, 0, 0, 1, 0, 1, 42, 9] = Inr (view_of ping [42])"
    by (simp only: decode_one_frame) (simp add: decode_one_frame)
  from encode_packet_decode_one [OF dec] dec show ?thesis by blast
qed

text \<open>
  C32: A verdict is final: once \<open>decode_one\<close> has returned a packet or an error other than
  incomplete, bytes that arrive later in the stream do not change it, so rejecting a
  connection at that point never rejects a packet that was still to come.
\<close>
theorem decode_one_verdict_final:
  assumes "\<And>e. decode_one bs = Inl e \<Longrightarrow> \<not> is_incomplete e"
  shows "decode_one (bs @ later) = decode_one bs"
  using assms by (rule decode_one_append)

theorem decode_one_verdict_final_witness:
  "decode_one [0, 0, 0, 0, 0, 9] = Inl DecodeError.unknown_packet_type \<and>
   decode_one ([0, 0, 0, 0, 0, 9] @ [1, 2, 3]) = decode_one [0, 0, 0, 0, 0, 9]"
proof -
  have dec: "decode_one [0, 0, 0, 0, 0, 9] = Inl DecodeError.unknown_packet_type"
    using decode_one_split [of "[0, 0, 0, 0]" "[0, 9]" "[]"]
    by (simp add: of_bytes_be_def PacketType_cast_def)
  then have "\<not> is_incomplete e" if "decode_one [0, 0, 0, 0, 0, 9] = Inl e" for e
    using that by (auto simp: is_incomplete_def)
  then have "decode_one ([0, 0, 0, 0, 0, 9] @ [1, 2, 3]) = decode_one [0, 0, 0, 0, 0, 9]"
    by (rule decode_one_verdict_final)
  with dec show ?thesis by blast
qed

text \<open>
  The error incomplete payload is recoverable by waiting: there is a number of missing
  bytes, at most the payload limit, such that the packet decodes as soon as that many more
  bytes have arrived, whatever they are, and not before.
\<close>
theorem decode_one_incomplete_payload:
  assumes "decode_one bs = Inl DecodeError.incomplete_payload"
  shows "\<exists>missing > 0. missing \<le> unat max_payload_size \<and>
    (\<forall>later. is_ok (decode_one (bs @ later)) \<longleftrightarrow> missing \<le> length later)"
proof -
  from assms obtain hd4 hd2 rest where bs: "bs = hd4 @ hd2 @ rest"
    and len: "length hd4 = 4" "length hd2 = 2"
    and ok: "unat (of_bytes_be hd4 :: uint32) \<le> 65536" "is_known (PacketType_cast (of_bytes_be hd2))"
    and short: "length rest < unat (of_bytes_be hd4 :: uint32)"
    by (rule decode_one_incompleteE) (auto simp: is_incomplete_def)
  let ?missing = "unat (of_bytes_be hd4 :: uint32) - length rest"
  have "is_ok (decode_one (bs @ later)) \<longleftrightarrow> ?missing \<le> length later" for later
    using len ok unfolding bs by (auto simp: decode_one_split)
  with ok short show ?thesis
    by (intro exI [of _ ?missing]) auto
qed

theorem decode_one_incomplete_payload_witness:
  "decode_one [0, 0, 0, 2, 0, 1, 42] = Inl DecodeError.incomplete_payload \<and>
   (\<exists>missing > 0. missing \<le> unat max_payload_size \<and>
     (\<forall>later. is_ok (decode_one ([0, 0, 0, 2, 0, 1, 42] @ later)) \<longleftrightarrow> missing \<le> length later))"
proof -
  have dec: "decode_one [0, 0, 0, 2, 0, 1, 42] = Inl DecodeError.incomplete_payload"
    using decode_one_split [of "[0, 0, 0, 2]" "[0, 1]" "[42]"]
    by (simp add: of_bytes_be_def PacketType_cast_def)
  from dec decode_one_incomplete_payload [OF dec] show ?thesis by blast
qed

end
