(* ===== verification/Fifo_Queue.thy ===== *)
theory Fifo_Queue
  imports Mcrs_Prelude "HOL-Library.Sublist"
begin

text \<open>
  The contract the two queues of the server share, the command queue between sessions and the
  room worker and the outbound queue between the room and a session's writer: first in first
  out, pushes refused once closed. A client that runs any sequence of operations can rely on
  the lemmas of the locale; each queue interprets it in its own theory.
\<close>

datatype 'a fifo_op = Push 'a | Pop | Close

text \<open>
  A run of operations: the elements whose push was accepted, the elements popped, both in
  order, and the final queue.
\<close>

fun fifo_run ::
  "('q \<Rightarrow> 'a \<Rightarrow> 'e + 'q) \<Rightarrow> ('q \<Rightarrow> 'a list \<times> 'q) \<Rightarrow> ('q \<Rightarrow> 'q) \<Rightarrow> 'q \<Rightarrow> 'a fifo_op list
    \<Rightarrow> 'a list \<times> 'a list \<times> 'q" where
  "fifo_run psh pp cl q [] = ([], [], q)"
| "fifo_run psh pp cl q (Push x # ops) =
     (case psh q x of
        Inl e \<Rightarrow> fifo_run psh pp cl q ops
      | Inr q' \<Rightarrow> (let (acc, out, q'') = fifo_run psh pp cl q' ops in (x # acc, out, q'')))"
| "fifo_run psh pp cl q (Pop # ops) =
     (let (xs, q') = pp q; (acc, out, q'') = fifo_run psh pp cl q' ops in (acc, xs @ out, q''))"
| "fifo_run psh pp cl q (Close # ops) = fifo_run psh pp cl (cl q) ops"

locale fifo =
  fixes invar :: "'q \<Rightarrow> bool"
    and contents :: "'q \<Rightarrow> 'a list"
    and closed :: "'q \<Rightarrow> bool"
    and psh :: "'q \<Rightarrow> 'a \<Rightarrow> 'e + 'q"
    and pp :: "'q \<Rightarrow> 'a list \<times> 'q"
    and cl :: "'q \<Rightarrow> 'q"
  assumes push_ok: "invar q \<Longrightarrow> psh q x = Inr q' \<Longrightarrow>
      invar q' \<and> contents q' = contents q @ [x] \<and> \<not> closed q \<and> \<not> closed q'"
    and pop_ok: "invar q \<Longrightarrow> pp q = (xs, q') \<Longrightarrow>
      invar q' \<and> contents q = xs @ contents q' \<and> closed q' = closed q"
    and close_ok: "invar q \<Longrightarrow> invar (cl q) \<and> closed (cl q)"
    and close_contents: "invar q \<Longrightarrow> contents (cl q) = contents q \<or> contents (cl q) = []"
begin

lemma push_closed: "invar q \<Longrightarrow> closed q \<Longrightarrow> \<exists>e. psh q x = Inl e"
  using push_ok [of q x] by (cases "psh q x") auto

lemma closed_run:
  assumes "invar q" and "closed q" and "fifo_run psh pp cl q ops = (acc, out, q')"
  shows "acc = [] \<and> closed q'"
  using assms
proof (induction ops arbitrary: q acc out)
  case (Cons op ops)
  show ?case
  proof (cases op)
    case (Push x)
    with Cons push_closed [of q x] show ?thesis by auto
  next
    case Pop
    with Cons show ?thesis by (auto split: prod.splits dest: pop_ok)
  next
    case Close
    with Cons close_ok show ?thesis by auto
  qed
qed simp

lemma fifo_run_facts:
  assumes "invar q" and "fifo_run psh pp cl q ops = (acc, out, q')"
  shows "invar q' \<and> prefix out (contents q @ acc) \<and>
    (Close \<notin> set ops \<longrightarrow> contents q @ acc = out @ contents q')"
  using assms
proof (induction ops arbitrary: q acc out)
  case Nil
  then show ?case by simp
next
  case (Cons op ops)
  show ?case
  proof (cases op)
    case (Push x)
    with Cons show ?thesis
      by (cases "psh q x") (fastforce split: prod.splits dest: push_ok)+
  next
    case Pop
    obtain xs q1 where pop: "pp q = (xs, q1)" by (cases "pp q")
    with Cons.prems(1) have q1: "invar q1" "contents q = xs @ contents q1"
      by (auto dest: pop_ok)
    obtain out1 where "fifo_run psh pp cl q1 ops = (acc, out1, q')" "out = xs @ out1"
      using Cons.prems(2) Pop pop by (auto split: prod.splits)
    with Cons.IH [OF q1(1)] q1(2) Pop show ?thesis by simp
  next
    case Close
    with Cons.prems have run: "fifo_run psh pp cl (cl q) ops = (acc, out, q')" by simp
    from close_ok [OF Cons.prems(1)] have cl: "invar (cl q)" "closed (cl q)" by simp_all
    from Cons.IH [OF cl(1) run] closed_run [OF cl run] close_contents [OF Cons.prems(1)]
    show ?thesis using Close by (auto simp: prefix_def)
  qed
qed

text \<open>Nothing is reordered, invented or delivered twice, whatever the interleaving.\<close>

lemma popped_prefix_accepted:
  "invar q \<Longrightarrow> contents q = [] \<Longrightarrow> fifo_run psh pp cl q ops = (acc, out, q') \<Longrightarrow> prefix out acc"
  using fifo_run_facts by fastforce

end

text \<open>A queue whose elements survive closing, so that they can still be drained.\<close>

locale draining_fifo = fifo +
  assumes close_keeps: "invar q \<Longrightarrow> contents (cl q) = contents q"
begin

lemma accepted_conserved:
  assumes "invar q" and "fifo_run psh pp cl q ops = (acc, out, q')"
  shows "contents q @ acc = out @ contents q'"
  using assms
proof (induction ops arbitrary: q acc out)
  case Nil
  then show ?case by simp
next
  case (Cons op ops)
  show ?case
  proof (cases op)
    case (Push x)
    with Cons show ?thesis
      by (cases "psh q x") (fastforce split: prod.splits dest: push_ok)+
  next
    case Pop
    with Cons show ?thesis by (fastforce split: prod.splits dest: pop_ok)
  next
    case Close
    with Cons.prems Cons.IH [of "cl q"] close_ok close_keeps show ?thesis by simp
  qed
qed

end

end
