(* ===== verification/Outbound_Queue.thy ===== *)
theory Outbound_Queue
  imports Fifo_Queue
begin

text \<open>
  \<open>include/mcrs/network/outbound_queue.hpp\<close> and \<open>src/network/outbound_queue.cpp\<close>: the packets
  waiting to be written to one client, limited by their total size in bytes, and taken in
  batches. A \<open>SharedPacket\<close> is a pointer to an immutable vector, so it is the bytes or, for
  the null pointer, \<open>None\<close>.
\<close>

section \<open>Data\<close>

type_synonym PacketBuffer = "byte list"
type_synonym SharedPacket = "PacketBuffer option"

datatype OutboundQueueError = closed | invalid_packet | packet_too_large | byte_limit_exceeded

record OutboundQueue =
  oq_packets :: "SharedPacket list"
  oq_pending_bytes :: size_t
  oq_max_pending_bytes :: size_t
  oq_closed :: bool

text \<open>\<open>packet->size()\<close>; never called on the null pointer, which \<open>push\<close> refuses.\<close>

fun SharedPacket_size :: "SharedPacket \<Rightarrow> size_t" where
  "SharedPacket_size None = 0"
| "SharedPacket_size (Some bytes) = length bytes"

section \<open>Operations\<close>

definition make_shared_packet :: "PacketBuffer \<Rightarrow> SharedPacket" where
  "make_shared_packet packet = Some packet"

definition OutboundQueue_new :: "size_t \<Rightarrow> OutboundQueue" where
  "OutboundQueue_new max_pending_bytes =
     \<lparr>oq_packets = [], oq_pending_bytes = 0, oq_max_pending_bytes = max_pending_bytes,
      oq_closed = False\<rparr>"

definition OutboundQueue_push ::
  "OutboundQueue \<Rightarrow> SharedPacket \<Rightarrow> (OutboundQueue, OutboundQueueError) expected" where
  "OutboundQueue_push q packet =
     (if oq_closed q then Inl OutboundQueueError.closed
      else if packet = None \<or> packet = Some [] then Inl invalid_packet
      else if SharedPacket_size packet > oq_max_pending_bytes q then Inl packet_too_large
      else if SharedPacket_size packet > size_sub (oq_max_pending_bytes q) (oq_pending_bytes q)
      then Inl byte_limit_exceeded
      else Inr (q\<lparr>oq_packets := oq_packets q @ [packet],
                  oq_pending_bytes := size_add (oq_pending_bytes q) (SharedPacket_size packet)\<rparr>))"

text \<open>The loop of \<open>pop_batch\<close>, which fills \<open>destination\<close> from the front of the queue.\<close>

function pop_batch_loop ::
  "SharedPacket list \<Rightarrow> size_t \<Rightarrow> size_t \<Rightarrow> size_t \<Rightarrow> OutboundQueue
    \<Rightarrow> size_t \<times> SharedPacket list \<times> OutboundQueue" where
  "pop_batch_loop destination max_batch_bytes packet_count batch_bytes q =
     (if packet_count < length destination \<and> oq_packets q \<noteq> [] then
        let packet_bytes = SharedPacket_size (hd (oq_packets q)) in
        if packet_count \<noteq> 0 \<and>
           (batch_bytes \<ge> max_batch_bytes \<or> packet_bytes > size_sub max_batch_bytes batch_bytes)
        then (packet_count, destination, q)
        else pop_batch_loop (destination[packet_count := hd (oq_packets q)]) max_batch_bytes
               (packet_count + 1) (size_add batch_bytes packet_bytes)
               (q\<lparr>oq_packets := tl (oq_packets q),
                  oq_pending_bytes := size_sub (oq_pending_bytes q) packet_bytes\<rparr>)
      else (packet_count, destination, q))"
  by pat_completeness auto
termination
  by (relation "measure (\<lambda>(d, m, c, b, q). length (oq_packets q))") auto

declare pop_batch_loop.simps [simp del]

definition pop_batch ::
  "OutboundQueue \<Rightarrow> SharedPacket list \<Rightarrow> size_t \<Rightarrow> size_t \<times> SharedPacket list \<times> OutboundQueue" where
  "pop_batch q destination max_batch_bytes =
     (if destination = [] \<or> max_batch_bytes = 0 then (0, destination, q)
      else pop_batch_loop destination max_batch_bytes 0 0 q)"

definition OutboundQueue_close :: "OutboundQueue \<Rightarrow> OutboundQueue" where
  "OutboundQueue_close q = q\<lparr>oq_packets := [], oq_pending_bytes := 0, oq_closed := True\<rparr>"

definition OutboundQueue_empty :: "OutboundQueue \<Rightarrow> bool" where
  "OutboundQueue_empty q \<longleftrightarrow> oq_packets q = []"

definition OutboundQueue_pending_packets :: "OutboundQueue \<Rightarrow> size_t" where
  "OutboundQueue_pending_packets q = length (oq_packets q)"

section \<open>Invariant\<close>

abbreviation bytes_of :: "SharedPacket list \<Rightarrow> nat" where
  "bytes_of ps \<equiv> sum_list (map SharedPacket_size ps)"

definition oq_inv :: "OutboundQueue \<Rightarrow> bool" where
  "oq_inv q \<longleftrightarrow>
     oq_pending_bytes q = bytes_of (oq_packets q) \<and>
     oq_pending_bytes q \<le> oq_max_pending_bytes q \<and>
     oq_max_pending_bytes q < 2 ^ 64 \<and>
     None \<notin> set (oq_packets q) \<and> Some [] \<notin> set (oq_packets q) \<and>
     (oq_closed q \<longrightarrow> oq_packets q = [])"

lemma OutboundQueue_new_inv [inv_intros]: "m < 2 ^ 64 \<Longrightarrow> oq_inv (OutboundQueue_new m)"
  by (simp add: oq_inv_def OutboundQueue_new_def)

lemma OutboundQueue_close_inv [inv_intros]: "oq_inv q \<Longrightarrow> oq_inv (OutboundQueue_close q)"
  by (simp add: oq_inv_def OutboundQueue_close_def)

lemma close_simps [simp]:
  "oq_packets (OutboundQueue_close q) = []" "oq_pending_bytes (OutboundQueue_close q) = 0"
  "oq_closed (OutboundQueue_close q)"
  "oq_max_pending_bytes (OutboundQueue_close q) = oq_max_pending_bytes q"
  by (simp_all add: OutboundQueue_close_def)

lemma push_InrD:
  assumes "oq_inv q" and "OutboundQueue_push q p = Inr q'"
  shows "oq_inv q'" "oq_packets q' = oq_packets q @ [p]" "\<not> oq_closed q" "\<not> oq_closed q'"
    "oq_max_pending_bytes q' = oq_max_pending_bytes q" "p \<noteq> None" "p \<noteq> Some []"
    "oq_pending_bytes q' = oq_pending_bytes q + SharedPacket_size p"
  using assms by (auto simp: OutboundQueue_push_def oq_inv_def split: if_splits)

lemma push_cases:
  assumes "oq_inv q"
  shows "OutboundQueue_push q p =
    (if oq_closed q then Inl OutboundQueueError.closed
     else if p = None \<or> p = Some [] then Inl invalid_packet
     else if oq_max_pending_bytes q < SharedPacket_size p then Inl packet_too_large
     else if oq_max_pending_bytes q < oq_pending_bytes q + SharedPacket_size p
     then Inl byte_limit_exceeded
     else Inr (q\<lparr>oq_packets := oq_packets q @ [p],
                 oq_pending_bytes := oq_pending_bytes q + SharedPacket_size p\<rparr>))"
  using assms by (auto simp: OutboundQueue_push_def oq_inv_def)

section \<open>Batches\<close>

text \<open>
  How many packets a batch takes: of packets with the given sizes, with room for \<open>room\<close> of
  them and \<open>used\<close> bytes already in the batch.
\<close>

fun batch_length :: "nat \<Rightarrow> nat \<Rightarrow> bool \<Rightarrow> nat \<Rightarrow> nat list \<Rightarrow> nat" where
  "batch_length 0 limit first used sizes = 0"
| "batch_length (Suc room) limit first used [] = 0"
| "batch_length (Suc room) limit first used (n # sizes) =
     (if \<not> first \<and> limit < used + n then 0
      else Suc (batch_length room limit False (used + n) sizes))"

lemma batch_length_le_room: "batch_length room limit first used sizes \<le> room"
  by (induction room limit first used sizes rule: batch_length.induct) auto

lemma batch_length_le_sizes: "batch_length room limit first used sizes \<le> length sizes"
  by (induction room limit first used sizes rule: batch_length.induct) auto

lemma batch_length_bytes:
  "batch_length room limit first used sizes = n \<Longrightarrow> 0 < n \<Longrightarrow> (first \<longrightarrow> 1 < n) \<Longrightarrow>
    used + sum_list (take n sizes) \<le> limit"
proof (induction room limit first used sizes arbitrary: n rule: batch_length.induct)
  case (3 room limit first used k sizes)
  show ?case
  proof (cases "batch_length room limit False (used + k) sizes")
    case 0
    with 3 show ?thesis by (auto split: if_splits)
  next
    case (Suc m)
    with 3 show ?thesis by (auto split: if_splits)
  qed
qed auto

lemma batch_length_maximal:
  "batch_length room limit first used sizes = n \<Longrightarrow> n < room \<Longrightarrow> n < length sizes \<Longrightarrow>
    limit < used + sum_list (take (Suc n) sizes)"
proof (induction room limit first used sizes arbitrary: n rule: batch_length.induct)
  case (3 room limit first used k sizes)
  then show ?case by (cases n) (auto split: if_splits)
qed auto

lemma batch_length_zero_iff:
  "batch_length room limit True 0 sizes = 0 \<longleftrightarrow> room = 0 \<or> sizes = []"
  by (cases room; cases sizes) auto

text \<open>The loop takes exactly that many packets, moves them in order and accounts for them.\<close>

text \<open>One round of the loop: it stops before a packet that does not fit, or takes the packet.\<close>

lemma pop_batch_loop_step:
  assumes "oq_packets q = p # ps" "count < length dest" "0 < SharedPacket_size p"
    and "oq_pending_bytes q = bytes_of (oq_packets q)" "batch_bytes + bytes_of (oq_packets q) < 2 ^ 64"
  shows "pop_batch_loop dest limit count batch_bytes q =
    (if count \<noteq> 0 \<and> limit < batch_bytes + SharedPacket_size p then (count, dest, q)
     else pop_batch_loop (dest[count := p]) limit (Suc count) (batch_bytes + SharedPacket_size p)
       (q\<lparr>oq_packets := ps, oq_pending_bytes := bytes_of ps\<rparr>))"
proof -
  have stop: "count \<noteq> 0 \<and> limit < batch_bytes + SharedPacket_size p \<longleftrightarrow>
      count \<noteq> 0 \<and> (limit \<le> batch_bytes \<or> size_sub limit batch_bytes < SharedPacket_size p)"
    using assms(3) by (cases "limit \<le> batch_bytes") (auto simp: size_sub_def)
  have "size_sub (oq_pending_bytes q) (SharedPacket_size p) = bytes_of ps"
    "size_add batch_bytes (SharedPacket_size p) = batch_bytes + SharedPacket_size p"
    using assms(1,4,5) by simp_all
  then show ?thesis
    unfolding stop using assms(1,2)
    by (subst pop_batch_loop.simps) (auto simp: Let_def simp del: size_sub_exact)
qed

lemma pop_batch_loop_eq:
  fixes limit :: size_t
  assumes "oq_pending_bytes q = bytes_of (oq_packets q)"
    and "None \<notin> set (oq_packets q)" "Some [] \<notin> set (oq_packets q)"
    and "batch_bytes + bytes_of (oq_packets q) < 2 ^ 64" and "count \<le> length dest"
  defines "n \<equiv> batch_length (length dest - count) limit (count = 0) batch_bytes
    (map SharedPacket_size (oq_packets q))"
  shows "pop_batch_loop dest limit count batch_bytes q =
    (count + n, take count dest @ take n (oq_packets q) @ drop (count + n) dest,
     q\<lparr>oq_packets := drop n (oq_packets q),
       oq_pending_bytes := bytes_of (drop n (oq_packets q))\<rparr>)"
  using assms(1-5) unfolding n_def
proof (induction "oq_packets q" arbitrary: q dest count batch_bytes)
  case Nil
  then show ?case
    by (cases "length dest - count") (simp_all add: pop_batch_loop.simps)
next
  case (Cons p ps)
  note packets = \<open>p # ps = oq_packets q\<close> [symmetric]
  show ?case
  proof (cases "count < length dest")
    case False
    with Cons.prems packets show ?thesis by (simp add: pop_batch_loop.simps)
  next
    case True
    then obtain room where room: "length dest - count = Suc room" "length dest - Suc count = room"
      by (metis Suc_diff_Suc)
    from Cons.prems packets have some: "0 < SharedPacket_size p" by (cases p) auto
    let ?q = "q\<lparr>oq_packets := ps, oq_pending_bytes := bytes_of ps\<rparr>"
    note step = pop_batch_loop_step [OF packets True some Cons.prems(1,4), of limit]
    show ?thesis
    proof (cases "count \<noteq> 0 \<and> limit < batch_bytes + SharedPacket_size p")
      case True
      with packets Cons.prems room step show ?thesis by simp
    next
      case False
      have "pop_batch_loop (dest[count := p]) limit (Suc count) (batch_bytes + SharedPacket_size p) ?q =
        (let n = batch_length room limit False (batch_bytes + SharedPacket_size p) (map SharedPacket_size ps)
         in (Suc count + n, take (Suc count) (dest[count := p]) @ take n ps @
               drop (Suc count + n) (dest[count := p]),
             ?q\<lparr>oq_packets := drop n ps, oq_pending_bytes := bytes_of (drop n ps)\<rparr>))"
        using Cons.hyps(1) [of ?q "batch_bytes + SharedPacket_size p" "Suc count" "dest[count := p]"]
          Cons.prems packets room(2) \<open>count < length dest\<close>
        by (simp add: Let_def)
      with step False packets Cons.prems room \<open>count < length dest\<close> show ?thesis
        by (simp add: Let_def take_Suc_conv_app_nth)
    qed
  qed
qed

lemma pop_batch_eq:
  assumes "oq_inv q"
  defines "n \<equiv> \<lambda>dest limit. if limit = 0 then 0
    else batch_length (length dest) limit True 0 (map SharedPacket_size (oq_packets q))"
  shows "pop_batch q dest limit =
    (n dest limit, take (n dest limit) (oq_packets q) @ drop (n dest limit) dest,
     q\<lparr>oq_packets := drop (n dest limit) (oq_packets q),
       oq_pending_bytes := bytes_of (drop (n dest limit) (oq_packets q))\<rparr>)"
proof (cases "dest = [] \<or> limit = 0")
  case True
  with assms show ?thesis by (auto simp: pop_batch_def oq_inv_def)
next
  case False
  with assms pop_batch_loop_eq [of q 0 0 dest limit] show ?thesis
    by (auto simp: pop_batch_def oq_inv_def)
qed

lemma pop_batch_facts:
  assumes "oq_inv q" and "pop_batch q dest limit = (n, dest', q')"
  shows "oq_inv q'" "oq_packets q = take n dest' @ oq_packets q'"
    "n \<le> length dest" "length dest' = length dest" "drop n dest' = drop n dest"
    "n = 0 \<longleftrightarrow> dest = [] \<or> limit = 0 \<or> oq_packets q = []"
    "1 < n \<Longrightarrow> bytes_of (take n dest') \<le> limit"
    "0 < n \<Longrightarrow> n < length dest \<Longrightarrow> oq_packets q' \<noteq> [] \<Longrightarrow>
      limit < bytes_of (take n dest' @ [hd (oq_packets q')])"
    "oq_closed q' = oq_closed q" "oq_max_pending_bytes q' = oq_max_pending_bytes q"
proof -
  let ?n = "if limit = 0 then 0
    else batch_length (length dest) limit True 0 (map SharedPacket_size (oq_packets q))"
  note eq = pop_batch_eq [OF assms(1), of dest limit, unfolded assms(2)]
  then have n: "n = ?n" and dest': "dest' = take n (oq_packets q) @ drop n dest"
    and q': "q' = q\<lparr>oq_packets := drop n (oq_packets q),
        oq_pending_bytes := bytes_of (drop n (oq_packets q))\<rparr>"
    by auto
  have le: "n \<le> length dest" "n \<le> length (oq_packets q)"
    using batch_length_le_room [of "length dest" limit True 0]
      batch_length_le_sizes [of "length dest" limit True 0 "map SharedPacket_size (oq_packets q)"]
    by (simp_all add: n)
  then have taken: "take n dest' = take n (oq_packets q)" by (simp add: dest')
  show "oq_packets q = take n dest' @ oq_packets q'" by (simp add: taken q')
  show "n \<le> length dest" by (rule le)
  show "length dest' = length dest" "drop n dest' = drop n dest" using le by (simp_all add: dest')
  show "n = 0 \<longleftrightarrow> dest = [] \<or> limit = 0 \<or> oq_packets q = []"
    by (auto simp: n batch_length_zero_iff)
  show "bytes_of (take n dest') \<le> limit" if "1 < n"
  proof -
    have "sum_list (take n (map SharedPacket_size (oq_packets q))) \<le> limit"
      using that n batch_length_bytes [of "length dest" limit True 0
          "map SharedPacket_size (oq_packets q)" n]
      by (simp split: if_splits)
    then show ?thesis by (simp add: taken take_map)
  qed
  show "oq_closed q' = oq_closed q" "oq_max_pending_bytes q' = oq_max_pending_bytes q"
    by (simp_all add: q')
  show "limit < bytes_of (take n dest' @ [hd (oq_packets q')])"
    if "0 < n" "n < length dest" "oq_packets q' \<noteq> []"
  proof -
    from that(3) have "n < length (oq_packets q)" by (simp add: q')
    with batch_length_maximal [of "length dest" limit True 0 _ n] that(1,2) n
    have "limit < sum_list (take (Suc n) (map SharedPacket_size (oq_packets q)))"
      by (auto split: if_splits)
    with \<open>n < length (oq_packets q)\<close> show ?thesis
      by (simp add: taken q' take_map hd_drop_conv_nth take_Suc_conv_app_nth)
  qed
  have "bytes_of (drop n (oq_packets q)) \<le> bytes_of (oq_packets q)"
    by (metis append_take_drop_id le_add2 map_append sum_list_append)
  then show "oq_inv q'"
    using assms(1) by (auto simp: oq_inv_def q' dest: in_set_dropD)
qed

definition batch_popped :: "SharedPacket list \<Rightarrow> size_t \<Rightarrow> OutboundQueue
    \<Rightarrow> SharedPacket list \<times> OutboundQueue" where
  "batch_popped dest limit q =
     (let (n, dest', q') = pop_batch q dest limit in (take n dest', q'))"

interpretation oq: fifo oq_inv oq_packets oq_closed OutboundQueue_push
  "batch_popped dest limit" OutboundQueue_close for dest limit
proof unfold_locales
  fix dest limit q xs q'
  assume inv: "oq_inv q" and "batch_popped dest limit q = (xs, q')"
  then obtain n dest' where pop: "pop_batch q dest limit = (n, dest', q')" and xs: "xs = take n dest'"
    by (auto simp: batch_popped_def split: prod.splits)
  show "oq_inv q' \<and> oq_packets q = xs @ oq_packets q' \<and> oq_closed q' = oq_closed q"
    unfolding xs by (intro conjI pop_batch_facts [OF inv pop])
qed (auto simp: push_InrD inv_intros)

section \<open>Properties\<close>

text \<open>
  C12: A batch is the longest prefix of the waiting packets that fits: the packets are moved in
  order to the front of the destination and removed from the queue, the rest of the
  destination is unchanged; a batch is empty only when there is nothing to take or no room;
  more than one packet never exceeds the byte limit; and the next packet was left behind only
  because the destination is full or the limit would be exceeded.
\<close>
theorem pop_batch_correct:
  assumes "oq_inv q" and "pop_batch q dest limit = (n, dest', q')"
  shows "oq_inv q' \<and> oq_packets q = take n dest' @ oq_packets q' \<and> drop n dest' = drop n dest
    \<and> (n = 0 \<longleftrightarrow> dest = [] \<or> limit = 0 \<or> oq_packets q = [])
    \<and> (1 < n \<longrightarrow> bytes_of (take n dest') \<le> limit)
    \<and> (0 < n \<and> n < length dest \<and> oq_packets q' \<noteq> [] \<longrightarrow>
        limit < bytes_of (take n dest' @ [hd (oq_packets q')]))"
  using pop_batch_facts [OF assms] by blast

theorem pop_batch_correct_witness:
  "pop_batch \<lparr>oq_packets = [Some [1, 2], Some [3, 4], Some [5]], oq_pending_bytes = 5,
      oq_max_pending_bytes = 8, oq_closed = False\<rparr> [None, None, None] 3 =
    (1, [Some [1, 2], None, None],
     \<lparr>oq_packets = [Some [3, 4], Some [5]], oq_pending_bytes = 3,
      oq_max_pending_bytes = 8, oq_closed = False\<rparr>)
   \<and> oq_inv \<lparr>oq_packets = [Some [3, 4], Some [5]], oq_pending_bytes = 3,
      oq_max_pending_bytes = 8, oq_closed = False\<rparr>"
proof -
  let ?q = "\<lparr>oq_packets = [Some [1, 2], Some [3, 4], Some [5]], oq_pending_bytes = 5,
      oq_max_pending_bytes = 8, oq_closed = False\<rparr>"
  have inv: "oq_inv ?q" by (simp add: oq_inv_def)
  have pop: "pop_batch ?q [None, None, None] 3 =
    (1, [Some [1, 2], None, None],
     \<lparr>oq_packets = [Some [3, 4], Some [5]], oq_pending_bytes = 3,
      oq_max_pending_bytes = 8, oq_closed = False\<rparr>)"
    by (simp add: pop_batch_def pop_batch_loop.simps)
  from pop pop_batch_correct [OF inv pop] show ?thesis by simp
qed

text \<open>
  C33: The byte accounting of the outbound queue is exact: a push either leaves the queue as it
  was with an error, or appends the packet and keeps the pending bytes equal to the sum of the
  packet sizes and within the limit; it reports \<open>byte_limit_exceeded\<close> exactly for a real
  packet that would fit into an empty queue but not into the present one.
\<close>
theorem OutboundQueue_push_accounting:
  assumes "oq_inv q"
  shows "(\<forall>q'. OutboundQueue_push q p = Inr q' \<longrightarrow>
      oq_inv q' \<and> oq_packets q' = oq_packets q @ [p]
      \<and> oq_pending_bytes q' = bytes_of (oq_packets q') \<and> oq_pending_bytes q' \<le> oq_max_pending_bytes q)
    \<and> (OutboundQueue_push q p = Inl byte_limit_exceeded \<longleftrightarrow>
      \<not> oq_closed q \<and> p \<noteq> None \<and> p \<noteq> Some [] \<and> SharedPacket_size p \<le> oq_max_pending_bytes q
      \<and> oq_max_pending_bytes q < oq_pending_bytes q + SharedPacket_size p)"
proof (intro conjI allI impI)
  fix q' assume push: "OutboundQueue_push q p = Inr q'"
  note facts = push_InrD [OF assms push]
  show "oq_inv q'" "oq_packets q' = oq_packets q @ [p]" by (rule facts)+
  then show "oq_pending_bytes q' = bytes_of (oq_packets q')"
    "oq_pending_bytes q' \<le> oq_max_pending_bytes q"
    using facts(5) by (simp_all add: oq_inv_def)
next
  show "OutboundQueue_push q p = Inl byte_limit_exceeded \<longleftrightarrow>
      \<not> oq_closed q \<and> p \<noteq> None \<and> p \<noteq> Some [] \<and> SharedPacket_size p \<le> oq_max_pending_bytes q
      \<and> oq_max_pending_bytes q < oq_pending_bytes q + SharedPacket_size p"
    by (auto simp: push_cases [OF assms])
qed

theorem OutboundQueue_push_accounting_witness:
  "oq_inv (OutboundQueue_new 4) \<and>
   OutboundQueue_push (OutboundQueue_new 4) (Some [1, 2]) \<noteq> Inl byte_limit_exceeded"
proof -
  have inv: "oq_inv (OutboundQueue_new 4)" by (rule OutboundQueue_new_inv) simp
  with OutboundQueue_push_accounting [OF inv, of "Some [1, 2]"] show ?thesis
    by (simp add: OutboundQueue_new_def)
qed

text \<open>
  Delivery order: in every interleaving of pushes, batches and a close, the packets handed
  to the writer are a prefix of the packets accepted, so none is reordered, duplicated or
  skipped before the queue is closed.
\<close>
theorem OutboundQueue_fifo:
  assumes "m < 2 ^ 64"
    and "fifo_run OutboundQueue_push (batch_popped dest limit) OutboundQueue_close
      (OutboundQueue_new m) ops = (accepted, written, q)"
  shows "prefix written accepted \<and> oq_inv q
    \<and> (Close \<notin> set ops \<longrightarrow> accepted = written @ oq_packets q)"
proof -
  have inv: "oq_inv (OutboundQueue_new m)"
    using assms(1) by (rule OutboundQueue_new_inv)
  from oq.fifo_run_facts [OF inv assms(2)] show ?thesis
    by (simp add: OutboundQueue_new_def)
qed

theorem OutboundQueue_fifo_witness:
  "fifo_run OutboundQueue_push (batch_popped [None, None] 4) OutboundQueue_close
      (OutboundQueue_new 8) [Push (Some [1, 2]), Push (Some [3]), Pop, Push (Some [4])] =
    ([Some [1, 2], Some [3], Some [4]], [Some [1, 2], Some [3]],
     \<lparr>oq_packets = [Some [4]], oq_pending_bytes = 1, oq_max_pending_bytes = 8, oq_closed = False\<rparr>)
   \<and> prefix [Some [1, 2], Some [3 :: byte]] [Some [1, 2], Some [3], Some [4]]"
proof -
  have run: "fifo_run OutboundQueue_push (batch_popped [None, None] 4) OutboundQueue_close
      (OutboundQueue_new 8) [Push (Some [1, 2]), Push (Some [3]), Pop, Push (Some [4])] =
    ([Some [1, 2], Some [3], Some [4]], [Some [1, 2], Some [3]],
     \<lparr>oq_packets = [Some [4]], oq_pending_bytes = 1, oq_max_pending_bytes = 8, oq_closed = False\<rparr>)"
    by (simp add: OutboundQueue_push_def OutboundQueue_new_def batch_popped_def pop_batch_def
        pop_batch_loop.simps)
  have "prefix [Some [1, 2], Some [3 :: byte]] [Some [1, 2], Some [3], Some [4]]"
    using OutboundQueue_fifo [OF _ run] by simp
  with run show ?thesis by blast
qed

end
