(* ===== verification/Hash_Map.thy ===== *)
theory Hash_Map
  imports Mcrs_Prelude "HOL-Library.Multiset"
begin

text \<open>
  \<open>std::unordered_map\<close> and \<open>std::unordered_set\<close> as the room, the session registry and the
  server metrics use them. A map is the list of its entries in iteration order, with distinct
  keys. The standard leaves that order open; a new entry is put in front, and what the
  components promise is stated so that it does not depend on the order.
\<close>

type_synonym ('k, 'v) hash_map = "('k \<times> 'v) list"

definition hm_find :: "('k, 'v) hash_map \<Rightarrow> 'k \<Rightarrow> 'v option" where
  "hm_find m k = map_of m k"

text \<open>\<open>try_emplace\<close>: the map and whether the key was inserted.\<close>

definition hm_try_emplace :: "('k, 'v) hash_map \<Rightarrow> 'k \<Rightarrow> 'v \<Rightarrow> ('k, 'v) hash_map \<times> bool" where
  "hm_try_emplace m k v =
     (case map_of m k of None \<Rightarrow> ((k, v) # m, True) | Some _ \<Rightarrow> (m, False))"

text \<open>Assigning through the iterator that \<open>find\<close> returned.\<close>

definition hm_assign :: "('k, 'v) hash_map \<Rightarrow> 'k \<Rightarrow> 'v \<Rightarrow> ('k, 'v) hash_map" where
  "hm_assign m k v = map (\<lambda>e. if fst e = k then (k, v) else e) m"

text \<open>\<open>erase\<close> by key: the map and the number of entries erased.\<close>

definition hm_erase :: "('k, 'v) hash_map \<Rightarrow> 'k \<Rightarrow> ('k, 'v) hash_map \<times> nat" where
  "hm_erase m k = (filter (\<lambda>e. fst e \<noteq> k) m, length (filter (\<lambda>e. fst e = k) m))"

definition hm_inv :: "('k, 'v) hash_map \<Rightarrow> bool" where
  "hm_inv m \<longleftrightarrow> distinct (map fst m)"

section \<open>The interface\<close>

text \<open>What the components rely on, stated with the partial function the map stands for.\<close>

locale key_map =
  fixes invar :: "'m \<Rightarrow> bool"
    and lookup :: "'m \<Rightarrow> 'k \<Rightarrow> 'v option"
    and count :: "'m \<Rightarrow> nat"
    and try_emplace :: "'m \<Rightarrow> 'k \<Rightarrow> 'v \<Rightarrow> 'm \<times> bool"
    and assign :: "'m \<Rightarrow> 'k \<Rightarrow> 'v \<Rightarrow> 'm"
    and erase :: "'m \<Rightarrow> 'k \<Rightarrow> 'm \<times> nat"
  assumes emplace_invar: "invar m \<Longrightarrow> invar (fst (try_emplace m k v))"
    and emplace_inserted: "snd (try_emplace m k v) \<longleftrightarrow> lookup m k = None"
    and emplace_lookup: "lookup (fst (try_emplace m k v)) =
      (if lookup m k = None then (lookup m)(k \<mapsto> v) else lookup m)"
    and assign_invar: "invar m \<Longrightarrow> invar (assign m k v)"
    and assign_lookup: "lookup m k \<noteq> None \<Longrightarrow> lookup (assign m k v) = (lookup m)(k \<mapsto> v)"
    and erase_invar: "invar m \<Longrightarrow> invar (fst (erase m k))"
    and erase_lookup: "lookup (fst (erase m k)) = (lookup m)(k := None)"
    and erase_count: "invar m \<Longrightarrow> snd (erase m k) = (if lookup m k = None then 0 else 1)"
    and count_card: "invar m \<Longrightarrow> finite (dom (lookup m)) \<and> count m = card (dom (lookup m))"
begin

lemma emplace_size:
  assumes "invar m"
  shows "count (fst (try_emplace m k v)) = (if lookup m k = None then Suc (count m) else count m)"
proof -
  note card' = count_card [OF emplace_invar [OF assms], of k v]
  show ?thesis
    using count_card [OF assms] card'
    by (auto simp: emplace_lookup card_insert_if domIff)
qed

lemma erase_size:
  assumes "invar m"
  shows "count (fst (erase m k)) = count m - snd (erase m k)"
  using count_card [OF assms] count_card [OF erase_invar [OF assms], of k] erase_count [OF assms, of k]
  by (auto simp: erase_lookup domIff)

lemma erase_twice: "invar m \<Longrightarrow> snd (erase (fst (erase m k)) k) = 0"
  by (simp add: erase_count erase_invar erase_lookup)

end

lemma hm_inv_simps [simp]:
  "hm_inv []" "hm_inv (e # m) \<longleftrightarrow> map_of m (fst e) = None \<and> hm_inv m"
  by (auto simp: hm_inv_def map_of_eq_None_iff)

lemma map_of_filter_fst: "map_of (filter (\<lambda>e. fst e \<noteq> k) m) = (map_of m)(k := None)"
  by (induction m) (auto simp: fun_eq_iff)

lemma hm_assign_absent: "map_of m k = None \<Longrightarrow> hm_assign m k v = m"
  by (induction m) (auto simp: hm_assign_def)

lemma map_of_hm_assign: "map_of m k \<noteq> None \<Longrightarrow> map_of (hm_assign m k v) = (map_of m)(k \<mapsto> v)"
proof (induction m)
  case (Cons e m)
  have "hm_assign (e # m) k v = (if fst e = k then (k, v) else e) # hm_assign m k v"
    by (simp add: hm_assign_def)
  with Cons hm_assign_absent [of m k v] show ?case
    by (cases "map_of m k") (auto simp: fun_eq_iff split: if_splits)
qed simp

lemma length_filter_fst:
  "hm_inv m \<Longrightarrow> length (filter (\<lambda>e. fst e = k) m) = (if map_of m k = None then 0 else 1)"
  by (induction m) auto

lemma hm_inv_assign: "hm_inv (hm_assign m k v) = hm_inv m"
proof -
  have "map fst (hm_assign m k v) = map fst m" by (simp add: hm_assign_def)
  then show ?thesis by (simp add: hm_inv_def)
qed

interpretation hm: key_map hm_inv map_of length hm_try_emplace hm_assign hm_erase
proof unfold_locales
  fix m :: "('k, 'v) hash_map"
  assume "hm_inv m"
  then have "card (set (map fst m)) = length (map fst m)"
    unfolding hm_inv_def by (rule distinct_card)
  then show "finite (dom (map_of m)) \<and> length m = card (dom (map_of m))"
    by (simp add: finite_dom_map_of dom_map_of_conv_image_fst)
qed (auto simp: hm_try_emplace_def hm_erase_def hm_inv_def map_of_filter_fst map_of_hm_assign
    length_filter_fst [unfolded hm_inv_def] hm_inv_assign [unfolded hm_inv_def] distinct_map_filter
    simp flip: map_of_eq_None_iff split: option.splits)

end
