(* ===== verification/Room.thy ===== *)
theory Room
  imports Hash_Map
begin

text \<open>
  \<open>include/mcrs/room/room_command.hpp\<close>, \<open>room_event.hpp\<close>, \<open>room.hpp\<close> and \<open>src/room/room.cpp\<close>:
  the authoritative state of a room, the position of every player, changed only by commands.
  A command yields an event or an error; both and the new state are the result of
  \<open>Room_apply\<close>. The abstract room is the partial function from sessions to positions.
\<close>

section \<open>Data\<close>

type_synonym SessionId = uint64

record GridPosition =
  grid_x :: int32
  grid_y :: int32

datatype DisconnectReason =
  left_room | client_closed | protocol_error | io_error | outbound_overflow | server_shutdown

fun DisconnectReason_value :: "DisconnectReason \<Rightarrow> uint16" where
  "DisconnectReason_value left_room = 1"
| "DisconnectReason_value client_closed = 2"
| "DisconnectReason_value protocol_error = 3"
| "DisconnectReason_value io_error = 4"
| "DisconnectReason_value outbound_overflow = 5"
| "DisconnectReason_value server_shutdown = 6"

datatype RoomCommand =
  JoinCommand SessionId
| MoveCommand SessionId GridPosition
| LeaveCommand SessionId DisconnectReason

datatype RoomEvent =
  PlayerJoinedEvent SessionId GridPosition
| PlayerMovedEvent SessionId GridPosition
| PlayerLeftEvent SessionId DisconnectReason

datatype RoomCommandError = duplicate_session | session_not_found

record PlayerSnapshot =
  snap_session_id :: SessionId
  snap_position :: GridPosition

record Room =
  players :: "(SessionId, GridPosition) hash_map"

definition Room_new :: Room where
  "Room_new = \<lparr>players = []\<rparr>"

text \<open>The value-initialised position \<open>GridPosition{}\<close>.\<close>

definition origin :: GridPosition where
  "origin = \<lparr>grid_x = 0, grid_y = 0\<rparr>"

section \<open>Operations\<close>

definition apply_join :: "Room \<Rightarrow> SessionId \<Rightarrow> (RoomEvent, RoomCommandError) expected \<times> Room" where
  "apply_join r s =
     (let (ps, inserted) = hm_try_emplace (players r) s origin; r' = r\<lparr>players := ps\<rparr>
      in if \<not> inserted then (Inl duplicate_session, r')
         else (Inr (PlayerJoinedEvent s origin), r'))"

definition apply_move ::
  "Room \<Rightarrow> SessionId \<Rightarrow> GridPosition \<Rightarrow> (RoomEvent, RoomCommandError) expected \<times> Room" where
  "apply_move r s destination =
     (case hm_find (players r) s of
        None \<Rightarrow> (Inl session_not_found, r)
      | Some _ \<Rightarrow> (Inr (PlayerMovedEvent s destination),
                  r\<lparr>players := hm_assign (players r) s destination\<rparr>))"

definition apply_leave ::
  "Room \<Rightarrow> SessionId \<Rightarrow> DisconnectReason \<Rightarrow> (RoomEvent, RoomCommandError) expected \<times> Room" where
  "apply_leave r s reason =
     (let (ps, erased) = hm_erase (players r) s; r' = r\<lparr>players := ps\<rparr>
      in if erased = 0 then (Inl session_not_found, r') else (Inr (PlayerLeftEvent s reason), r'))"

fun Room_apply :: "Room \<Rightarrow> RoomCommand \<Rightarrow> (RoomEvent, RoomCommandError) expected \<times> Room" where
  "Room_apply r (JoinCommand s) = apply_join r s"
| "Room_apply r (MoveCommand s destination) = apply_move r s destination"
| "Room_apply r (LeaveCommand s reason) = apply_leave r s reason"

definition player_count :: "Room \<Rightarrow> size_t" where
  "player_count r = length (players r)"

definition Room_find :: "Room \<Rightarrow> SessionId \<Rightarrow> PlayerSnapshot option" where
  "Room_find r s =
     (case hm_find (players r) s of
        None \<Rightarrow> None
      | Some pos \<Rightarrow> Some \<lparr>snap_session_id = s, snap_position = pos\<rparr>)"

definition Room_snapshot :: "Room \<Rightarrow> PlayerSnapshot list" where
  "Room_snapshot r =
     sort_key snap_session_id
       (map (\<lambda>(s, pos). \<lparr>snap_session_id = s, snap_position = pos\<rparr>) (players r))"

section \<open>Abstract room\<close>

type_synonym room_state = "SessionId \<rightharpoonup> GridPosition"

fun spec_apply :: "room_state \<Rightarrow> RoomCommand \<Rightarrow> (RoomEvent, RoomCommandError) expected \<times> room_state" where
  "spec_apply m (JoinCommand s) =
     (if s \<in> dom m then (Inl duplicate_session, m)
      else (Inr (PlayerJoinedEvent s origin), m(s \<mapsto> origin)))"
| "spec_apply m (MoveCommand s p) =
     (if s \<in> dom m then (Inr (PlayerMovedEvent s p), m(s \<mapsto> p)) else (Inl session_not_found, m))"
| "spec_apply m (LeaveCommand s reason) =
     (if s \<in> dom m then (Inr (PlayerLeftEvent s reason), m(s := None))
      else (Inl session_not_found, m))"

text \<open>What an observer of the events alone can reconstruct.\<close>

fun replay :: "room_state \<Rightarrow> RoomEvent \<Rightarrow> room_state" where
  "replay m (PlayerJoinedEvent s p) = m(s \<mapsto> p)"
| "replay m (PlayerMovedEvent s p) = m(s \<mapsto> p)"
| "replay m (PlayerLeftEvent s reason) = m(s := None)"

text \<open>A run of commands: the successful events in order and the final room.\<close>

fun apply_commands :: "Room \<Rightarrow> RoomCommand list \<Rightarrow> RoomEvent list \<times> Room" where
  "apply_commands r [] = ([], r)"
| "apply_commands r (c # cs) =
     (case Room_apply r c of
        (Inl e, r') \<Rightarrow> apply_commands r' cs
      | (Inr ev, r') \<Rightarrow> (let (evs, r'') = apply_commands r' cs in (ev # evs, r'')))"

definition room_inv :: "Room \<Rightarrow> bool" where
  "room_inv r \<longleftrightarrow> hm_inv (players r)"

abbreviation positions :: "Room \<Rightarrow> room_state" where
  "positions r \<equiv> map_of (players r)"

section \<open>Lemmas\<close>

lemmas room_ops = apply_join_def apply_move_def apply_leave_def

lemma Room_new_inv [inv_intros]: "room_inv Room_new"
  by (simp add: room_inv_def Room_new_def)

lemma Room_apply_inv [inv_intros]: "room_inv r \<Longrightarrow> room_inv (snd (Room_apply r c))"
  by (cases c)
    (auto simp: room_inv_def room_ops case_prod_beta Let_def hm.emplace_invar hm.erase_invar
      hm.assign_invar split: option.splits)

lemma Room_apply_refines:
  "room_inv r \<Longrightarrow> Room_apply r c = (res, r') \<Longrightarrow>
    spec_apply (positions r) c = (res, positions r')"
  by (cases c)
    (auto simp: room_inv_def room_ops case_prod_beta Let_def hm_find_def hm.emplace_inserted
      hm.emplace_lookup hm.erase_count hm.erase_lookup map_of_hm_assign
      split: option.splits if_splits)

lemma apply_commands_facts:
  "room_inv r \<Longrightarrow> apply_commands r cs = (evs, r') \<Longrightarrow>
    room_inv r' \<and> positions r' = fold (\<lambda>ev m. replay m ev) evs (positions r)"
proof (induction cs arbitrary: r evs)
  case (Cons c cs)
  obtain res r1 where step: "Room_apply r c = (res, r1)" by (cases "Room_apply r c")
  with Cons.prems(1) have inv: "room_inv r1"
    using Room_apply_inv [of r c] by simp
  have "positions r1 = (case res of Inl e \<Rightarrow> positions r | Inr ev \<Rightarrow> replay (positions r) ev)"
    using Room_apply_refines [OF Cons.prems(1) step]
    by (cases c) (auto split: if_splits)
  with Cons step inv show ?case
    by (fastforce split: sum.splits prod.splits)
qed simp

text \<open>The snapshot lists every player once, by increasing session id.\<close>

abbreviation snapshot_entry :: "SessionId \<times> GridPosition \<Rightarrow> PlayerSnapshot" where
  "snapshot_entry e \<equiv> \<lparr>snap_session_id = fst e, snap_position = snd e\<rparr>"

lemma Room_snapshot_alt:
  "Room_snapshot r = sort_key snap_session_id (map snapshot_entry (players r))"
  by (simp add: Room_snapshot_def case_prod_beta')

lemma snapshot_ids:
  assumes "room_inv r"
  shows "sorted (map snap_session_id (Room_snapshot r))"
    "distinct (map snap_session_id (Room_snapshot r))"
    "set (map snap_session_id (Room_snapshot r)) = dom (positions r)"
proof -
  show "sorted (map snap_session_id (Room_snapshot r))"
    by (simp add: Room_snapshot_alt)
  have "mset (map snap_session_id (Room_snapshot r)) = mset (map fst (players r))"
    by (simp add: Room_snapshot_alt multiset.map_comp comp_def)
  then show "distinct (map snap_session_id (Room_snapshot r))"
    using assms unfolding room_inv_def hm_inv_def by (metis mset_eq_imp_distinct_iff)
  show "set (map snap_session_id (Room_snapshot r)) = dom (positions r)"
    by (simp add: Room_snapshot_alt dom_map_of_conv_image_fst image_image)
qed

lemma set_snapshot:
  assumes "room_inv r"
  shows "p \<in> set (Room_snapshot r) \<longleftrightarrow> positions r (snap_session_id p) = Some (snap_position p)"
proof -
  have "p \<in> set (Room_snapshot r) \<longleftrightarrow> (snap_session_id p, snap_position p) \<in> set (players r)"
    by (force simp: Room_snapshot_alt)
  with assms show ?thesis by (simp add: room_inv_def hm_inv_def map_of_eq_Some_iff)
qed

lemma snapshot_by_ids:
  assumes "room_inv r"
  shows "Room_snapshot r =
    map (\<lambda>s. snapshot_entry (s, the (positions r s))) (map snap_session_id (Room_snapshot r))"
proof -
  have "snapshot_entry (snap_session_id p, the (positions r (snap_session_id p))) = p"
    if "p \<in> set (Room_snapshot r)" for p
    using that set_snapshot [OF assms, of p] by simp
  then show ?thesis by (simp add: map_idI)
qed

section \<open>Properties\<close>

text \<open>
  C16: The room refines the abstract room, a partial function from sessions to positions: every
  command has the outcome and the effect of its specification. A join adds the player at the
  origin unless present, a move and a leave need the player, and a refused command changes
  nothing.
\<close>
theorem Room_refines_spec:
  assumes "room_inv r" and "Room_apply r c = (res, r')"
  shows "room_inv r' \<and> spec_apply (positions r) c = (res, positions r')
    \<and> ((\<exists>e. res = Inl e) \<longrightarrow> positions r' = positions r)"
proof -
  from assms(1) have "room_inv r'"
    using Room_apply_inv [of r c] by (simp add: assms(2))
  moreover from Room_apply_refines [OF assms] have "spec_apply (positions r) c = (res, positions r')" .
  ultimately show ?thesis by (cases c) (auto split: if_splits)
qed

theorem Room_refines_spec_witness:
  "Room_apply \<lparr>players = [(7, origin)]\<rparr> (MoveCommand 7 \<lparr>grid_x = 3, grid_y = 4\<rparr>) =
    (Inr (PlayerMovedEvent 7 \<lparr>grid_x = 3, grid_y = 4\<rparr>),
     \<lparr>players = [(7, \<lparr>grid_x = 3, grid_y = 4\<rparr>)]\<rparr>)
   \<and> room_inv \<lparr>players = [(7, \<lparr>grid_x = 3, grid_y = 4\<rparr>)]\<rparr>"
proof -
  have inv: "room_inv \<lparr>players = [(7, origin)]\<rparr>" by (simp add: room_inv_def)
  have step: "Room_apply \<lparr>players = [(7, origin)]\<rparr> (MoveCommand 7 \<lparr>grid_x = 3, grid_y = 4\<rparr>) =
    (Inr (PlayerMovedEvent 7 \<lparr>grid_x = 3, grid_y = 4\<rparr>),
     \<lparr>players = [(7, \<lparr>grid_x = 3, grid_y = 4\<rparr>)]\<rparr>)"
    by (simp add: apply_move_def hm_find_def hm_assign_def)
  from step Room_refines_spec [OF inv step] show ?thesis by blast
qed

text \<open>
  C17: The events tell the whole story: replaying the events of any sequence of commands, and
  nothing else, gives exactly the positions the room ends with.
\<close>
theorem events_reconstruct_room:
  assumes "apply_commands Room_new cs = (events, r)"
  shows "positions r = fold (\<lambda>ev m. replay m ev) events Map.empty"
  using apply_commands_facts [OF Room_new_inv assms] by (simp add: Room_new_def)

theorem events_reconstruct_room_witness:
  "apply_commands Room_new [JoinCommand 1, JoinCommand 1, JoinCommand 2, LeaveCommand 1 left_room] =
    ([PlayerJoinedEvent 1 origin, PlayerJoinedEvent 2 origin, PlayerLeftEvent 1 left_room],
     \<lparr>players = [(2, origin)]\<rparr>)
   \<and> positions \<lparr>players = [(2, origin)]\<rparr> = fold (\<lambda>ev m. replay m ev)
      [PlayerJoinedEvent 1 origin, PlayerJoinedEvent 2 origin, PlayerLeftEvent 1 left_room] Map.empty"
proof -
  have run: "apply_commands Room_new
      [JoinCommand 1, JoinCommand 1, JoinCommand 2, LeaveCommand 1 left_room] =
    ([PlayerJoinedEvent 1 origin, PlayerJoinedEvent 2 origin, PlayerLeftEvent 1 left_room],
     \<lparr>players = [(2, origin)]\<rparr>)"
    by (simp add: Room_new_def room_ops hm_try_emplace_def hm_erase_def)
  from run events_reconstruct_room [OF run] show ?thesis by blast
qed

text \<open>
  A snapshot holds exactly the players of the room, each once, in strictly increasing order
  of session id, and depends only on the players: the iteration order of the hash map, which
  the standard leaves open, cannot be observed through it.
\<close>
theorem Room_snapshot_correct:
  assumes "room_inv r"
  shows "sorted_wrt (<) (map snap_session_id (Room_snapshot r))
    \<and> (\<forall>p. p \<in> set (Room_snapshot r) \<longleftrightarrow> Room_find r (snap_session_id p) = Some p)
    \<and> length (Room_snapshot r) = player_count r
    \<and> (\<forall>r'. room_inv r' \<and> positions r' = positions r \<longrightarrow> Room_snapshot r' = Room_snapshot r)"
proof (intro conjI allI impI)
  note ids = snapshot_ids [OF assms]
  then show "sorted_wrt (<) (map snap_session_id (Room_snapshot r))"
    by (simp add: strict_sorted_iff)
  show "p \<in> set (Room_snapshot r) \<longleftrightarrow> Room_find r (snap_session_id p) = Some p" for p
    by (cases p) (auto simp: set_snapshot [OF assms] Room_find_def hm_find_def split: option.splits)
  show "length (Room_snapshot r) = player_count r"
    by (simp add: Room_snapshot_alt player_count_def)
  fix r' assume r': "room_inv r' \<and> positions r' = positions r"
  then have "map snap_session_id (Room_snapshot r') = map snap_session_id (Room_snapshot r)"
    using ids snapshot_ids [of r'] by (intro sorted_distinct_set_unique) simp_all
  with r' snapshot_by_ids [OF assms] snapshot_by_ids [of r'] show "Room_snapshot r' = Room_snapshot r"
    by simp
qed

theorem Room_snapshot_correct_witness:
  "Room_snapshot \<lparr>players = [(9, origin), (4, origin)]\<rparr> =
    [\<lparr>snap_session_id = 4, snap_position = origin\<rparr>, \<lparr>snap_session_id = 9, snap_position = origin\<rparr>]
   \<and> sorted_wrt (<) (map snap_session_id (Room_snapshot \<lparr>players = [(9, origin), (4, origin)]\<rparr>))"
proof -
  have inv: "room_inv \<lparr>players = [(9, origin), (4, origin)]\<rparr>" by (simp add: room_inv_def)
  from Room_snapshot_correct [OF inv] show ?thesis
    by (simp add: Room_snapshot_def sort_key_def)
qed

end
