(* ===== verification/Room_Event_Encoder.thy ===== *)
theory Room_Event_Encoder
  imports Packet_Codec Gameplay_Payload Outbound_Queue Room
begin

text \<open>
  \<open>include/mcrs/network/room_event_encoder.hpp\<close> and \<open>src/network/room_event_encoder.cpp\<close>: the
  packet every member of the room receives for an event. The integers are written by a loop
  of shifts, the third way the program writes big endian; it is shown equal to the reference.
\<close>

unbundle bit_operations_syntax

section \<open>Operations\<close>

definition encoder_write_big_endian :: "byte list \<Rightarrow> size_t \<Rightarrow> 'a::len word \<Rightarrow> byte list" where
  "encoder_write_big_endian bytes offset v =
     fold (\<lambda>index bytes.
         let shift = (LENGTH('a) div 8 - index - 1) * 8
         in bytes[offset + index := ucast (drop_bit shift v AND 0xFF)])
       [0..<LENGTH('a) div 8] bytes"

text \<open>The encoder has constants of its own for the sizes of the payloads.\<close>

definition encoder_player_state_payload_size :: size_t where
  "encoder_player_state_payload_size = 8 + 4 * 2"

definition encoder_player_left_payload_size :: size_t where
  "encoder_player_left_payload_size = 8 + 2"

definition write_session_id :: "byte list \<Rightarrow> SessionId \<Rightarrow> byte list" where
  "write_session_id bytes session_id = encoder_write_big_endian bytes 0 session_id"

definition write_position :: "byte list \<Rightarrow> GridPosition \<Rightarrow> byte list" where
  "write_position bytes position =
     encoder_write_big_endian (encoder_write_big_endian bytes 8 (grid_x position)) (8 + 4)
       (grid_y position)"

definition encode_player_state ::
  "PacketType \<Rightarrow> SessionId \<Rightarrow> GridPosition \<Rightarrow> (SharedPacket, EncodeError) expected" where
  "encode_player_state type session_id position =
     (let bytes = write_position
            (write_session_id (replicate encoder_player_state_payload_size 0) session_id) position
      in case encode_packet type bytes of
           Inl e \<Rightarrow> Inl e
         | Inr encoded \<Rightarrow> Inr (make_shared_packet encoded))"

fun encode_room_event :: "RoomEvent \<Rightarrow> (SharedPacket, EncodeError) expected" where
  "encode_room_event (PlayerJoinedEvent s position) = encode_player_state player_joined s position"
| "encode_room_event (PlayerMovedEvent s position) = encode_player_state player_moved s position"
| "encode_room_event (PlayerLeftEvent s reason) =
     (let bytes = encoder_write_big_endian
            (write_session_id (replicate encoder_player_left_payload_size 0) s) 8
            (DisconnectReason_value reason)
      in case encode_packet player_left bytes of
           Inl e \<Rightarrow> Inl e
         | Inr encoded \<Rightarrow> Inr (make_shared_packet encoded))"

section \<open>Lemmas\<close>

lemma fold_list_update_memcpy:
  "off + n \<le> length buf \<Longrightarrow>
    fold (\<lambda>i xs. xs[off + i := f i]) [0..<n] buf = memcpy_at buf off (map f [0..<n])"
proof (induction n)
  case 0
  then show ?case by (simp add: memcpy_at_def)
next
  case (Suc n)
  then have "drop (off + n) buf = buf ! (off + n) # drop (Suc (off + n)) buf"
    by (simp add: Cons_nth_drop_Suc)
  with Suc show ?case
    by (simp add: memcpy_at_def list_update_append)
qed

lemma encoder_write_eq:
  fixes v :: "'a::len word"
  assumes "offset + LENGTH('a) div 8 \<le> length bytes"
  shows "encoder_write_big_endian bytes offset v = memcpy_at bytes offset (bytes_be v)"
proof -
  let ?n = "LENGTH('a) div 8"
  have "map (\<lambda>i. ucast (drop_bit ((?n - i - 1) * 8) v AND 0xFF)) [0..<?n] = bytes_be v"
    by (rule nth_equalityI)
      (simp_all add: bytes_be_def rev_nth nth_bytes_le ucast_mask_byte mult.commute)
  with fold_list_update_memcpy [OF assms, of "\<lambda>i. ucast (drop_bit ((?n - i - 1) * 8) v AND 0xFF)"]
  show ?thesis by (simp add: encoder_write_big_endian_def)
qed

definition state_payload :: "SessionId \<Rightarrow> GridPosition \<Rightarrow> byte list" where
  "state_payload s p = bytes_be s @ bytes_be (grid_x p) @ bytes_be (grid_y p)"

definition left_payload :: "SessionId \<Rightarrow> DisconnectReason \<Rightarrow> byte list" where
  "left_payload s reason = bytes_be s @ bytes_be (DisconnectReason_value reason)"

lemma length_payloads [simp]: "length (state_payload s p) = 16" "length (left_payload s r) = 10"
  by (simp_all add: state_payload_def left_payload_def)

lemma memcpy_zeros:
  "memcpy_at (xs @ replicate n z) (length xs) src =
    xs @ src @ replicate (n - length src) z"
  by (simp add: memcpy_at_def)

lemma written_session_id:
  "8 \<le> n \<Longrightarrow> write_session_id (replicate n 0) s = bytes_be s @ replicate (n - 8) 0"
  using memcpy_zeros [of "[]" n 0 "bytes_be s"] by (simp add: write_session_id_def encoder_write_eq)

lemma written_position:
  "write_position (bytes_be s @ replicate 8 0) p = state_payload (s :: SessionId) p"
proof -
  have "encoder_write_big_endian (bytes_be s @ replicate 8 0) 8 (grid_x p) =
      bytes_be s @ bytes_be (grid_x p) @ replicate 4 0"
    using memcpy_zeros [of "bytes_be s" 8 0 "bytes_be (grid_x p)"] by (simp add: encoder_write_eq)
  moreover have "encoder_write_big_endian ((bytes_be s @ bytes_be (grid_x p)) @ replicate 4 0) 12
      (grid_y p) = state_payload s p"
    using memcpy_zeros [of "bytes_be s @ bytes_be (grid_x p)" 4 0 "bytes_be (grid_y p)"]
    by (simp add: encoder_write_eq state_payload_def)
  ultimately show ?thesis by (simp add: write_position_def)
qed

lemma encode_player_state_eq:
  "is_known t \<Longrightarrow> encode_player_state t s p = Inr (Some (frame t (state_payload s p)))"
  by (simp add: encode_player_state_def encoder_player_state_payload_size_def written_session_id
      written_position encode_packet_cases make_shared_packet_def)

lemma written_reason:
  "encoder_write_big_endian (bytes_be (s :: SessionId) @ replicate 2 0) 8 (r :: uint16) =
    bytes_be s @ bytes_be r"
  using memcpy_zeros [of "bytes_be s" 2 0 "bytes_be r"] by (simp add: encoder_write_eq)

text \<open>The frame of every event.\<close>

fun event_type :: "RoomEvent \<Rightarrow> PacketType" where
  "event_type (PlayerJoinedEvent s p) = player_joined"
| "event_type (PlayerMovedEvent s p) = player_moved"
| "event_type (PlayerLeftEvent s r) = player_left"

fun event_payload :: "RoomEvent \<Rightarrow> byte list" where
  "event_payload (PlayerJoinedEvent s p) = state_payload s p"
| "event_payload (PlayerMovedEvent s p) = state_payload s p"
| "event_payload (PlayerLeftEvent s r) = left_payload s r"

lemma encode_room_event_eq:
  "encode_room_event ev = Inr (Some (frame (event_type ev) (event_payload ev)))"
  by (cases ev)
    (simp_all add: encode_player_state_eq encoder_player_left_payload_size_def written_session_id
      written_reason encode_packet_cases make_shared_packet_def left_payload_def)

lemma event_payload_bound: "is_known (event_type ev)" "length (event_payload ev) \<le> 65536"
  by (cases ev; simp)+

lemma decode_one_event:
  "decode_one (frame (event_type ev) (event_payload ev) @ rest) =
    Inr (view_of (event_type ev) (event_payload ev))"
  by (rule decode_one_frame) (rule event_payload_bound)+

lemma state_payload_inject: "state_payload s p = state_payload s' p' \<longleftrightarrow> s = s' \<and> p = p'"
  by (cases p; cases p') (simp add: state_payload_def bytes_be_inject)

lemma DisconnectReason_value_inject: "DisconnectReason_value a = DisconnectReason_value b \<longleftrightarrow> a = b"
  by (cases a; cases b) simp_all

lemma left_payload_inject: "left_payload s r = left_payload s' r' \<longleftrightarrow> s = s' \<and> r = r'"
  by (simp add: left_payload_def bytes_be_inject DisconnectReason_value_inject)

lemma event_packet_size: "length (frame (event_type ev) (event_payload ev)) \<le> 22"
  by (cases ev) (simp_all add: wire_header_size_def)

section \<open>Properties\<close>

text \<open>
  C34: An event packet carries its event: every room event has an encoding (the encoder never
  fails on one), and a client that decodes the packet with the payload decoders of the protocol
  finds the event's type, session, coordinates and reason.
\<close>
theorem encode_room_event_decodes:
  "\<exists>bytes. encode_room_event ev = Inr (Some bytes) \<and> decode_one bytes = Inr (view_of (event_type ev) (event_payload ev))
    \<and> (case ev of
        PlayerJoinedEvent s p \<Rightarrow> event_type ev = player_joined \<and>
          decode_player_state_payload (event_payload ev) =
            Inr \<lparr>state_session_id = s, state_x = grid_x p, state_y = grid_y p\<rparr>
      | PlayerMovedEvent s p \<Rightarrow> event_type ev = player_moved \<and>
          decode_player_state_payload (event_payload ev) =
            Inr \<lparr>state_session_id = s, state_x = grid_x p, state_y = grid_y p\<rparr>
      | PlayerLeftEvent s r \<Rightarrow> event_type ev = player_left \<and>
          decode_player_left_payload (event_payload ev) =
            Inr \<lparr>left_session_id = s, left_reason = DisconnectReason_value r\<rparr>)"
proof -
  let ?bytes = "frame (event_type ev) (event_payload ev)"
  have "decode_one ?bytes = Inr (view_of (event_type ev) (event_payload ev))"
    using decode_one_event [of ev "[]"] by simp
  then show ?thesis
    by (intro exI [of _ ?bytes] conjI)
      (simp_all add: encode_room_event_eq state_payload_def left_payload_def
        decode_player_state_layout decode_player_left_layout split: RoomEvent.split)
qed

text \<open>
  The encoding is unambiguous and small: different events have different packets, and no
  event packet is longer than 22 bytes.
\<close>
theorem encode_room_event_unambiguous:
  "(encode_room_event ev = encode_room_event ev' \<longleftrightarrow> ev = ev')
   \<and> (\<exists>bytes. encode_room_event ev = Inr (Some bytes) \<and> length bytes \<le> 22)"
proof -
  have "event_type ev = event_type ev' \<and> event_payload ev = event_payload ev'"
    if "encode_room_event ev = encode_room_event ev'"
    using that decode_one_event [of ev "[]"] decode_one_event [of ev' "[]"]
    by (simp add: encode_room_event_eq) (metis Inr_inject view_of_simps(1,2))
  moreover have "ev = ev'" if "event_type ev = event_type ev'" "event_payload ev = event_payload ev'"
    using that by (cases ev; cases ev') (simp_all add: state_payload_inject left_payload_inject)
  ultimately show ?thesis
    using event_packet_size encode_room_event_eq by blast
qed

end
