(* ===== verification/Closeable_Queue.thy ===== *)
theory Closeable_Queue
  imports Fifo_Queue
begin

text \<open>
  \<open>include/mcrs/concurrency/closeable_queue.hpp\<close>: the command queue of the room worker. Each
  operation runs under the queue's mutex, so a concurrent run is a sequence of them.
  \<open>wait_pop\<close> sleeps on the condition variable until the queue is closed, has an element or a
  stop is requested; a call that would sleep is the result \<open>Blocked\<close>, and the caller tries
  again after another operation. The notifications only wake sleepers and leave no trace.
\<close>

section \<open>Data and operations\<close>

datatype QueuePushError = closed

record 'a CloseableQueue =
  cq_values :: "'a list"
  cq_closed :: bool

datatype 'a wait_result = Blocked | Ready "'a option"

definition CloseableQueue_new :: "'a CloseableQueue" where
  "CloseableQueue_new = \<lparr>cq_values = [], cq_closed = False\<rparr>"

definition CloseableQueue_push ::
  "'a CloseableQueue \<Rightarrow> 'a \<Rightarrow> ('a CloseableQueue, QueuePushError) expected" where
  "CloseableQueue_push q v =
     (if cq_closed q then Inl QueuePushError.closed else Inr (q\<lparr>cq_values := cq_values q @ [v]\<rparr>))"

definition CloseableQueue_wait_pop ::
  "bool \<Rightarrow> 'a CloseableQueue \<Rightarrow> 'a wait_result \<times> 'a CloseableQueue" where
  "CloseableQueue_wait_pop stop_requested q =
     (if \<not> (cq_closed q \<or> cq_values q \<noteq> []) \<and> \<not> stop_requested then (Blocked, q)
      else case cq_values q of
        [] \<Rightarrow> (Ready None, q)
      | v # vs \<Rightarrow> (Ready (Some v), q\<lparr>cq_values := vs\<rparr>))"

definition CloseableQueue_close :: "'a CloseableQueue \<Rightarrow> 'a CloseableQueue" where
  "CloseableQueue_close q = q\<lparr>cq_closed := True\<rparr>"

definition CloseableQueue_size :: "'a CloseableQueue \<Rightarrow> size_t" where
  "CloseableQueue_size q = length (cq_values q)"

text \<open>A pop seen as the list of elements it hands out.\<close>

definition popped :: "bool \<Rightarrow> 'a CloseableQueue \<Rightarrow> 'a list \<times> 'a CloseableQueue" where
  "popped stop_requested q =
     (case CloseableQueue_wait_pop stop_requested q of
        (Ready (Some v), q') \<Rightarrow> ([v], q')
      | (_, q') \<Rightarrow> ([], q'))"

section \<open>Lemmas\<close>

lemmas cq_defs = CloseableQueue_push_def CloseableQueue_wait_pop_def CloseableQueue_close_def
  CloseableQueue_new_def popped_def

lemma wait_pop_cons [queue_simps]:
  "cq_values q = v # vs \<Longrightarrow>
    CloseableQueue_wait_pop stop q = (Ready (Some v), q\<lparr>cq_values := vs\<rparr>)"
  by (simp add: CloseableQueue_wait_pop_def)

lemma wait_pop_Some_iff:
  "CloseableQueue_wait_pop stop q = (Ready (Some v), q') \<longleftrightarrow>
    (\<exists>vs. cq_values q = v # vs \<and> q' = q\<lparr>cq_values := vs\<rparr>)"
  by (auto simp: CloseableQueue_wait_pop_def split: list.splits)

lemma wait_pop_None_iff:
  "CloseableQueue_wait_pop stop q = (Ready None, q') \<longleftrightarrow>
    cq_values q = [] \<and> (cq_closed q \<or> stop) \<and> q' = q"
  by (auto simp: CloseableQueue_wait_pop_def split: list.splits)

lemma wait_pop_Blocked_iff:
  "CloseableQueue_wait_pop stop q = (Blocked, q') \<longleftrightarrow>
    cq_values q = [] \<and> \<not> cq_closed q \<and> \<not> stop \<and> q' = q"
  by (auto simp: CloseableQueue_wait_pop_def split: list.splits)

interpretation cq: draining_fifo "\<lambda>q. True" cq_values cq_closed CloseableQueue_push
  "popped stop_requested" CloseableQueue_close for stop_requested
  by unfold_locales
    (auto simp: cq_defs split: if_splits list.splits)

section \<open>Properties\<close>

text \<open>
  The command queue loses, repeats and reorders nothing: in every interleaving of pushes,
  pops and closes from an empty queue, the accepted values are, in their order, exactly those
  popped followed by those still waiting; in particular closing keeps what was accepted.
\<close>
theorem CloseableQueue_conserves:
  assumes "fifo_run CloseableQueue_push (popped stop) CloseableQueue_close
      CloseableQueue_new ops = (accepted, out, q)"
  shows "accepted = out @ cq_values q"
  using cq.accepted_conserved [OF TrueI assms] by (simp add: CloseableQueue_new_def)

theorem CloseableQueue_conserves_witness:
  "fifo_run CloseableQueue_push (popped False) CloseableQueue_close CloseableQueue_new
      [Push 1, Push 2, Pop, Close, Push 3] =
    ([1, 2 :: nat], [1], \<lparr>cq_values = [2], cq_closed = True\<rparr>)
   \<and> [1, 2] = [1] @ cq_values \<lparr>cq_values = [2 :: nat], cq_closed = True\<rparr>"
proof -
  have run: "fifo_run CloseableQueue_push (popped False) CloseableQueue_close CloseableQueue_new
      [Push 1, Push 2, Pop, Close, Push 3] =
    ([1, 2 :: nat], [1], \<lparr>cq_values = [2], cq_closed = True\<rparr>)"
    by (simp add: cq_defs)
  from run CloseableQueue_conserves [OF run] show ?thesis by blast
qed

end
