(* ===== verification/Server_Metrics.thy ===== *)
theory Server_Metrics
  imports Hash_Map
begin

text \<open>
  \<open>include/mcrs/observability/server_metrics.hpp\<close> and \<open>src/observability/server_metrics.cpp\<close>:
  the counters and gauges of the server and of each session. An atomic counter is a 64-bit
  word; \<open>fetch_add\<close> and \<open>fetch_sub\<close> wrap. Each atomic operation is one step, so the methods
  below are the effect of a call that is not interleaved with another one on the same
  counters.

  A \<open>SessionMetrics\<close> object reports to the \<open>ServerMetrics\<close> that owns the totals, so its methods
  act on the pair of both. The server side table holds weak pointers only: it is the list of
  the tracked ids, and the objects behind them are the argument \<open>lock\<close> of \<open>snapshot\<close>.
\<close>

section \<open>Data\<close>

record SessionSnapshot =
  ss_session_id :: uint64
  ss_posted_jobs :: uint64
  ss_posted_bytes :: uint64
  ss_queued_packets :: uint64
  ss_queued_bytes :: uint64
  ss_inflight_packets :: uint64
  ss_inflight_bytes :: uint64
  ss_posted_peak_bytes :: uint64
  ss_queue_peak_bytes :: uint64
  ss_inflight_peak_bytes :: uint64

definition closed_history_capacity :: size_t where
  "closed_history_capacity = 128"

record ServerMetrics =
  room_commands_processed :: uint64
  room_commands_rejected :: uint64
  event_delivery_failures :: uint64
  broadcast_delivery_attempts :: uint64
  write_batches_started :: uint64
  write_batches_completed :: uint64
  write_batches_failed :: uint64
  write_batches_abandoned :: uint64
  packets_batched :: uint64
  max_batch_packets :: uint64
  bytes_requested :: uint64
  bytes_transferred :: uint64
  post_handlers_abandoned :: uint64
  outbound_overflow_closes :: uint64
  registered_sessions :: uint64
  active_rooms :: uint64
  session_queue_peak_bytes :: uint64
  tracked_sessions :: "(uint64, unit) hash_map"
  closed_ring :: "SessionSnapshot list"
  closed_count :: size_t
  closed_next :: size_t
  closed_history_overwritten :: uint64

record SessionMetrics =
  sm_session_id :: uint64
  sm_tracked :: bool
  posted_jobs :: uint64
  posted_bytes :: uint64
  queued_packets :: uint64
  queued_bytes :: uint64
  inflight_packets :: uint64
  inflight_bytes :: uint64
  posted_peak_bytes :: uint64
  queue_peak_bytes :: uint64
  inflight_peak_bytes :: uint64

record ServerSnapshot =
  sv_uptime_ms :: uint64
  sv_room_commands_processed :: uint64
  sv_room_commands_rejected :: uint64
  sv_event_delivery_failures :: uint64
  sv_broadcast_delivery_attempts :: uint64
  sv_write_batches_started :: uint64
  sv_write_batches_completed :: uint64
  sv_write_batches_failed :: uint64
  sv_write_batches_abandoned :: uint64
  sv_packets_batched :: uint64
  sv_max_batch_packets :: uint64
  sv_bytes_requested :: uint64
  sv_bytes_transferred :: uint64
  sv_post_handlers_abandoned :: uint64
  sv_outbound_overflow_closes :: uint64
  sv_registered_sessions :: uint64
  sv_active_rooms :: uint64
  sv_session_queue_peak_bytes :: uint64
  sv_closed_history_overwritten :: uint64
  sv_sessions :: "SessionSnapshot list"
  sv_recent_closed_sessions :: "SessionSnapshot list"

datatype metrics_error = duplicate_metrics_session_id

definition SessionSnapshot_zero :: SessionSnapshot where
  "SessionSnapshot_zero = \<lparr>ss_session_id = 0, ss_posted_jobs = 0, ss_posted_bytes = 0,
     ss_queued_packets = 0, ss_queued_bytes = 0, ss_inflight_packets = 0, ss_inflight_bytes = 0,
     ss_posted_peak_bytes = 0, ss_queue_peak_bytes = 0, ss_inflight_peak_bytes = 0\<rparr>"

definition ServerMetrics_new :: ServerMetrics where
  "ServerMetrics_new = \<lparr>room_commands_processed = 0, room_commands_rejected = 0,
     event_delivery_failures = 0, broadcast_delivery_attempts = 0, write_batches_started = 0,
     write_batches_completed = 0, write_batches_failed = 0, write_batches_abandoned = 0,
     packets_batched = 0, max_batch_packets = 0, bytes_requested = 0, bytes_transferred = 0,
     post_handlers_abandoned = 0, outbound_overflow_closes = 0, registered_sessions = 0,
     active_rooms = 0, session_queue_peak_bytes = 0, tracked_sessions = [],
     closed_ring = replicate closed_history_capacity SessionSnapshot_zero,
     closed_count = 0, closed_next = 0, closed_history_overwritten = 0\<rparr>"

section \<open>Server totals\<close>

text \<open>The compare and exchange loop of \<open>update_peak\<close>: the peak becomes the larger value.\<close>

definition update_peak :: "uint64 \<Rightarrow> uint64 \<Rightarrow> uint64" where
  "update_peak peak v = (if peak < v then v else peak)"

definition room_opened :: "ServerMetrics \<Rightarrow> ServerMetrics" where
  "room_opened m = m\<lparr>active_rooms := active_rooms m + 1\<rparr>"

definition room_closed :: "ServerMetrics \<Rightarrow> ServerMetrics" where
  "room_closed m = m\<lparr>active_rooms := active_rooms m - 1\<rparr>"

definition command_processed :: "bool \<Rightarrow> ServerMetrics \<Rightarrow> ServerMetrics" where
  "command_processed rejected m =
     (let m' = m\<lparr>room_commands_processed := room_commands_processed m + 1\<rparr>
      in if rejected then m'\<lparr>room_commands_rejected := room_commands_rejected m' + 1\<rparr> else m')"

definition delivery_attempted :: "ServerMetrics \<Rightarrow> ServerMetrics" where
  "delivery_attempted m = m\<lparr>broadcast_delivery_attempts := broadcast_delivery_attempts m + 1\<rparr>"

definition event_delivery_failed :: "ServerMetrics \<Rightarrow> ServerMetrics" where
  "event_delivery_failed m = m\<lparr>event_delivery_failures := event_delivery_failures m + 1\<rparr>"

definition session_registered :: "ServerMetrics \<Rightarrow> ServerMetrics" where
  "session_registered m = m\<lparr>registered_sessions := registered_sessions m + 1\<rparr>"

definition session_unregistered :: "ServerMetrics \<Rightarrow> ServerMetrics" where
  "session_unregistered m = m\<lparr>registered_sessions := registered_sessions m - 1\<rparr>"

definition ServerMetrics_outbound_overflow :: "ServerMetrics \<Rightarrow> ServerMetrics" where
  "ServerMetrics_outbound_overflow m = m\<lparr>outbound_overflow_closes := outbound_overflow_closes m + 1\<rparr>"

section \<open>Sessions\<close>

definition SessionMetrics_new :: "uint64 \<Rightarrow> SessionMetrics" where
  "SessionMetrics_new session_id = \<lparr>sm_session_id = session_id, sm_tracked = False,
     posted_jobs = 0, posted_bytes = 0, queued_packets = 0, queued_bytes = 0,
     inflight_packets = 0, inflight_bytes = 0, posted_peak_bytes = 0, queue_peak_bytes = 0,
     inflight_peak_bytes = 0\<rparr>"

definition SessionMetrics_snapshot :: "SessionMetrics \<Rightarrow> SessionSnapshot" where
  "SessionMetrics_snapshot s = \<lparr>ss_session_id = sm_session_id s, ss_posted_jobs = posted_jobs s,
     ss_posted_bytes = posted_bytes s, ss_queued_packets = queued_packets s,
     ss_queued_bytes = queued_bytes s, ss_inflight_packets = inflight_packets s,
     ss_inflight_bytes = inflight_bytes s, ss_posted_peak_bytes = posted_peak_bytes s,
     ss_queue_peak_bytes = queue_peak_bytes s, ss_inflight_peak_bytes = inflight_peak_bytes s\<rparr>"

definition create_session ::
  "ServerMetrics \<Rightarrow> uint64 \<Rightarrow> (ServerMetrics \<times> SessionMetrics, metrics_error) expected" where
  "create_session m session_id =
     (let state = SessionMetrics_new session_id;
          (sessions, inserted) = hm_try_emplace (tracked_sessions m) session_id ()
      in if \<not> inserted then Inl duplicate_metrics_session_id
         else Inr (m\<lparr>tracked_sessions := sessions\<rparr>, state\<lparr>sm_tracked := True\<rparr>))"

definition retire_session :: "SessionSnapshot \<Rightarrow> ServerMetrics \<Rightarrow> ServerMetrics" where
  "retire_session state m =
     (let m1 = m\<lparr>tracked_sessions := fst (hm_erase (tracked_sessions m) (ss_session_id state)),
                 closed_ring := (closed_ring m)[closed_next m := state],
                 closed_next := size_add (closed_next m) 1 mod closed_history_capacity\<rparr>
      in if closed_count m1 < closed_history_capacity
         then m1\<lparr>closed_count := closed_count m1 + 1\<rparr>
         else m1\<lparr>closed_history_overwritten := closed_history_overwritten m1 + 1\<rparr>)"

text \<open>The destructor: only a tracked object retires into its owner.\<close>

definition SessionMetrics_destroy :: "SessionMetrics \<Rightarrow> ServerMetrics \<Rightarrow> ServerMetrics" where
  "SessionMetrics_destroy s m =
     (if sm_tracked s then retire_session (SessionMetrics_snapshot s) m else m)"

text \<open>The closed sessions still held, from the oldest to the newest.\<close>

definition recent_closed :: "ServerMetrics \<Rightarrow> SessionSnapshot list" where
  "recent_closed m =
     (let first = size_sub (size_add (closed_next m) closed_history_capacity) (closed_count m)
                    mod closed_history_capacity
      in map (\<lambda>index. closed_ring m ! (size_add first index mod closed_history_capacity))
           [0..<closed_count m])"

definition ServerMetrics_snapshot ::
  "uint64 \<Rightarrow> (uint64 \<Rightarrow> SessionMetrics option) \<Rightarrow> ServerMetrics \<Rightarrow> ServerSnapshot" where
  "ServerMetrics_snapshot uptime_ms lock m =
     (let live = List.map_filter (\<lambda>(session_id, _). lock session_id) (tracked_sessions m)
      in \<lparr>sv_uptime_ms = uptime_ms,
          sv_room_commands_processed = room_commands_processed m,
          sv_room_commands_rejected = room_commands_rejected m,
          sv_event_delivery_failures = event_delivery_failures m,
          sv_broadcast_delivery_attempts = broadcast_delivery_attempts m,
          sv_write_batches_started = write_batches_started m,
          sv_write_batches_completed = write_batches_completed m,
          sv_write_batches_failed = write_batches_failed m,
          sv_write_batches_abandoned = write_batches_abandoned m,
          sv_packets_batched = packets_batched m,
          sv_max_batch_packets = max_batch_packets m,
          sv_bytes_requested = bytes_requested m,
          sv_bytes_transferred = bytes_transferred m,
          sv_post_handlers_abandoned = post_handlers_abandoned m,
          sv_outbound_overflow_closes = outbound_overflow_closes m,
          sv_registered_sessions = registered_sessions m,
          sv_active_rooms = active_rooms m,
          sv_session_queue_peak_bytes = session_queue_peak_bytes m,
          sv_closed_history_overwritten = closed_history_overwritten m,
          sv_sessions = map SessionMetrics_snapshot live,
          sv_recent_closed_sessions = recent_closed m\<rparr>)"

section \<open>Gauges of a session\<close>

type_synonym metrics_pair = "ServerMetrics \<times> SessionMetrics"

fun queue_changed :: "uint64 \<Rightarrow> uint64 \<Rightarrow> metrics_pair \<Rightarrow> metrics_pair" where
  "queue_changed packets bytes (m, s) =
     (m\<lparr>session_queue_peak_bytes := update_peak (session_queue_peak_bytes m) bytes\<rparr>,
      s\<lparr>queued_packets := packets, queued_bytes := bytes,
        queue_peak_bytes := update_peak (queue_peak_bytes s) bytes\<rparr>)"

fun post_added :: "uint64 \<Rightarrow> metrics_pair \<Rightarrow> metrics_pair" where
  "post_added bytes (m, s) =
     (m, s\<lparr>posted_jobs := posted_jobs s + 1, posted_bytes := posted_bytes s + bytes,
           posted_peak_bytes := update_peak (posted_peak_bytes s) (posted_bytes s + bytes)\<rparr>)"

fun post_released :: "uint64 \<Rightarrow> bool \<Rightarrow> metrics_pair \<Rightarrow> metrics_pair" where
  "post_released bytes abandoned (m, s) =
     (if abandoned then m\<lparr>post_handlers_abandoned := post_handlers_abandoned m + 1\<rparr> else m,
      s\<lparr>posted_jobs := posted_jobs s - 1, posted_bytes := posted_bytes s - bytes\<rparr>)"

fun batch_started :: "uint64 \<Rightarrow> uint64 \<Rightarrow> metrics_pair \<Rightarrow> metrics_pair" where
  "batch_started packets bytes (m, s) =
     (m\<lparr>write_batches_started := write_batches_started m + 1,
        packets_batched := packets_batched m + packets,
        bytes_requested := bytes_requested m + bytes,
        max_batch_packets := update_peak (max_batch_packets m) packets\<rparr>,
      s\<lparr>inflight_packets := packets, inflight_bytes := bytes,
        inflight_peak_bytes := update_peak (inflight_peak_bytes s) bytes\<rparr>)"

fun batch_finished :: "uint64 \<Rightarrow> bool \<Rightarrow> bool \<Rightarrow> metrics_pair \<Rightarrow> metrics_pair" where
  "batch_finished transferred failed abandoned (m, s) =
     (if abandoned then m\<lparr>write_batches_abandoned := write_batches_abandoned m + 1\<rparr>
      else
        let m' = m\<lparr>bytes_transferred := bytes_transferred m + transferred,
                   write_batches_completed := write_batches_completed m + 1\<rparr>
        in if failed then m'\<lparr>write_batches_failed := write_batches_failed m' + 1\<rparr> else m',
      s\<lparr>inflight_packets := 0, inflight_bytes := 0\<rparr>)"

fun SessionMetrics_outbound_overflow :: "metrics_pair \<Rightarrow> metrics_pair" where
  "SessionMetrics_outbound_overflow (m, s) = (ServerMetrics_outbound_overflow m, s)"

section \<open>Guards that travel with asynchronous work\<close>

text \<open>
  \<open>PendingDelivery\<close> and \<open>WriteBatch\<close> hold a pointer to the session metrics until they have
  reported; moving from them or reporting leaves the null pointer behind. The flag says
  whether the pointer is still there.
\<close>

record PendingDelivery =
  pd_metrics :: bool
  pd_bytes :: uint64

definition PendingDelivery_new ::
  "bool \<Rightarrow> uint64 \<Rightarrow> metrics_pair \<Rightarrow> PendingDelivery \<times> metrics_pair" where
  "PendingDelivery_new has_metrics bytes ms =
     (\<lparr>pd_metrics = has_metrics, pd_bytes = bytes\<rparr>, if has_metrics then post_added bytes ms else ms)"

text \<open>Move construction: the new guard and what is left of the old one.\<close>

definition PendingDelivery_move :: "PendingDelivery \<Rightarrow> PendingDelivery \<times> PendingDelivery" where
  "PendingDelivery_move other = (other, other\<lparr>pd_metrics := False\<rparr>)"

definition PendingDelivery_destroy :: "PendingDelivery \<Rightarrow> metrics_pair \<Rightarrow> metrics_pair" where
  "PendingDelivery_destroy d ms = (if pd_metrics d then post_released (pd_bytes d) True ms else ms)"

definition PendingDelivery_begin ::
  "PendingDelivery \<Rightarrow> metrics_pair \<Rightarrow> PendingDelivery \<times> metrics_pair" where
  "PendingDelivery_begin d ms =
     (if pd_metrics d then (d\<lparr>pd_metrics := False\<rparr>, post_released (pd_bytes d) False ms)
      else (d, ms))"

record WriteBatch =
  wb_metrics :: bool

definition WriteBatch_new ::
  "bool \<Rightarrow> uint64 \<Rightarrow> uint64 \<Rightarrow> metrics_pair \<Rightarrow> WriteBatch \<times> metrics_pair" where
  "WriteBatch_new has_metrics packets bytes ms =
     (\<lparr>wb_metrics = has_metrics\<rparr>, if has_metrics then batch_started packets bytes ms else ms)"

definition WriteBatch_destroy :: "WriteBatch \<Rightarrow> metrics_pair \<Rightarrow> metrics_pair" where
  "WriteBatch_destroy b ms = (if wb_metrics b then batch_finished 0 False True ms else ms)"

definition WriteBatch_complete ::
  "uint64 \<Rightarrow> bool \<Rightarrow> WriteBatch \<Rightarrow> metrics_pair \<Rightarrow> WriteBatch \<times> metrics_pair" where
  "WriteBatch_complete transferred failed b ms =
     (if wb_metrics b then (b\<lparr>wb_metrics := False\<rparr>, batch_finished transferred failed False ms)
      else (b, ms))"

section \<open>The ring of closed sessions\<close>

lemma mod_window:
  assumes "j < n" and "n < j + cap"
  shows "j mod cap \<noteq> n mod (cap :: nat)"
proof
  assume "j mod cap = n mod cap"
  with assms(1) have "cap dvd n - j"
    by (metis mod_eq_dvd_iff_nat less_imp_le)
  with assms show False by (auto dest: dvd_imp_le)
qed

text \<open>
  \<open>ring_holds m hs\<close>: after the sessions \<open>hs\<close> have been retired, oldest first, the ring holds
  the last of them at their places modulo the capacity.
\<close>

definition ring_holds :: "ServerMetrics \<Rightarrow> SessionSnapshot list \<Rightarrow> bool" where
  "ring_holds m hs \<longleftrightarrow>
     length (closed_ring m) = closed_history_capacity \<and>
     closed_count m = min closed_history_capacity (length hs) \<and>
     closed_next m = length hs mod closed_history_capacity \<and>
     closed_history_overwritten m = of_nat (length hs - closed_history_capacity) \<and>
     (\<forall>j < length hs. length hs \<le> j + closed_history_capacity \<longrightarrow>
        closed_ring m ! (j mod closed_history_capacity) = hs ! j)"

lemma capacity_pos [simp]: "0 < closed_history_capacity"
  by (simp add: closed_history_capacity_def)

lemma ring_holds_new: "ring_holds ServerMetrics_new []"
  by (simp add: ring_holds_def ServerMetrics_new_def)

lemma next_slot:
  "size_add (n mod closed_history_capacity) 1 mod closed_history_capacity =
    Suc n mod closed_history_capacity"
proof -
  have "n mod closed_history_capacity < 128"
    using mod_less_divisor [of closed_history_capacity n] by (simp add: closed_history_capacity_def)
  then show ?thesis by (simp add: mod_Suc_eq)
qed

lemma ring_holds_retire:
  assumes "ring_holds m hs"
  shows "ring_holds (retire_session x m) (hs @ [x])"
proof -
  let ?cap = closed_history_capacity and ?n = "length hs"
  from assms have len: "length (closed_ring m) = ?cap" and nxt: "closed_next m = ?n mod ?cap"
    and cnt: "closed_count m = min ?cap ?n"
    and over: "closed_history_overwritten m = of_nat (?n - ?cap)"
    and held: "\<And>j. j < ?n \<Longrightarrow> ?n \<le> j + ?cap \<Longrightarrow> closed_ring m ! (j mod ?cap) = hs ! j"
    by (auto simp: ring_holds_def)
  have slots: "(closed_ring m)[?n mod ?cap := x] ! (j mod ?cap) = (hs @ [x]) ! j"
    if "j < Suc ?n" "Suc ?n \<le> j + ?cap" for j
    using that len held mod_window [of j ?n ?cap] by (cases "j = ?n") (simp_all add: nth_append)
  have count: "closed_count (retire_session x m) = min ?cap (Suc ?n)"
    by (simp add: retire_session_def Let_def cnt)
  have overwritten: "closed_history_overwritten (retire_session x m) = of_nat (Suc ?n - ?cap)"
    by (simp add: retire_session_def Let_def cnt over Suc_diff_le)
  have "closed_ring (retire_session x m) = (closed_ring m)[?n mod ?cap := x]"
    "closed_next (retire_session x m) = Suc ?n mod ?cap"
    by (simp_all add: retire_session_def Let_def nxt next_slot [simplified])
  with len slots count overwritten show ?thesis
    by (simp add: ring_holds_def)
qed

lemma ring_holds_recent:
  assumes "ring_holds m hs"
  shows "recent_closed m = drop (length hs - closed_history_capacity) hs"
proof -
  let ?cap = closed_history_capacity and ?n = "length hs"
  from assms have cnt: "closed_count m = min ?cap ?n" and nxt: "closed_next m = ?n mod ?cap"
    and held: "\<And>j. j < ?n \<Longrightarrow> ?n \<le> j + ?cap \<Longrightarrow> closed_ring m ! (j mod ?cap) = hs ! j"
    by (auto simp: ring_holds_def)
  let ?first = "size_sub (size_add (closed_next m) ?cap) (closed_count m) mod ?cap"
  have lt: "?n mod ?cap < ?cap" by simp
  then have "size_add (?n mod ?cap) ?cap = ?n mod ?cap + ?cap"
    by (simp add: closed_history_capacity_def)
  then have "?first = (?n mod ?cap + ?cap - min ?cap ?n) mod ?cap"
    by (simp add: nxt cnt trans_le_add2)
  also have "\<dots> = (?n - min ?cap ?n) mod ?cap"
  proof (cases "?n < ?cap")
    case True
    then show ?thesis by simp
  next
    case False
    then show ?thesis by (simp add: mod_if [of "?n"] le_mod_geq)
  qed
  finally have first: "?first = (?n - ?cap) mod ?cap"
    by (simp add: min_def)
  have slot: "size_add ((?n - ?cap) mod ?cap) i mod ?cap = (?n - ?cap + i) mod ?cap"
    if "i < min ?cap ?n" for i
  proof -
    have "(?n - ?cap) mod ?cap < ?cap" by simp
    with that have "(?n - ?cap) mod ?cap + i < ?cap + ?cap" by linarith
    then have "(?n - ?cap) mod ?cap + i < 2 ^ 64"
      by (rule less_trans) (simp add: closed_history_capacity_def)
    then show ?thesis by (simp add: mod_add_left_eq)
  qed
  show ?thesis
  proof (rule nth_equalityI)
    show "length (recent_closed m) = length (drop (?n - ?cap) hs)"
      by (simp add: recent_closed_def Let_def cnt min_def)
    fix i assume "i < length (recent_closed m)"
    then have i: "i < min ?cap ?n" by (simp add: recent_closed_def Let_def cnt)
    then have "closed_ring m ! ((?n - ?cap + i) mod ?cap) = hs ! (?n - ?cap + i)"
      by (intro held) (auto simp: min_def split: if_splits)
    with i slot first show "recent_closed m ! i = drop (?n - ?cap) hs ! i"
      by (simp add: recent_closed_def Let_def cnt)
  qed
qed

lemma retire_all_holds: "ring_holds m hs \<Longrightarrow> ring_holds (fold retire_session xs m) (hs @ xs)"
proof (induction xs arbitrary: m hs)
  case (Cons x xs)
  from Cons.IH [OF ring_holds_retire [OF Cons.prems]] show ?case by simp
qed simp

section \<open>Guards in flight\<close>

text \<open>
  The deliveries of one session that have been posted to its executor: each is a guard. A
  step posts one, moves one into the handler object (what is left behind is destroyed), runs
  one (\<open>begin\<close>, and the destructor after the handler) or drops one that never ran.
\<close>

type_synonym posted = "metrics_pair \<times> PendingDelivery list"

inductive delivery_step :: "posted \<Rightarrow> posted \<Rightarrow> bool" where
  post: "PendingDelivery_new True bytes ms = (d, ms') \<Longrightarrow> delivery_step (ms, ds) (ms', ds @ [d])"
| move_guard: "PendingDelivery_move d = (d', left) \<Longrightarrow>
    delivery_step (ms, ds @ d # es) (PendingDelivery_destroy left ms, ds @ d' # es)"
| run: "PendingDelivery_begin d ms = (d', ms') \<Longrightarrow>
    delivery_step (ms, ds @ d # es) (PendingDelivery_destroy d' ms', ds @ es)"
| drop: "delivery_step (ms, ds @ d # es) (PendingDelivery_destroy d ms, ds @ es)"

inductive_cases delivery_stepE: "delivery_step (ms, ds) (ms', ds')"

fun gauges_match :: "posted \<Rightarrow> bool" where
  "gauges_match ((m, s), ds) \<longleftrightarrow>
     list_all pd_metrics ds \<and> posted_jobs s = of_nat (length ds) \<and>
     posted_bytes s = sum_list (map pd_bytes ds)"

lemmas guard_defs = PendingDelivery_new_def PendingDelivery_move_def PendingDelivery_begin_def
  PendingDelivery_destroy_def

lemma delivery_step_gauges:
  "delivery_step p p' \<Longrightarrow> gauges_match p \<Longrightarrow> gauges_match p'"
proof (induction rule: delivery_step.induct)
  case (post bytes ms d ms' ds)
  then show ?case by (cases ms) (auto simp: guard_defs)
next
  case (move_guard d d' left ms ds es)
  then show ?case by (cases ms) (auto simp: guard_defs)
next
  case (run d ms d' ms' ds es)
  then show ?case by (cases ms) (auto simp: guard_defs algebra_simps)
next
  case (drop ms ds d es)
  then show ?case by (cases ms) (auto simp: guard_defs algebra_simps)
qed

lemma delivery_steps_gauges:
  "delivery_step\<^sup>*\<^sup>* p p' \<Longrightarrow> gauges_match p \<Longrightarrow> gauges_match p'"
  by (induction rule: rtranclp_induct) (auto dest: delivery_step_gauges)

text \<open>The write batch of a session's writer: at most one is in flight.\<close>

inductive batch_step :: "metrics_pair \<times> WriteBatch option \<Rightarrow> metrics_pair \<times> WriteBatch option \<Rightarrow> bool" where
  start: "WriteBatch_new True packets bytes ms = (b, ms') \<Longrightarrow>
    batch_step (ms, None) (ms', Some b)"
| complete: "WriteBatch_complete transferred failed b ms = (b', ms') \<Longrightarrow>
    batch_step (ms, Some b) (WriteBatch_destroy b' ms', None)"
| abandon: "batch_step (ms, Some b) (WriteBatch_destroy b ms, None)"

fun batches_match :: "metrics_pair \<times> WriteBatch option \<Rightarrow> bool" where
  "batches_match ((m, s), None) \<longleftrightarrow>
     write_batches_started m = write_batches_completed m + write_batches_abandoned m \<and>
     inflight_packets s = 0 \<and> inflight_bytes s = 0"
| "batches_match ((m, s), Some b) \<longleftrightarrow> wb_metrics b \<and>
     write_batches_started m = write_batches_completed m + write_batches_abandoned m + 1"

lemmas batch_defs = WriteBatch_new_def WriteBatch_complete_def WriteBatch_destroy_def

lemma batch_step_match: "batch_step p p' \<Longrightarrow> batches_match p \<Longrightarrow> batches_match p'"
proof (induction rule: batch_step.induct)
  case (start packets bytes ms b ms')
  then show ?case by (cases ms) (auto simp: batch_defs)
next
  case (complete transferred failed b ms b' ms')
  then show ?case by (cases ms) (auto simp: batch_defs Let_def)
next
  case (abandon ms b)
  then show ?case by (cases ms) (auto simp: batch_defs)
qed

lemma batch_steps_match: "batch_step\<^sup>*\<^sup>* p p' \<Longrightarrow> batches_match p \<Longrightarrow> batches_match p'"
  by (induction rule: rtranclp_induct) (auto dest: batch_step_match)

section \<open>Properties\<close>

text \<open>
  The history of closed sessions is a faithful window: after any sequence of sessions has
  been retired, the snapshot lists exactly the last 128 of them, oldest first, and the
  overwritten counter is the number of those no longer listed.
\<close>
theorem recent_closed_window:
  "recent_closed (fold retire_session xs ServerMetrics_new) =
      drop (length xs - closed_history_capacity) xs
   \<and> closed_history_overwritten (fold retire_session xs ServerMetrics_new) =
      of_nat (length xs - closed_history_capacity)"
proof -
  have "ring_holds (fold retire_session xs ServerMetrics_new) ([] @ xs)"
    by (rule retire_all_holds [OF ring_holds_new])
  then show ?thesis
    by (simp add: ring_holds_recent ring_holds_def)
qed

text \<open>
  The gauges of posted deliveries are exact: whatever sequence of posting, moving, running
  and dropping the guards of a session go through, the gauges equal the number and the bytes
  of the deliveries still outstanding; each delivery is released exactly once, so with none
  outstanding both gauges are zero again.
\<close>
theorem posted_gauges_exact:
  assumes "delivery_step\<^sup>*\<^sup>* ((m, SessionMetrics_new i), []) ((m', s), ds)"
  shows "posted_jobs s = of_nat (length ds) \<and> posted_bytes s = sum_list (map pd_bytes ds)
    \<and> (ds = [] \<longrightarrow> posted_jobs s = 0 \<and> posted_bytes s = 0)"
proof -
  have "gauges_match ((m', s), ds)"
    by (rule delivery_steps_gauges [OF assms]) (simp add: SessionMetrics_new_def)
  then show ?thesis by auto
qed

theorem posted_gauges_exact_witness:
  "\<exists>m' s. delivery_step\<^sup>*\<^sup>* ((ServerMetrics_new, SessionMetrics_new 5), []) ((m', s), [])
     \<and> posted_jobs s = 0 \<and> posted_peak_bytes s = 22"
proof -
  let ?s = "(SessionMetrics_new 5)\<lparr>posted_jobs := 1, posted_bytes := 22, posted_peak_bytes := 22\<rparr>"
  let ?d = "\<lparr>pd_metrics = True, pd_bytes = 22\<rparr>"
  have "delivery_step ((ServerMetrics_new, SessionMetrics_new 5), [])
      ((ServerMetrics_new, ?s), [] @ [?d])"
    by (rule delivery_step.post [of 22])
      (simp add: guard_defs SessionMetrics_new_def update_peak_def)
  moreover have "delivery_step ((ServerMetrics_new, ?s), [] @ ?d # [])
      (PendingDelivery_destroy (?d\<lparr>pd_metrics := False\<rparr>)
        (ServerMetrics_new, ?s\<lparr>posted_jobs := 0, posted_bytes := 0\<rparr>), [] @ [])"
    by (rule delivery_step.run) (simp add: guard_defs)
  ultimately have run: "delivery_step\<^sup>*\<^sup>* ((ServerMetrics_new, SessionMetrics_new 5), [])
      ((ServerMetrics_new, ?s\<lparr>posted_jobs := 0, posted_bytes := 0\<rparr>), [])"
    by (auto simp: PendingDelivery_destroy_def intro: converse_rtranclp_into_rtranclp)
  have "posted_peak_bytes (?s\<lparr>posted_jobs := 0, posted_bytes := 0\<rparr>) = 22"
    by (simp add: SessionMetrics_new_def)
  with run posted_gauges_exact [OF run] show ?thesis by blast
qed

text \<open>
  Every write batch is accounted for: at any time the batches started are those completed,
  those abandoned and the one in flight, if any, and when none is in flight the in-flight
  gauges are zero.
\<close>
theorem write_batches_accounted:
  assumes "batch_step\<^sup>*\<^sup>* ((ServerMetrics_new, SessionMetrics_new i), None) ((m, s), w)"
  shows "write_batches_started m =
      write_batches_completed m + write_batches_abandoned m + (if w = None then 0 else 1)
    \<and> (w = None \<longrightarrow> inflight_packets s = 0 \<and> inflight_bytes s = 0)"
proof -
  have "batches_match ((m, s), w)"
    by (rule batch_steps_match [OF assms]) (simp add: SessionMetrics_new_def ServerMetrics_new_def)
  then show ?thesis by (cases w) auto
qed

theorem write_batches_accounted_witness:
  "\<exists>m s b. batch_step\<^sup>*\<^sup>* ((ServerMetrics_new, SessionMetrics_new 5), None) ((m, s), Some b)
     \<and> write_batches_started m = write_batches_completed m + write_batches_abandoned m + 1"
proof -
  obtain b m s where "WriteBatch_new True 2 44 (ServerMetrics_new, SessionMetrics_new 5) = (b, (m, s))"
    by (metis surj_pair)
  then have "batch_step ((ServerMetrics_new, SessionMetrics_new 5), None) ((m, s), Some b)"
    by (rule batch_step.start)
  then have run: "batch_step\<^sup>*\<^sup>* ((ServerMetrics_new, SessionMetrics_new 5), None) ((m, s), Some b)"
    by (rule r_into_rtranclp)
  from run write_batches_accounted [OF run] show ?thesis by auto
qed

end
