(* ===== verification/Room_Worker.thy ===== *)
theory Room_Worker
  imports Room Closeable_Queue Server_Metrics
begin

text \<open>
  \<open>include/mcrs/room/room_worker.hpp\<close> and \<open>src/room/room_worker.cpp\<close>: the thread that owns the
  room. Sessions submit commands to the queue; the worker takes them one at a time, applies
  them to the room and hands the events to the handler it was constructed with.

  The handler is code of the client of the worker (in the server, the registry's \<open>publish\<close>):
  a function on the state \<open>'e\<close> of the rest of the program that says whether it returned or
  threw. \<open>touch\<close> is access to the shared \<open>ServerMetrics\<close> in that state, and does nothing
  when the worker has none. The loop of the worker and its single iterations are both
  modelled: \<open>worker_run\<close> runs until the queue blocks or ends, \<open>worker_step\<close> interleaves
  iterations with the operations of the other threads.
\<close>

section \<open>Data\<close>

type_synonym 'e event_handler = "RoomEvent \<Rightarrow> 'e \<Rightarrow> bool \<times> 'e"
type_synonym 'e metrics_access = "(ServerMetrics \<Rightarrow> ServerMetrics) \<Rightarrow> 'e \<Rightarrow> 'e"

record RoomWorkerSummary =
  summary_players :: "PlayerSnapshot list"
  summary_processed_commands :: size_t
  summary_rejected_commands :: size_t
  summary_event_delivery_failures :: size_t

record RoomWorker =
  rw_room :: Room
  rw_commands :: "RoomCommand CloseableQueue"
  rw_processed_commands :: size_t
  rw_rejected_commands :: size_t
  rw_event_delivery_failures :: size_t
  rw_stopped_summary :: "RoomWorkerSummary option"
  rw_stop_requested :: bool

section \<open>Operations\<close>

definition RoomWorker_new :: "'e metrics_access \<Rightarrow> 'e \<Rightarrow> RoomWorker \<times> 'e" where
  "RoomWorker_new touch env =
     (\<lparr>rw_room = Room_new, rw_commands = CloseableQueue_new, rw_processed_commands = 0,
       rw_rejected_commands = 0, rw_event_delivery_failures = 0, rw_stopped_summary = None,
       rw_stop_requested = False\<rparr>,
      touch room_opened env)"

definition RoomWorker_submit ::
  "RoomWorker \<Rightarrow> RoomCommand \<Rightarrow> (RoomWorker, QueuePushError) expected" where
  "RoomWorker_submit w command =
     (case CloseableQueue_push (rw_commands w) command of
        Inl e \<Rightarrow> Inl e
      | Inr q \<Rightarrow> Inr (w\<lparr>rw_commands := q\<rparr>))"

text \<open>The body of the loop in \<open>run\<close>, for the command that was popped.\<close>

definition worker_process ::
  "'e event_handler option \<Rightarrow> 'e metrics_access \<Rightarrow> RoomCommand \<Rightarrow> RoomWorker \<times> 'e \<Rightarrow> RoomWorker \<times> 'e" where
  "worker_process handler touch command st =
     (let (w, env) = st;
          (result, room) = Room_apply (rw_room w) command;
          w1 = w\<lparr>rw_room := room, rw_processed_commands := size_add (rw_processed_commands w) 1\<rparr>;
          env1 = touch (command_processed (\<not> is_ok result)) env
      in case result of
           Inl e \<Rightarrow> (w1\<lparr>rw_rejected_commands := size_add (rw_rejected_commands w1) 1\<rparr>, env1)
         | Inr event \<Rightarrow>
             (case handler of
                None \<Rightarrow> (w1, env1)
              | Some h \<Rightarrow>
                  (let (returned, env2) = h event env1
                   in if returned then (w1, env2)
                      else (w1\<lparr>rw_event_delivery_failures := size_add (rw_event_delivery_failures w1) 1\<rparr>,
                            touch event_delivery_failed env2))))"

definition worker_iteration ::
  "'e event_handler option \<Rightarrow> 'e metrics_access \<Rightarrow> RoomWorker \<times> 'e \<Rightarrow> (RoomWorker \<times> 'e) option" where
  "worker_iteration handler touch st =
     (let (w, env) = st
      in case CloseableQueue_wait_pop (rw_stop_requested w) (rw_commands w) of
           (Ready (Some command), q) \<Rightarrow>
             Some (worker_process handler touch command (w\<lparr>rw_commands := q\<rparr>, env))
         | _ \<Rightarrow> None)"

lemma worker_process_frame [simp]:
  "rw_commands (fst (worker_process handler touch c (w, env))) = rw_commands w"
  "rw_stop_requested (fst (worker_process handler touch c (w, env))) = rw_stop_requested w"
  "rw_stopped_summary (fst (worker_process handler touch c (w, env))) = rw_stopped_summary w"
  by (auto simp: worker_process_def Let_def split: prod.split sum.split option.split)

lemma worker_iteration_SomeD:
  "worker_iteration handler touch st = Some st' \<Longrightarrow>
    \<exists>c cs. cq_values (rw_commands (fst st)) = c # cs \<and>
      st' = worker_process handler touch c
        ((fst st)\<lparr>rw_commands := (rw_commands (fst st))\<lparr>cq_values := cs\<rparr>\<rparr>, snd st)"
  by (auto simp: worker_iteration_def wait_pop_Some_iff split: prod.splits wait_result.splits option.splits)

lemma worker_iteration_shrinks:
  assumes "worker_iteration handler touch st = Some st'"
  shows "length (cq_values (rw_commands (fst st'))) < length (cq_values (rw_commands (fst st)))"
proof -
  from worker_iteration_SomeD [OF assms] obtain c cs where
    q: "cq_values (rw_commands (fst st)) = c # cs" and
    st': "st' = worker_process handler touch c
      ((fst st)\<lparr>rw_commands := (rw_commands (fst st))\<lparr>cq_values := cs\<rparr>\<rparr>, snd st)"
    by blast
  show ?thesis by (simp add: st' q)
qed

text \<open>The loop: it ends (or sleeps) when \<open>wait_pop\<close> hands out no command.\<close>

function worker_run ::
  "'e event_handler option \<Rightarrow> 'e metrics_access \<Rightarrow> RoomWorker \<times> 'e \<Rightarrow> RoomWorker \<times> 'e" where
  "worker_run handler touch st =
     (case worker_iteration handler touch st of
        None \<Rightarrow> st
      | Some st' \<Rightarrow> worker_run handler touch st')"
  by pat_completeness auto
termination
  by (relation "measure (\<lambda>(h, t, st). length (cq_values (rw_commands (fst st))))")
    (auto dest: worker_iteration_shrinks)

declare worker_run.simps [simp del]

text \<open>
  \<open>stop\<close>: close the queue, request the stop, join the worker (which runs to the end of its
  loop first), and keep the summary for later calls. Nothing is pushed after the close.
\<close>

definition RoomWorker_stop ::
  "'e event_handler option \<Rightarrow> 'e metrics_access \<Rightarrow> RoomWorker \<times> 'e
    \<Rightarrow> RoomWorkerSummary \<times> RoomWorker \<times> 'e" where
  "RoomWorker_stop handler touch st =
     (let (w, env) = st
      in case rw_stopped_summary w of
           Some summary \<Rightarrow> (summary, w, env)
         | None \<Rightarrow>
             (let w1 = w\<lparr>rw_commands := CloseableQueue_close (rw_commands w)\<rparr>;
                  w2 = w1\<lparr>rw_stop_requested := True\<rparr>;
                  (w3, env3) = worker_run handler touch (w2, env);
                  summary = \<lparr>summary_players = Room_snapshot (rw_room w3),
                     summary_processed_commands = rw_processed_commands w3,
                     summary_rejected_commands = rw_rejected_commands w3,
                     summary_event_delivery_failures = rw_event_delivery_failures w3\<rparr>
              in (summary, w3\<lparr>rw_stopped_summary := Some summary\<rparr>, touch room_closed env3)))"

definition RoomWorker_destroy :: "'e event_handler option \<Rightarrow> 'e metrics_access \<Rightarrow> RoomWorker \<times> 'e \<Rightarrow> 'e" where
  "RoomWorker_destroy handler touch st = snd (snd (RoomWorker_stop handler touch st))"

section \<open>What a run does to the room and the counters\<close>

lemma apply_commands_append:
  "apply_commands r (cs @ ds) =
    (let (evs, r') = apply_commands r cs; (evs', r'') = apply_commands r' ds in (evs @ evs', r''))"
  by (induction cs arbitrary: r) (auto simp: Let_def split: prod.splits sum.splits)

lemma events_le_commands: "apply_commands r cs = (evs, r') \<Longrightarrow> length evs \<le> length cs"
  by (induction cs arbitrary: r evs) (auto simp: Let_def le_SucI split: prod.splits sum.splits)

lemma worker_process_effect:
  assumes "Room_apply (rw_room w) c = (res, r)"
  shows "rw_room (fst (worker_process handler touch c (w, env))) = r"
    "rw_processed_commands (fst (worker_process handler touch c (w, env))) =
      size_add (rw_processed_commands w) 1"
    "rw_rejected_commands (fst (worker_process handler touch c (w, env))) =
      (if is_ok res then rw_rejected_commands w else size_add (rw_rejected_commands w) 1)"
  using assms
  by (auto simp: worker_process_def Let_def split: prod.split sum.split option.split)

lemma size_add_Suc: "size_add (size_add a (Suc 0)) n = size_add a (Suc n)"
  unfolding size_add_def by (simp only: mod_add_left_eq) simp

text \<open>One iteration is one command of the queue.\<close>

lemma worker_iteration_cons:
  assumes "cq_values (rw_commands w) = c # cs"
  shows "worker_iteration handler touch (w, env) =
    Some (worker_process handler touch c
      (w\<lparr>rw_commands := (rw_commands w)\<lparr>cq_values := cs\<rparr>\<rparr>, env))"
  using assms by (simp add: worker_iteration_def wait_pop_cons)

lemma worker_iteration_nil:
  "cq_values (rw_commands w) = [] \<Longrightarrow> worker_iteration handler touch (w, env) = None"
  by (simp add: worker_iteration_def CloseableQueue_wait_pop_def)

lemma worker_run_cons:
  "cq_values (rw_commands w) = c # cs \<Longrightarrow>
    worker_run handler touch (w, env) = worker_run handler touch (worker_process handler touch c
      (w\<lparr>rw_commands := (rw_commands w)\<lparr>cq_values := cs\<rparr>\<rparr>, env))"
  by (subst worker_run.simps) (simp add: worker_iteration_cons)

lemma worker_run_nil:
  "cq_values (rw_commands w) = [] \<Longrightarrow> worker_run handler touch (w, env) = (w, env)"
  by (subst worker_run.simps) (simp add: worker_iteration_nil)

lemma worker_run_effect:
  assumes "apply_commands (rw_room w) (cq_values (rw_commands w)) = (evs, r)"
    and "rw_processed_commands w < 2 ^ 64" "rw_rejected_commands w < 2 ^ 64"
    and "worker_run handler touch (w, env) = (w', env')"
  shows "rw_room w' = r \<and> cq_values (rw_commands w') = []
    \<and> cq_closed (rw_commands w') = cq_closed (rw_commands w)
    \<and> rw_processed_commands w' =
        size_add (rw_processed_commands w) (length (cq_values (rw_commands w)))
    \<and> rw_rejected_commands w' =
        size_add (rw_rejected_commands w) (length (cq_values (rw_commands w)) - length evs)"
  using assms
proof (induction "cq_values (rw_commands w)" arbitrary: w env evs)
  case Nil
  then show ?case by (simp add: worker_run_nil)
next
  case (Cons c cs)
  note q = \<open>c # cs = cq_values (rw_commands w)\<close> [symmetric]
  let ?w = "w\<lparr>rw_commands := (rw_commands w)\<lparr>cq_values := cs\<rparr>\<rparr>"
  obtain w1 env1 where proc: "worker_process handler touch c (?w, env) = (w1, env1)"
    by (cases "worker_process handler touch c (?w, env)")
  obtain res r1 where app: "Room_apply (rw_room w) c = (res, r1)"
    by (cases "Room_apply (rw_room w) c")
  obtain evs1 where rest: "apply_commands r1 cs = (evs1, r)"
    and evs: "evs = (case res of Inl _ \<Rightarrow> evs1 | Inr ev \<Rightarrow> ev # evs1)"
    using Cons.prems(1) app q by (auto split: sum.splits prod.splits)
  have w1: "rw_room w1 = r1" "cq_values (rw_commands w1) = cs"
    "cq_closed (rw_commands w1) = cq_closed (rw_commands w)"
    "rw_processed_commands w1 = size_add (rw_processed_commands w) 1"
    "rw_rejected_commands w1 =
      (if is_ok res then rw_rejected_commands w else size_add (rw_rejected_commands w) 1)"
    using worker_process_effect [of ?w c res r1 handler touch env] worker_process_frame [of handler touch c ?w env]
      app proc by simp_all
  have "worker_run handler touch (w1, env1) = (w', env')"
    using Cons.prems(4) by (simp add: worker_run_cons [OF q] proc)
  note IH = Cons.hyps(1) [OF w1(2) [symmetric], of evs1 env1, unfolded w1(1,2), OF rest _ _ this]
  have bounds: "rw_processed_commands w1 < 2 ^ 64" "rw_rejected_commands w1 < 2 ^ 64"
    using Cons.prems(2,3) by (simp_all add: w1 size_add_def)
  have len: "length evs1 \<le> length cs"
    using rest by (rule events_le_commands)
  show ?case
    using IH [OF bounds] len
    by (cases res) (simp_all add: w1 q evs size_add_Suc Suc_diff_le)
qed

text \<open>A handler that records its events and throws on some of them.\<close>

definition recording :: "(RoomEvent \<Rightarrow> bool) \<Rightarrow> RoomEvent list event_handler" where
  "recording throws ev log = (\<not> throws ev, log @ [ev])"

abbreviation no_metrics :: "'e metrics_access" where
  "no_metrics \<equiv> \<lambda>f env. env"

lemma worker_process_recording:
  assumes "Room_apply (rw_room w) c = (res, r)"
  shows "worker_process (Some (recording throws)) no_metrics c (w, log) = (w', log') \<Longrightarrow>
    log' = (case res of Inl _ \<Rightarrow> log | Inr ev \<Rightarrow> log @ [ev]) \<and>
    rw_event_delivery_failures w' =
      (case res of Inl _ \<Rightarrow> rw_event_delivery_failures w
       | Inr ev \<Rightarrow> if throws ev then size_add (rw_event_delivery_failures w) 1
                 else rw_event_delivery_failures w)"
  using assms
  by (auto simp: worker_process_def recording_def Let_def split: sum.splits if_splits)

lemma worker_run_recording:
  assumes "apply_commands (rw_room w) (cq_values (rw_commands w)) = (evs, r)"
    and "rw_event_delivery_failures w < 2 ^ 64"
    and "worker_run (Some (recording throws)) no_metrics (w, log) = (w', log')"
  shows "log' = log @ evs \<and> rw_event_delivery_failures w' =
    size_add (rw_event_delivery_failures w) (length (filter throws evs))"
  using assms
proof (induction "cq_values (rw_commands w)" arbitrary: w log evs)
  case Nil
  then show ?case by (simp add: worker_run_nil)
next
  case (Cons c cs)
  note q = \<open>c # cs = cq_values (rw_commands w)\<close> [symmetric]
  let ?w = "w\<lparr>rw_commands := (rw_commands w)\<lparr>cq_values := cs\<rparr>\<rparr>"
  let ?proc = "worker_process (Some (recording throws)) no_metrics c (?w, log)"
  obtain w1 log1 where proc: "?proc = (w1, log1)" by (cases ?proc)
  obtain res r1 where app: "Room_apply (rw_room w) c = (res, r1)"
    by (cases "Room_apply (rw_room w) c")
  obtain evs1 where rest: "apply_commands r1 cs = (evs1, r)"
    and evs: "evs = (case res of Inl _ \<Rightarrow> evs1 | Inr ev \<Rightarrow> ev # evs1)"
    using Cons.prems(1) app q by (auto split: sum.splits prod.splits)
  have w1: "rw_room w1 = r1" "cq_values (rw_commands w1) = cs"
    using worker_process_effect(1) [of ?w c res r1 "Some (recording throws)" no_metrics log]
      worker_process_frame(1) [of "Some (recording throws)" no_metrics c ?w log] app proc
    by simp_all
  have run: "worker_run (Some (recording throws)) no_metrics (w1, log1) = (w', log')"
    using Cons.prems(3) by (simp add: worker_run_cons [OF q] proc)
  have step: "log1 = (case res of Inl _ \<Rightarrow> log | Inr ev \<Rightarrow> log @ [ev])"
    "rw_event_delivery_failures w1 =
      (case res of Inl _ \<Rightarrow> rw_event_delivery_failures w
       | Inr ev \<Rightarrow> if throws ev then size_add (rw_event_delivery_failures w) 1
                 else rw_event_delivery_failures w)"
    using worker_process_recording [OF _ proc, of res r1] app by (cases res; simp)+
  have "rw_event_delivery_failures w1 < 2 ^ 64"
    using Cons.prems(2) by (simp add: step size_add_def split: sum.split)
  from Cons.hyps(1) [OF w1(2) [symmetric], of evs1 log1, unfolded w1, OF rest this run]
  show ?case by (auto simp: step evs size_add_Suc split: sum.splits)
qed

section \<open>The worker among the other threads\<close>

text \<open>
  Steps of the whole: any thread submits, the worker iterates, some thread closes the queue,
  and the rest of the program moves. The second component records the accepted commands.
\<close>

inductive worker_step ::
  "'e event_handler option \<Rightarrow> 'e metrics_access \<Rightarrow> (RoomWorker \<times> 'e) \<times> RoomCommand list
    \<Rightarrow> (RoomWorker \<times> 'e) \<times> RoomCommand list \<Rightarrow> bool"
  for handler touch where
  submitted: "RoomWorker_submit w c = Inr w' \<Longrightarrow>
    worker_step handler touch ((w, env), acc) ((w', env), acc @ [c])"
| refused: "RoomWorker_submit w c = Inl e \<Longrightarrow>
    worker_step handler touch ((w, env), acc) ((w, env), acc)"
| iterated: "worker_iteration handler touch st = Some st' \<Longrightarrow>
    worker_step handler touch (st, acc) (st', acc)"
| closed: "worker_step handler touch ((w, env), acc)
    ((w\<lparr>rw_commands := CloseableQueue_close (rw_commands w)\<rparr>, env), acc)"
| elsewhere: "worker_step handler touch ((w, env), acc) ((w, env'), acc)"

definition worker_inv :: "RoomWorker \<Rightarrow> RoomCommand list \<Rightarrow> bool" where
  "worker_inv w acc \<longleftrightarrow>
     (\<exists>finished evs r. acc = finished @ cq_values (rw_commands w)
        \<and> apply_commands Room_new finished = (evs, r) \<and> rw_room w = r
        \<and> rw_processed_commands w = size_add 0 (length finished)
        \<and> rw_rejected_commands w = size_add 0 (length finished - length evs)
        \<and> rw_stopped_summary w = None)"

lemma size_add_0_Suc: "size_add (size_add 0 n) (Suc 0) = size_add 0 (Suc n)"
  unfolding size_add_def by (simp only: mod_add_left_eq) simp

lemma worker_step_inv:
  "worker_step handler touch (st, acc) (st', acc') \<Longrightarrow> worker_inv (fst st) acc \<Longrightarrow>
    worker_inv (fst st') acc'"
proof (induction "(st, acc)" "(st', acc')" arbitrary: st acc st' acc' rule: worker_step.induct)
  case (submitted w c w' env acc)
  then show ?case
    by (auto simp: worker_inv_def RoomWorker_submit_def CloseableQueue_push_def
        split: sum.splits if_splits)
next
  case (iterated st st' acc)
  from worker_iteration_SomeD [OF iterated(1)] obtain c cs where
    q: "cq_values (rw_commands (fst st)) = c # cs" and
    st': "st' = worker_process handler touch c
      ((fst st)\<lparr>rw_commands := (rw_commands (fst st))\<lparr>cq_values := cs\<rparr>\<rparr>, snd st)"
    by blast
  from iterated(2) q obtain finished evs where
    inv: "acc = finished @ c # cs" "apply_commands Room_new finished = (evs, rw_room (fst st))"
    "rw_processed_commands (fst st) = size_add 0 (length finished)"
    "rw_rejected_commands (fst st) = size_add 0 (length finished - length evs)"
    "rw_stopped_summary (fst st) = None"
    by (auto simp: worker_inv_def)
  obtain res r where app: "Room_apply (rw_room (fst st)) c = (res, r)"
    by (cases "Room_apply (rw_room (fst st)) c")
  have all: "apply_commands Room_new (finished @ [c]) =
      (evs @ (case res of Inl _ \<Rightarrow> [] | Inr ev \<Rightarrow> [ev]), r)"
    using inv(2) app by (simp add: apply_commands_append split: sum.split)
  have "length evs \<le> length finished"
    using inv(2) by (rule events_le_commands)
  note len = this
  have "rw_room (fst st') = r" "cq_values (rw_commands (fst st')) = cs"
    "rw_processed_commands (fst st') = size_add 0 (length (finished @ [c]))"
    "rw_stopped_summary (fst st') = None"
    "rw_rejected_commands (fst st') =
      (if is_ok res then rw_rejected_commands (fst st)
       else size_add (rw_rejected_commands (fst st)) 1)"
    using worker_process_effect [of "(fst st)\<lparr>rw_commands := (rw_commands (fst st))\<lparr>cq_values := cs\<rparr>\<rparr>"
        c res r handler touch "snd st"] app inv
    by (simp_all add: st' size_add_0_Suc)
  with all inv len show ?case
    unfolding worker_inv_def
    by (cases res) (auto simp: size_add_0_Suc Suc_diff_le intro!: exI [of _ "finished @ [c]"])
qed (auto simp: worker_inv_def CloseableQueue_close_def)

lemma worker_inv_new: "worker_inv (fst (RoomWorker_new touch env)) []"
  by (simp add: worker_inv_def RoomWorker_new_def CloseableQueue_new_def)

lemma worker_steps_inv:
  "(worker_step handler touch)\<^sup>*\<^sup>* (st, acc) (st', acc') \<Longrightarrow> worker_inv (fst st) acc \<Longrightarrow>
    worker_inv (fst st') acc'"
proof (induction "(st', acc')" arbitrary: st' acc' rule: rtranclp_induct)
  case (step p)
  then show ?case by (cases p) (auto dest: worker_step_inv)
qed simp

lemma worker_inv_stop:
  assumes "worker_inv w acc" and "RoomWorker_stop handler touch (w, env) = (summary, w', env')"
    and "apply_commands Room_new acc = (events, r)"
  shows "summary_players summary = Room_snapshot r
    \<and> summary_processed_commands summary = size_add 0 (length acc)
    \<and> summary_rejected_commands summary = size_add 0 (length acc - length events)
    \<and> rw_room w' = r \<and> cq_values (rw_commands w') = [] \<and> cq_closed (rw_commands w')
    \<and> rw_stopped_summary w' = Some summary"
proof -
  from assms(1) obtain finished evs1 where
    inv: "acc = finished @ cq_values (rw_commands w)"
    "apply_commands Room_new finished = (evs1, rw_room w)"
    "rw_processed_commands w = size_add 0 (length finished)"
    "rw_rejected_commands w = size_add 0 (length finished - length evs1)"
    "rw_stopped_summary w = None"
    by (auto simp: worker_inv_def)
  let ?w = "w\<lparr>rw_commands := CloseableQueue_close (rw_commands w), rw_stop_requested := True\<rparr>"
  obtain w3 env3 where run: "worker_run handler touch (?w, env) = (w3, env3)"
    by (cases "worker_run handler touch (?w, env)")
  obtain evs2 where rest: "apply_commands (rw_room w) (cq_values (rw_commands w)) = (evs2, r)"
    and events: "events = evs1 @ evs2"
    using assms(3) inv(2) by (auto simp: inv(1) apply_commands_append Let_def split: prod.splits)
  have len: "length evs1 \<le> length finished" "length evs2 \<le> length (cq_values (rw_commands w))"
    using inv(2) rest by (auto dest: events_le_commands)
  have add: "size_add (size_add 0 a) b = size_add 0 (a + b)" for a b
    unfolding size_add_def by (simp only: mod_add_left_eq) simp
  have "rw_room w3 = r \<and> cq_values (rw_commands w3) = [] \<and> cq_closed (rw_commands w3)
    \<and> rw_processed_commands w3 = size_add 0 (length acc)
    \<and> rw_rejected_commands w3 = size_add 0 (length acc - length events)"
    using worker_run_effect [of ?w evs2 r handler touch env w3 env3] rest run inv len
    by (simp add: CloseableQueue_close_def events add) (simp add: size_add_def)
  with assms(2) inv(5) run show ?thesis
    by (auto simp: RoomWorker_stop_def Let_def)
qed

lemma one_join_run:
  obtains w where "(worker_step None no_metrics)\<^sup>*\<^sup>* (RoomWorker_new no_metrics (0 :: nat), [])
    ((w, 0), [JoinCommand 3])"
proof -
  let ?w0 = "fst (RoomWorker_new no_metrics (0 :: nat))"
  have new: "RoomWorker_new no_metrics (0 :: nat) = (?w0, 0)" "\<not> cq_closed (rw_commands ?w0)"
    by (simp_all add: RoomWorker_new_def CloseableQueue_new_def)
  then obtain w1 where "RoomWorker_submit ?w0 (JoinCommand 3) = Inr w1"
    by (simp add: RoomWorker_submit_def CloseableQueue_push_def)
  then have "worker_step None no_metrics ((?w0, 0), []) ((w1, 0), [] @ [JoinCommand 3])"
    by (rule worker_step.submitted)
  then have "worker_step None no_metrics (RoomWorker_new no_metrics (0 :: nat), [])
      ((w1, 0), [JoinCommand 3])"
    by (subst new(1)) simp
  from r_into_rtranclp [of "worker_step None no_metrics", OF this] show thesis by (rule that)
qed

section \<open>Properties\<close>

text \<open>
  C29: The room is changed by the accepted commands alone, one after the other in the order
  they were accepted: in every interleaving of submitting threads, the worker, a close and the
  rest of the program, the accepted commands are those already applied followed by those still
  queued, the room is the result of applying the former to the empty room, and the counters
  are their numbers.
\<close>
theorem worker_applies_in_order:
  assumes "(worker_step handler touch)\<^sup>*\<^sup>* (RoomWorker_new touch env, []) ((w, env'), accepted)"
  shows "\<exists>applied events. accepted = applied @ cq_values (rw_commands w)
    \<and> apply_commands Room_new applied = (events, rw_room w)
    \<and> rw_processed_commands w = size_add 0 (length applied)
    \<and> rw_rejected_commands w = size_add 0 (length applied - length events)"
  using worker_steps_inv [OF assms worker_inv_new] by (auto simp: worker_inv_def)

theorem worker_applies_in_order_witness:
  "\<exists>w. (worker_step None no_metrics)\<^sup>*\<^sup>* (RoomWorker_new no_metrics (0 :: nat), []) ((w, 0), [JoinCommand 3])
    \<and> (\<exists>applied events. [JoinCommand 3] = applied @ cq_values (rw_commands w)
      \<and> apply_commands Room_new applied = (events, rw_room w))"
proof -
  obtain w1 where run: "(worker_step None no_metrics)\<^sup>*\<^sup>* (RoomWorker_new no_metrics (0 :: nat), [])
      ((w1, 0), [JoinCommand 3])"
    by (rule one_join_run)
  from run worker_applies_in_order [OF run] show ?thesis by blast
qed

text \<open>
  C6: Stopping drains: called in any reachable state, \<open>stop\<close> returns with every accepted
  command applied, a summary of exactly that room and those counts, and an empty, closed
  queue. From then on submitting fails, and a second \<open>stop\<close> returns the same summary and
  changes nothing.
\<close>
theorem stop_drains:
  assumes "(worker_step handler touch)\<^sup>*\<^sup>* (RoomWorker_new touch env, []) ((w, env'), accepted)"
    and "RoomWorker_stop handler touch (w, env') = (summary, w', env'')"
    and "apply_commands Room_new accepted = (events, r)"
  shows "summary_players summary = Room_snapshot r
    \<and> summary_processed_commands summary = size_add 0 (length accepted)
    \<and> summary_rejected_commands summary = size_add 0 (length accepted - length events)
    \<and> cq_values (rw_commands w') = []
    \<and> RoomWorker_submit w' c = Inl QueuePushError.closed
    \<and> RoomWorker_stop handler touch (w', env'') = (summary, w', env'')"
proof -
  from worker_steps_inv [OF assms(1) worker_inv_new] have "worker_inv w accepted" by simp
  from worker_inv_stop [OF this assms(2,3)] show ?thesis
    by (simp add: RoomWorker_submit_def CloseableQueue_push_def RoomWorker_stop_def)
qed

theorem stop_drains_witness:
  "\<exists>w summary w' env. (worker_step None no_metrics)\<^sup>*\<^sup>* (RoomWorker_new no_metrics (0 :: nat), []) ((w, 0), [JoinCommand 3])
    \<and> RoomWorker_stop None no_metrics (w, 0 :: nat) = (summary, w', env)
    \<and> summary_players summary = [\<lparr>snap_session_id = 3, snap_position = origin\<rparr>]
    \<and> RoomWorker_submit w' (JoinCommand 4) = Inl QueuePushError.closed"
proof -
  obtain w1 where run: "(worker_step None no_metrics)\<^sup>*\<^sup>* (RoomWorker_new no_metrics (0 :: nat), [])
      ((w1, 0), [JoinCommand 3])"
    by (rule one_join_run)
  obtain summary w' env where stop: "RoomWorker_stop None no_metrics (w1, 0 :: nat) = (summary, w', env)"
    by (cases "RoomWorker_stop None no_metrics (w1, 0 :: nat)") blast
  have app: "apply_commands Room_new [JoinCommand 3] =
      ([PlayerJoinedEvent 3 origin], \<lparr>players = [(3, origin)]\<rparr>)"
    by (simp add: apply_join_def Room_new_def hm_try_emplace_def)
  have "Room_snapshot \<lparr>players = [(3, origin)]\<rparr> = [\<lparr>snap_session_id = 3, snap_position = origin\<rparr>]"
    by (simp add: Room_snapshot_def sort_key_def)
  with run stop stop_drains [OF run stop app, of "JoinCommand 4"] show ?thesis by auto
qed

text \<open>
  C30: The handler is called exactly once for every successful command, in order, and an
  exception it throws is counted and stops nothing: with a handler that records its events
  and throws on any set of them, a run over the queued commands records exactly their events
  and adds exactly the number of throwing ones to the failures.
\<close>
theorem handler_sees_every_event:
  assumes "apply_commands (rw_room w) (cq_values (rw_commands w)) = (events, r)"
    and "rw_event_delivery_failures w < 2 ^ 64"
    and "worker_run (Some (recording throws)) no_metrics (w, log) = (w', log')"
  shows "log' = log @ events
    \<and> rw_event_delivery_failures w' =
        size_add (rw_event_delivery_failures w) (length (filter throws events))"
  using assms by (rule worker_run_recording)

theorem handler_sees_every_event_witness:
  "\<exists>w'. worker_run (Some (recording (\<lambda>_. True))) no_metrics
      (\<lparr>rw_room = Room_new, rw_commands = \<lparr>cq_values = [JoinCommand 3, JoinCommand 3], cq_closed = True\<rparr>,
        rw_processed_commands = 0, rw_rejected_commands = 0, rw_event_delivery_failures = 0,
        rw_stopped_summary = None, rw_stop_requested = True\<rparr>, []) =
      (w', [PlayerJoinedEvent 3 origin]) \<and> rw_event_delivery_failures w' = 1"
proof -
  let ?w = "\<lparr>rw_room = Room_new, rw_commands = \<lparr>cq_values = [JoinCommand 3, JoinCommand 3], cq_closed = True\<rparr>,
        rw_processed_commands = 0, rw_rejected_commands = 0, rw_event_delivery_failures = 0,
        rw_stopped_summary = None, rw_stop_requested = True\<rparr>"
  have app: "apply_commands (rw_room ?w) (cq_values (rw_commands ?w)) =
      ([PlayerJoinedEvent 3 origin], \<lparr>players = [(3, origin)]\<rparr>)"
    by (simp add: apply_join_def Room_new_def hm_try_emplace_def)
  obtain w' log' where run: "worker_run (Some (recording (\<lambda>_. True))) no_metrics (?w, []) = (w', log')"
    by (cases "worker_run (Some (recording (\<lambda>_. True))) no_metrics (?w, [])")
  from run handler_sees_every_event [OF app _ run] show ?thesis by simp
qed

end
