(* ===== verification/Session.thy ===== *)
theory Session
  imports Receive_Buffer Gameplay_Payload Room_Event_Encoder Room_Worker
begin

text \<open>
  \<open>src/network/session.cpp\<close>: one client's session. It reads bytes into the receive buffer, acts
  on every complete packet, and writes the packets of the outbound queue in batches.

  All of a session's code runs on one executor thread, one handler at a time, so a run is a
  sequence of handlers. A coroutine is cut at its \<open>co_await\<close>s: what \<open>run\<close> does when a read
  completes is \<open>read_completed\<close>, what \<open>write_queued_packets\<close> does from its loop test to the next
  suspension is \<open>writer_resume\<close>, and so on. The socket is Asio's: which read or write completes
  when, and with what result, is the choice of the step relation below. Diagnostics written
  to \<open>std::cerr\<close> are left out.
\<close>

section \<open>Constants and state\<close>

definition tcp_read_chunk_size :: size_t where
  "tcp_read_chunk_size = 4 * 1024"

definition max_session_buffer_size :: size_t where
  "max_session_buffer_size = wire_header_size + unat max_payload_size + tcp_read_chunk_size"

definition max_session_outbound_bytes :: size_t where
  "max_session_outbound_bytes = 256 * 1024"

definition max_outbound_batch_packets :: size_t where
  "max_outbound_batch_packets = 64"

definition max_outbound_batch_bytes :: size_t where
  "max_outbound_batch_bytes = 64 * 1024"

text \<open>
  Where the two coroutines stand. The reader waits for a read that was started on an open
  socket, or on one that was closed before (which can only fail), or has returned. The writer
  does not exist, is spawned and has not run yet, or waits for the write of a batch, which it
  holds together with the metrics guard.
\<close>

datatype reader_state = Reading | Reading_closed | Reader_returned
datatype writer_state = No_writer | Writer_spawned | Writing "SharedPacket list" WriteBatch

text \<open>
  The members of the class; the reference \<open>room_worker_\<close> and the pointer \<open>metrics_\<close> stand for
  the objects they refer to. The last three fields are the session's share of the executor:
  its coroutines and the handlers that \<open>deliver\<close> has posted.
\<close>

record Session =
  se_socket_open :: bool
  se_receive_buffer :: ReceiveBuffer
  se_outbound_queue :: OutboundQueue
  se_session_id :: SessionId
  se_room_worker :: RoomWorker
  se_metrics :: "metrics_pair option"
  se_joined_room :: bool
  se_write_in_progress :: bool
  se_stopped :: bool
  se_reader :: reader_state
  se_writer :: writer_state
  se_posted :: "(SharedPacket \<times> PendingDelivery) list"

definition Session_new :: "growth \<Rightarrow> SessionId \<Rightarrow> RoomWorker \<Rightarrow> metrics_pair option \<Rightarrow> Session" where
  "Session_new grow session_id room_worker metrics =
     \<lparr>se_socket_open = True,
      se_receive_buffer = ReceiveBuffer_new grow max_session_buffer_size (4 * 1024),
      se_outbound_queue = OutboundQueue_new max_session_outbound_bytes,
      se_session_id = session_id, se_room_worker = room_worker, se_metrics = metrics,
      se_joined_room = False, se_write_in_progress = False, se_stopped = False,
      se_reader = Reading, se_writer = No_writer, se_posted = []\<rparr>"

section \<open>Commands to the room and the end of the session\<close>

definition update_queue_metrics :: "Session \<Rightarrow> Session" where
  "update_queue_metrics s = s\<lparr>se_metrics := map_option
     (queue_changed (of_nat (OutboundQueue_pending_packets (se_outbound_queue s)))
       (of_nat (oq_pending_bytes (se_outbound_queue s)))) (se_metrics s)\<rparr>"

definition submit_room_command :: "RoomCommand \<Rightarrow> Session \<Rightarrow> bool \<times> Session" where
  "submit_room_command command s =
     (case RoomWorker_submit (se_room_worker s) command of
        Inl e \<Rightarrow> (False, s)
      | Inr w \<Rightarrow> (True, s\<lparr>se_room_worker := w\<rparr>))"

definition leave_room_if_joined :: "DisconnectReason \<Rightarrow> Session \<Rightarrow> Session" where
  "leave_room_if_joined reason s =
     (if \<not> se_joined_room s then s
      else snd (submit_room_command (LeaveCommand (se_session_id s) reason)
             (s\<lparr>se_joined_room := False\<rparr>)))"

definition stop_session :: "DisconnectReason \<Rightarrow> Session \<Rightarrow> Session" where
  "stop_session reason s =
     (if se_stopped s then s
      else
        let s1 = leave_room_if_joined reason (s\<lparr>se_stopped := True\<rparr>);
            s2 = update_queue_metrics
              (s1\<lparr>se_outbound_queue := OutboundQueue_close (se_outbound_queue s1)\<rparr>);
            s3 = (if reason = outbound_overflow
                  then s2\<lparr>se_metrics := map_option SessionMetrics_outbound_overflow (se_metrics s2)\<rparr>
                  else s2)
        in s3\<lparr>se_socket_open := False\<rparr>)"

definition reject_protocol :: "Session \<Rightarrow> bool \<times> Session" where
  "reject_protocol s = (False, stop_session protocol_error s)"

section \<open>Writing\<close>

text \<open>The guards of the metrics; without metrics they hold the null pointer and do nothing.\<close>

definition start_batch ::
  "uint64 \<Rightarrow> uint64 \<Rightarrow> metrics_pair option \<Rightarrow> WriteBatch \<times> metrics_pair option" where
  "start_batch packets bytes metrics =
     (case metrics of
        None \<Rightarrow> (\<lparr>wb_metrics = False\<rparr>, None)
      | Some ms \<Rightarrow> map_prod id Some (WriteBatch_new True packets bytes ms))"

text \<open>
  \<open>write_queued_packets\<close> from its loop test on: it returns when the session has stopped or
  nothing is waiting, otherwise it takes a batch and suspends in \<open>async_write\<close>. The slots of
  \<open>packet_batch\<close> are null at this point, those of the previous batch having been reset.
\<close>

definition writer_resume :: "Session \<Rightarrow> Session" where
  "writer_resume s =
     (if se_stopped s then s\<lparr>se_write_in_progress := False, se_writer := No_writer\<rparr>
      else
        let (packet_count, packet_batch, q) =
              pop_batch (se_outbound_queue s) (replicate max_outbound_batch_packets None)
                max_outbound_batch_bytes;
            s1 = update_queue_metrics (s\<lparr>se_outbound_queue := q\<rparr>)
        in if packet_count = 0
           then s1\<lparr>se_write_in_progress := False, se_writer := No_writer\<rparr>
           else
             let packets = take packet_count packet_batch;
                 batch_bytes = foldl (\<lambda>n p. size_add n (SharedPacket_size p)) 0 packets;
                 (batch, metrics) = start_batch (of_nat packet_count) (of_nat batch_bytes) (se_metrics s1)
             in s1\<lparr>se_metrics := metrics, se_writer := Writing packets batch\<rparr>)"

text \<open>The write of the batch has completed, with the bytes transferred and the error, if any.\<close>

definition write_completed :: "uint64 \<Rightarrow> bool \<Rightarrow> Session \<Rightarrow> Session" where
  "write_completed transferred write_error s =
     (case se_writer s of
        Writing packets batch \<Rightarrow>
          (let s1 = s\<lparr>se_metrics := map_option
                 (\<lambda>ms. snd (WriteBatch_complete transferred write_error batch ms)) (se_metrics s)\<rparr>
           in if write_error
              then stop_session io_error (s1\<lparr>se_write_in_progress := False, se_writer := No_writer\<rparr>)
              else writer_resume s1)
      | _ \<Rightarrow> s)"

text \<open>
  An exception leaves the writer: its frame and with it the batch guard are destroyed, and the
  completion handler given to \<open>co_spawn\<close> stops the session.
\<close>

definition writer_threw :: "Session \<Rightarrow> Session" where
  "writer_threw s =
     stop_session io_error
       ((case se_writer s of
           Writing packets batch \<Rightarrow>
             s\<lparr>se_metrics := map_option (WriteBatch_destroy batch) (se_metrics s)\<rparr>
         | _ \<Rightarrow> s)\<lparr>se_writer := No_writer\<rparr>)"

text \<open>
  \<open>at_once\<close> says whether \<open>co_spawn\<close> runs the writer up to its first suspension before it
  returns (as it may on the session's own thread) or leaves that to a later handler.
\<close>

definition enqueue_outbound :: "bool \<Rightarrow> SharedPacket \<Rightarrow> Session \<Rightarrow> bool \<times> Session" where
  "enqueue_outbound at_once packet s =
     (if se_stopped s then (False, s)
      else case OutboundQueue_push (se_outbound_queue s) packet of
        Inl e \<Rightarrow>
          (let s1 = update_queue_metrics s
           in (False, stop_session (if e = byte_limit_exceeded then outbound_overflow else io_error) s1))
      | Inr q \<Rightarrow>
          (let s1 = update_queue_metrics (s\<lparr>se_outbound_queue := q\<rparr>)
           in if se_write_in_progress s1 then (True, s1)
              else
                let s2 = s1\<lparr>se_write_in_progress := True, se_writer := Writer_spawned\<rparr>
                in (True, if at_once then writer_resume s2 else s2)))"

text \<open>
  \<open>deliver\<close>, called by the room worker's thread, posts a handler that owns the packet and the
  guard; \<open>run_posted\<close> is that handler, \<open>drop_posted\<close> its destruction without being run.
\<close>

definition deliver :: "SharedPacket \<Rightarrow> Session \<Rightarrow> Session" where
  "deliver packet s =
     (let (pending, metrics) =
        (case se_metrics s of
           None \<Rightarrow> (\<lparr>pd_metrics = False, pd_bytes = of_nat (SharedPacket_size packet)\<rparr>, None)
         | Some ms \<Rightarrow>
             map_prod id Some (PendingDelivery_new True (of_nat (SharedPacket_size packet)) ms))
      in s\<lparr>se_metrics := metrics,
           se_posted := se_posted s @ [(packet, fst (PendingDelivery_move pending))]\<rparr>)"

definition run_posted :: "bool \<Rightarrow> Session \<Rightarrow> Session" where
  "run_posted at_once s =
     (case se_posted s of
        [] \<Rightarrow> s
      | (packet, pending) # posted \<Rightarrow>
          snd (enqueue_outbound at_once packet
            (s\<lparr>se_posted := posted,
               se_metrics := map_option (\<lambda>ms. snd (PendingDelivery_begin pending ms)) (se_metrics s)\<rparr>)))"

definition drop_posted :: "Session \<Rightarrow> Session" where
  "drop_posted s =
     (case se_posted s of
        [] \<Rightarrow> s
      | (packet, pending) # posted \<Rightarrow>
          s\<lparr>se_posted := posted,
            se_metrics := map_option (PendingDelivery_destroy pending) (se_metrics s)\<rparr>)"

text \<open>The destructor closes the queue once more; the socket closes with it.\<close>

definition Session_destroy :: "Session \<Rightarrow> Session" where
  "Session_destroy s =
     (update_queue_metrics (s\<lparr>se_outbound_queue := OutboundQueue_close (se_outbound_queue s)\<rparr>))
       \<lparr>se_socket_open := False\<rparr>"

section \<open>Reading\<close>

definition consume_packet :: "PacketView \<Rightarrow> Session \<Rightarrow> Session" where
  "consume_packet decoded s =
     s\<lparr>se_receive_buffer := ReceiveBuffer_consume (se_receive_buffer s) (consumed_bytes decoded)\<rparr>"

text \<open>The cases of the switch over the packet type: \<open>None\<close> to go on, \<open>Some\<close> to return.\<close>

definition handle_ping :: "bool \<Rightarrow> PacketView \<Rightarrow> Session \<Rightarrow> bool option \<times> Session" where
  "handle_ping at_once decoded s =
     (case encode_packet ping (payload decoded) of
        Inl e \<Rightarrow> (Some False, stop_session protocol_error s)
      | Inr response \<Rightarrow>
          (let (enqueued, s') =
             enqueue_outbound at_once (make_shared_packet response) (consume_packet decoded s)
           in (if enqueued then None else Some False, s')))"

definition handle_join :: "PacketView \<Rightarrow> Session \<Rightarrow> bool option \<times> Session" where
  "handle_join decoded s =
     (if \<not> is_ok (validate_empty_payload (payload decoded)) then map_prod Some id (reject_protocol s)
      else if se_joined_room s then map_prod Some id (reject_protocol s)
      else
        let (submitted, s1) = submit_room_command (JoinCommand (se_session_id s)) s
        in if \<not> submitted then (Some False, stop_session server_shutdown s1)
           else (None, consume_packet decoded (s1\<lparr>se_joined_room := True\<rparr>)))"

definition handle_move :: "PacketView \<Rightarrow> Session \<Rightarrow> bool option \<times> Session" where
  "handle_move decoded s =
     (if \<not> se_joined_room s then map_prod Some id (reject_protocol s)
      else case decode_move_payload (payload decoded) of
        Inl e \<Rightarrow> map_prod Some id (reject_protocol s)
      | Inr movement \<Rightarrow>
          (let (submitted, s1) =
             submit_room_command (MoveCommand (se_session_id s)
               \<lparr>grid_x = move_x movement, grid_y = move_y movement\<rparr>) s
           in if \<not> submitted then (Some False, stop_session server_shutdown s1)
              else (None, consume_packet decoded s1)))"

definition handle_leave :: "PacketView \<Rightarrow> Session \<Rightarrow> bool option \<times> Session" where
  "handle_leave decoded s =
     (if \<not> is_ok (validate_empty_payload (payload decoded)) then map_prod Some id (reject_protocol s)
      else if \<not> se_joined_room s then map_prod Some id (reject_protocol s)
      else (None, consume_packet decoded (leave_room_if_joined left_room s)))"

definition handle_packet :: "bool \<Rightarrow> PacketView \<Rightarrow> Session \<Rightarrow> bool option \<times> Session" where
  "handle_packet at_once decoded s =
     (case packet_type (header decoded) of
        ping \<Rightarrow> handle_ping at_once decoded s
      | join_room \<Rightarrow> handle_join decoded s
      | move \<Rightarrow> handle_move decoded s
      | leave_room \<Rightarrow> handle_leave decoded s
      | attack \<Rightarrow> map_prod Some id (reject_protocol s)
      | player_joined \<Rightarrow> map_prod Some id (reject_protocol s)
      | player_moved \<Rightarrow> map_prod Some id (reject_protocol s)
      | player_left \<Rightarrow> map_prod Some id (reject_protocol s)
      | unlisted c \<Rightarrow> (None, s))"

text \<open>One round of the loop in \<open>process_packets_and_send_responses\<close>.\<close>

definition process_packet :: "bool \<Rightarrow> Session \<Rightarrow> bool option \<times> Session" where
  "process_packet at_once s =
     (case decode_one (readable_bytes (se_receive_buffer s)) of
        Inl e \<Rightarrow>
          if is_incomplete e then (Some True, s)
          else (Some False, stop_session protocol_error s)
      | Inr decoded \<Rightarrow> handle_packet at_once decoded s)"

text \<open>
  The loop; \<open>None\<close> would be a loop that never ends, and is shown not to occur. (A type that is
  not an enumerator would leave the switch without consuming anything; \<open>decode_one\<close> never
  returns one.)
\<close>

partial_function (option) process_packets_and_send_responses ::
  "bool \<Rightarrow> Session \<Rightarrow> (bool \<times> Session) option" where
  "process_packets_and_send_responses at_once s =
     (if ReceiveBuffer_empty (se_receive_buffer s) then Some (True, s)
      else
        case process_packet at_once s of
          (None, s') \<Rightarrow> process_packets_and_send_responses at_once s'
        | (Some should_continue, s') \<Rightarrow> Some (should_continue, s'))"

datatype read_result =
    Read_eof
  | Read_connection_reset
  | Read_operation_aborted
  | Read_error
  | Read_bytes "byte list"

text \<open>The body of the loop in \<open>run\<close>, from the completion of a read to the start of the next.\<close>

definition read_completed :: "growth \<Rightarrow> bool \<Rightarrow> read_result \<Rightarrow> Session \<Rightarrow> Session option" where
  "read_completed grow at_once result s =
     (let returned = (\<lambda>s. s\<lparr>se_reader := Reader_returned\<rparr>)
      in case result of
           Read_eof \<Rightarrow> Some (returned (stop_session client_closed s))
         | Read_connection_reset \<Rightarrow> Some (returned (stop_session client_closed s))
         | Read_operation_aborted \<Rightarrow>
             if se_stopped s then Some (returned s)
             else Some (returned (stop_session io_error s))
         | Read_error \<Rightarrow> Some (returned (stop_session io_error s))
         | Read_bytes read_chunk \<Rightarrow>
             (case ReceiveBuffer_append grow (se_receive_buffer s) read_chunk of
                Inl e \<Rightarrow> Some (returned (stop_session protocol_error s))
              | Inr buffer \<Rightarrow>
                  (case process_packets_and_send_responses at_once (s\<lparr>se_receive_buffer := buffer\<rparr>) of
                     None \<Rightarrow> None
                   | Some (should_continue, s') \<Rightarrow>
                       Some (if should_continue
                             then s'\<lparr>se_reader := if se_socket_open s' then Reading else Reading_closed\<rparr>
                             else returned s'))))"

section \<open>What the operations leave alone\<close>

lemma update_queue_metrics_frame [simp]:
  "se_socket_open (update_queue_metrics s) = se_socket_open s"
  "se_receive_buffer (update_queue_metrics s) = se_receive_buffer s"
  "se_outbound_queue (update_queue_metrics s) = se_outbound_queue s"
  "se_session_id (update_queue_metrics s) = se_session_id s"
  "se_room_worker (update_queue_metrics s) = se_room_worker s"
  "se_joined_room (update_queue_metrics s) = se_joined_room s"
  "se_write_in_progress (update_queue_metrics s) = se_write_in_progress s"
  "se_stopped (update_queue_metrics s) = se_stopped s"
  "se_reader (update_queue_metrics s) = se_reader s"
  "se_writer (update_queue_metrics s) = se_writer s"
  "se_posted (update_queue_metrics s) = se_posted s"
  by (simp_all add: update_queue_metrics_def)

lemma submit_room_command_frame [simp]:
  "se_socket_open (snd (submit_room_command c s)) = se_socket_open s"
  "se_receive_buffer (snd (submit_room_command c s)) = se_receive_buffer s"
  "se_outbound_queue (snd (submit_room_command c s)) = se_outbound_queue s"
  "se_session_id (snd (submit_room_command c s)) = se_session_id s"
  "se_metrics (snd (submit_room_command c s)) = se_metrics s"
  "se_joined_room (snd (submit_room_command c s)) = se_joined_room s"
  "se_write_in_progress (snd (submit_room_command c s)) = se_write_in_progress s"
  "se_stopped (snd (submit_room_command c s)) = se_stopped s"
  "se_reader (snd (submit_room_command c s)) = se_reader s"
  "se_writer (snd (submit_room_command c s)) = se_writer s"
  "se_posted (snd (submit_room_command c s)) = se_posted s"
  by (simp_all add: submit_room_command_def split: sum.split)

lemma leave_room_if_joined_frame [simp]:
  "se_socket_open (leave_room_if_joined r s) = se_socket_open s"
  "se_receive_buffer (leave_room_if_joined r s) = se_receive_buffer s"
  "se_outbound_queue (leave_room_if_joined r s) = se_outbound_queue s"
  "se_session_id (leave_room_if_joined r s) = se_session_id s"
  "se_metrics (leave_room_if_joined r s) = se_metrics s"
  "se_joined_room (leave_room_if_joined r s) = False"
  "se_write_in_progress (leave_room_if_joined r s) = se_write_in_progress s"
  "se_stopped (leave_room_if_joined r s) = se_stopped s"
  "se_reader (leave_room_if_joined r s) = se_reader s"
  "se_writer (leave_room_if_joined r s) = se_writer s"
  "se_posted (leave_room_if_joined r s) = se_posted s"
  by (simp_all add: leave_room_if_joined_def)

lemma stop_session_frame [simp]:
  "se_socket_open (stop_session r s) = (se_stopped s \<and> se_socket_open s)"
  "se_receive_buffer (stop_session r s) = se_receive_buffer s"
  "se_outbound_queue (stop_session r s) =
    (if se_stopped s then se_outbound_queue s else OutboundQueue_close (se_outbound_queue s))"
  "se_session_id (stop_session r s) = se_session_id s"
  "se_joined_room (stop_session r s) = (se_stopped s \<and> se_joined_room s)"
  "se_write_in_progress (stop_session r s) = se_write_in_progress s"
  "se_stopped (stop_session r s)"
  "se_reader (stop_session r s) = se_reader s"
  "se_writer (stop_session r s) = se_writer s"
  "se_posted (stop_session r s) = se_posted s"
  by (simp_all add: stop_session_def Let_def)

lemma stop_session_again: "se_stopped s \<Longrightarrow> stop_session r s = s"
  by (simp add: stop_session_def)

lemma writer_resume_frame [simp]:
  "se_socket_open (writer_resume s) = se_socket_open s"
  "se_receive_buffer (writer_resume s) = se_receive_buffer s"
  "se_session_id (writer_resume s) = se_session_id s"
  "se_room_worker (writer_resume s) = se_room_worker s"
  "se_joined_room (writer_resume s) = se_joined_room s"
  "se_stopped (writer_resume s) = se_stopped s"
  "se_reader (writer_resume s) = se_reader s"
  "se_posted (writer_resume s) = se_posted s"
  by (simp_all add: writer_resume_def Let_def split: prod.split)

lemma enqueue_outbound_frame [simp]:
  "se_receive_buffer (snd (enqueue_outbound at_once p s)) = se_receive_buffer s"
  "se_session_id (snd (enqueue_outbound at_once p s)) = se_session_id s"
  "se_reader (snd (enqueue_outbound at_once p s)) = se_reader s"
  "se_posted (snd (enqueue_outbound at_once p s)) = se_posted s"
  by (simp_all add: enqueue_outbound_def Let_def split: sum.split)

lemma deliver_frame [simp]:
  "se_receive_buffer (deliver p s) = se_receive_buffer s"
  "se_room_worker (deliver p s) = se_room_worker s"
  "se_session_id (deliver p s) = se_session_id s"
  "se_joined_room (deliver p s) = se_joined_room s"
  "se_reader (deliver p s) = se_reader s"
  by (simp_all add: deliver_def Let_def split: prod.split)

section \<open>The outbound side\<close>

abbreviation max_packet_size :: nat where
  "max_packet_size \<equiv> wire_header_size + unat max_payload_size"

fun in_flight :: "writer_state \<Rightarrow> SharedPacket list" where
  "in_flight (Writing packets batch) = packets"
| "in_flight _ = []"

text \<open>
  The invariant of the writing side: the queue is well formed and closed exactly when the
  session has stopped; no packet is larger than the protocol allows; and while the session
  runs, the flag says whether there is a writer and waiting packets have one.
\<close>

definition out_inv :: "Session \<Rightarrow> bool" where
  "out_inv s \<longleftrightarrow>
     oq_inv (se_outbound_queue s) \<and>
     oq_max_pending_bytes (se_outbound_queue s) = max_session_outbound_bytes \<and>
     oq_closed (se_outbound_queue s) = se_stopped s \<and>
     se_socket_open s = (\<not> se_stopped s) \<and>
     (\<forall>p\<in>set (oq_packets (se_outbound_queue s)). SharedPacket_size p \<le> max_packet_size) \<and>
     (\<forall>p\<in>fst ` set (se_posted s). SharedPacket_size p \<le> max_packet_size) \<and>
     (se_writer s \<noteq> No_writer \<longrightarrow> se_write_in_progress s) \<and>
     (\<not> se_stopped s \<longrightarrow> se_write_in_progress s \<longrightarrow> se_writer s \<noteq> No_writer) \<and>
     (oq_packets (se_outbound_queue s) \<noteq> [] \<longrightarrow> se_writer s \<noteq> No_writer) \<and>
     length (in_flight (se_writer s)) \<le> max_outbound_batch_packets \<and>
     bytes_of (in_flight (se_writer s)) \<le> max_packet_size"

lemma batch_bytes_size:
  assumes "oq_inv q" and "pop_batch q (replicate k None) limit = (n, batch, q')"
    and "limit \<le> max_packet_size"
    and "\<forall>p\<in>set (oq_packets q). SharedPacket_size p \<le> max_packet_size"
  shows "bytes_of (take n batch) \<le> max_packet_size" "length (take n batch) \<le> k"
proof -
  note facts = pop_batch_facts [OF assms(1,2)]
  show "length (take n batch) \<le> k" using facts(3,4) by simp
  consider "n = 0" | "n = 1" | "1 < n" by linarith
  then show "bytes_of (take n batch) \<le> max_packet_size"
  proof cases
    case 2
    with facts(2) assms(4) show ?thesis by (cases batch) auto
  next
    case 3
    from facts(7) [OF this] assms(3) show ?thesis by simp
  qed simp
qed

lemma Session_new_out_inv: "out_inv (Session_new grow i w ms)"
  by (simp add: out_inv_def Session_new_def OutboundQueue_new_inv OutboundQueue_new_def
      max_session_outbound_bytes_def oq_inv_def)

lemma stop_session_out_inv:
  assumes "oq_inv (se_outbound_queue s)"
    and "oq_max_pending_bytes (se_outbound_queue s) = max_session_outbound_bytes"
    and "oq_closed (se_outbound_queue s) = se_stopped s" "se_socket_open s = (\<not> se_stopped s)"
    and "\<forall>p\<in>fst ` set (se_posted s). SharedPacket_size p \<le> max_packet_size"
    and "se_writer s \<noteq> No_writer \<longrightarrow> se_write_in_progress s"
    and "length (in_flight (se_writer s)) \<le> max_outbound_batch_packets"
    and "bytes_of (in_flight (se_writer s)) \<le> max_packet_size"
  shows "out_inv (stop_session r s)"
proof (cases "se_stopped s")
  case True
  with assms(1,3) have "oq_packets (se_outbound_queue s) = []" by (simp add: oq_inv_def)
  with True assms show ?thesis by (simp add: out_inv_def)
next
  case False
  with assms show ?thesis by (simp add: out_inv_def OutboundQueue_close_inv)
qed

lemma writer_resume_running:
  assumes "\<not> se_stopped s"
    and "pop_batch (se_outbound_queue s) (replicate max_outbound_batch_packets None)
      max_outbound_batch_bytes = (n, batch, q)"
  shows "se_outbound_queue (writer_resume s) = q"
    "se_write_in_progress (writer_resume s) = (n \<noteq> 0 \<and> se_write_in_progress s)"
    "n = 0 \<Longrightarrow> se_writer (writer_resume s) = No_writer"
    "n \<noteq> 0 \<Longrightarrow> \<exists>wb. se_writer (writer_resume s) = Writing (take n batch) wb"
  using assms by (auto simp: writer_resume_def Let_def split: prod.split)

lemma writer_resume_out_inv:
  assumes "out_inv s" and "se_writer s \<noteq> No_writer"
  shows "out_inv (writer_resume s)"
proof (cases "se_stopped s")
  case True
  with assms show ?thesis by (auto simp: out_inv_def writer_resume_def oq_inv_def)
next
  case False
  obtain n batch q where
    pop: "pop_batch (se_outbound_queue s) (replicate max_outbound_batch_packets None)
      max_outbound_batch_bytes = (n, batch, q)"
    by (metis prod_cases3)
  have inv: "oq_inv (se_outbound_queue s)"
    "\<forall>p\<in>set (oq_packets (se_outbound_queue s)). SharedPacket_size p \<le> max_packet_size"
    using assms by (simp_all add: out_inv_def)
  note facts = pop_batch_facts [OF inv(1) pop]
  have size: "bytes_of (take n batch) \<le> max_packet_size" "length (take n batch) \<le> max_outbound_batch_packets"
    using batch_bytes_size [OF inv(1) pop _ inv(2)]
    by (simp_all add: max_outbound_batch_bytes_def wire_header_size_def)
  have rest: "\<forall>p\<in>set (oq_packets q). SharedPacket_size p \<le> max_packet_size"
    using inv(2) facts(2) by simp
  have "n = 0 \<longleftrightarrow> oq_packets (se_outbound_queue s) = []"
    unfolding facts(6) by (simp add: max_outbound_batch_packets_def max_outbound_batch_bytes_def)
  with facts(2) have none: "n = 0 \<Longrightarrow> oq_packets q = []" by (metis append_is_Nil_conv)
  note after = writer_resume_running [OF False pop]
  have outside: "oq_closed (se_outbound_queue s) = se_stopped s" "se_socket_open s = (\<not> se_stopped s)"
    "oq_max_pending_bytes (se_outbound_queue s) = max_session_outbound_bytes"
    "\<forall>p\<in>fst ` set (se_posted s). SharedPacket_size p \<le> max_packet_size" "se_write_in_progress s"
    using assms by (simp_all add: out_inv_def)
  show ?thesis
  proof (cases "n = 0")
    case True
    with after(3) none outside(4) show ?thesis
      by (simp add: out_inv_def after(1,2) facts(1,9,10) outside)
  next
    case False
    then obtain wb where "se_writer (writer_resume s) = Writing (take n batch) wb"
      using after(4) by blast
    with False rest size outside(4) show ?thesis
      by (simp add: out_inv_def after(1,2) facts(1,9,10) outside)
  qed
qed

lemma enqueue_outbound_out_inv:
  assumes "out_inv s" and "SharedPacket_size p \<le> max_packet_size"
  shows "out_inv (snd (enqueue_outbound at_once p s))"
proof (cases "se_stopped s")
  case True
  with assms show ?thesis by (simp add: enqueue_outbound_def)
next
  case running: False
  have inv: "oq_inv (se_outbound_queue s)" using assms by (simp add: out_inv_def)
  show ?thesis
  proof (cases "OutboundQueue_push (se_outbound_queue s) p")
    case (Inl e)
    have "out_inv (stop_session r (update_queue_metrics s))" for r
      by (rule stop_session_out_inv) (use assms(1) in \<open>simp_all add: out_inv_def\<close>)
    with Inl running show ?thesis by (simp add: enqueue_outbound_def Let_def)
  next
    case (Inr q)
    note facts = push_InrD [OF inv Inr]
    have accepted: "\<forall>p'\<in>set (oq_packets q). SharedPacket_size p' \<le> max_packet_size"
      using assms facts(2) by (auto simp: out_inv_def)
    define s1 where "s1 = update_queue_metrics (s\<lparr>se_outbound_queue := q\<rparr>)"
    have waiting: "out_inv s1" if "se_write_in_progress s"
      using that assms(1) running facts accepted by (auto simp: s1_def out_inv_def)
    have spawned: "out_inv (s1\<lparr>se_write_in_progress := True, se_writer := Writer_spawned\<rparr>)"
      using assms(1) running facts accepted by (simp add: s1_def out_inv_def)
    show ?thesis
      using Inr running waiting spawned writer_resume_out_inv [OF spawned]
      by (auto simp: enqueue_outbound_def Let_def s1_def)
  qed
qed

section \<open>Handling one packet\<close>

lemma submitted_frame:
  assumes "submit_room_command c s = (b, s')"
  shows "se_receive_buffer s' = se_receive_buffer s" "se_outbound_queue s' = se_outbound_queue s"
    "se_socket_open s' = se_socket_open s" "se_session_id s' = se_session_id s"
    "se_joined_room s' = se_joined_room s" "se_write_in_progress s' = se_write_in_progress s"
    "se_stopped s' = se_stopped s" "se_reader s' = se_reader s" "se_writer s' = se_writer s"
    "se_posted s' = se_posted s" "se_metrics s' = se_metrics s"
  using submit_room_command_frame [of c s] assms by simp_all

lemma enqueued_iff:
  assumes "out_inv s"
  shows "fst (enqueue_outbound at_once p s) \<longleftrightarrow> \<not> se_stopped (snd (enqueue_outbound at_once p s))"
proof (cases "se_stopped s")
  case False
  with assms show ?thesis
    by (auto simp: enqueue_outbound_def Let_def out_inv_def split: sum.split)
qed (simp add: enqueue_outbound_def)

text \<open>
  What handling a packet does to the reader's side: when the loop goes on, exactly the packet
  is consumed; when it does not, the session has stopped.
\<close>

definition reader_effect :: "byte list \<Rightarrow> Session \<Rightarrow> bool option \<Rightarrow> Session \<Rightarrow> bool" where
  "reader_effect p s r s' \<longleftrightarrow>
     (r = None \<longrightarrow> se_receive_buffer s' = ReceiveBuffer_consume (se_receive_buffer s) (6 + length p)
        \<and> se_stopped s' = se_stopped s)
     \<and> (r \<noteq> None \<longrightarrow> r = Some False \<and> se_stopped s')
     \<and> (se_receive_buffer s' = se_receive_buffer s \<or>
       se_receive_buffer s' = ReceiveBuffer_consume (se_receive_buffer s) (6 + length p))
     \<and> se_reader s' = se_reader s \<and> se_posted s' = se_posted s \<and> se_session_id s' = se_session_id s"

lemma handle_ping_reader:
  assumes "handle_ping at_once (view_of t p) s = (r, s')" "out_inv s"
  shows "reader_effect p s r s'"
proof (cases "encode_packet PacketType.ping p")
  case (Inl e)
  with assms(1) show ?thesis by (auto simp: handle_ping_def reader_effect_def)
next
  case (Inr response)
  define c where "c = consume_packet (view_of t p) s"
  have inv: "out_inv c" using assms(2) by (simp add: c_def out_inv_def consume_packet_def)
  obtain b s1 where enq: "enqueue_outbound at_once (make_shared_packet response) c = (b, s1)"
    by fastforce
  have c: "se_receive_buffer c = ReceiveBuffer_consume (se_receive_buffer s) (6 + length p)"
    "se_session_id c = se_session_id s" "se_reader c = se_reader s" "se_posted c = se_posted s"
    "se_stopped c = se_stopped s"
    by (simp_all add: c_def consume_packet_def)
  have result: "r = (if b then None else Some False)" "s' = s1"
    using assms(1) Inr enq by (simp_all add: handle_ping_def c_def)
  have "b \<longleftrightarrow> \<not> se_stopped s1" using enqueued_iff [OF inv] enq by (metis fst_conv snd_conv)
  moreover have "b \<Longrightarrow> \<not> se_stopped c" using enq by (auto simp: enqueue_outbound_def split: if_splits)
  ultimately show ?thesis
    using enqueue_outbound_frame [of at_once "make_shared_packet response" c] c
    by (auto simp: result enq reader_effect_def)
qed

lemma handle_packet_reader_effect:
  assumes "handle_packet at_once (view_of t p) s = (r, s')" "is_known t" "out_inv s"
  shows "reader_effect p s r s'"
proof (cases t)
  case ping
  with handle_ping_reader [OF _ assms(3), of at_once t p] assms(1) show ?thesis
    by (simp add: handle_packet_def)
next
  case join_room
  with assms(1) show ?thesis
    by (auto simp: reader_effect_def handle_packet_def handle_join_def reject_protocol_def consume_packet_def
        dest: submitted_frame split: if_splits prod.splits)
next
  case move
  with assms(1) show ?thesis
    by (auto simp: reader_effect_def handle_packet_def handle_move_def reject_protocol_def consume_packet_def
        dest: submitted_frame split: if_splits prod.splits sum.splits)
next
  case leave_room
  with assms(1) show ?thesis
    by (auto simp: reader_effect_def handle_packet_def handle_leave_def reject_protocol_def consume_packet_def
        split: if_splits)
next
  case (unlisted c)
  with assms(2) show ?thesis by simp
qed (use assms(1) in \<open>auto simp: reader_effect_def handle_packet_def reject_protocol_def\<close>)

lemma handle_packet_reader:
  assumes "handle_packet at_once (view_of t p) s = (r, s')" "is_known t" "out_inv s"
  shows "r = None \<Longrightarrow> se_receive_buffer s' = ReceiveBuffer_consume (se_receive_buffer s) (6 + length p)"
    and "r = None \<Longrightarrow> se_stopped s' = se_stopped s"
    and "r \<noteq> None \<Longrightarrow> r = Some False \<and> se_stopped s'"
    and "se_receive_buffer s' = se_receive_buffer s \<or>
      se_receive_buffer s' = ReceiveBuffer_consume (se_receive_buffer s) (6 + length p)"
    and "se_reader s' = se_reader s" and "se_posted s' = se_posted s"
    and "se_session_id s' = se_session_id s"
  using handle_packet_reader_effect [OF assms] unfolding reader_effect_def by blast+

lemma out_inv_updates [simp]:
  "out_inv (s\<lparr>se_receive_buffer := b\<rparr>) = out_inv s"
  "out_inv (s\<lparr>se_joined_room := j\<rparr>) = out_inv s"
  "out_inv (s\<lparr>se_room_worker := w\<rparr>) = out_inv s"
  "out_inv (s\<lparr>se_metrics := ms\<rparr>) = out_inv s"
  "out_inv (s\<lparr>se_reader := rd\<rparr>) = out_inv s"
  "out_inv (update_queue_metrics s) = out_inv s"
  "out_inv (snd (submit_room_command c s)) = out_inv s"
  "out_inv (leave_room_if_joined reason s) = out_inv s"
  "out_inv (consume_packet v s) = out_inv s"
  by (simp_all add: out_inv_def consume_packet_def)

lemma out_inv_stop: "out_inv s \<Longrightarrow> out_inv (stop_session r s)"
  by (rule stop_session_out_inv) (simp_all add: out_inv_def)

lemma submitted_out_inv: "submit_room_command c s = (b, s') \<Longrightarrow> out_inv s' = out_inv s"
  using out_inv_updates(7) [of c s] by simp

lemma handle_packet_out_inv:
  assumes "handle_packet at_once (view_of t p) s = (r, s')" "out_inv s" "length p \<le> 65536"
  shows "out_inv s'"
proof (cases t)
  case ping
  then show ?thesis
    using assms out_inv_stop [OF assms(2)]
      enqueue_outbound_out_inv [of "consume_packet (view_of t p) s" "Some (frame PacketType.ping p)" at_once]
    by (auto simp: handle_packet_def handle_ping_def encode_packet_cases make_shared_packet_def
        case_prod_beta Let_def split: if_splits)
next
  case join_room
  with assms(1,2) show ?thesis
    by (auto simp: handle_packet_def handle_join_def reject_protocol_def submitted_out_inv
        intro!: out_inv_stop split: if_splits prod.splits)
next
  case move
  with assms(1,2) show ?thesis
    by (auto simp: handle_packet_def handle_move_def reject_protocol_def submitted_out_inv
        intro!: out_inv_stop split: if_splits prod.splits sum.splits)
next
  case leave_room
  with assms(1,2) show ?thesis
    by (auto simp: handle_packet_def handle_leave_def reject_protocol_def
        intro!: out_inv_stop split: if_splits)
qed (use assms in \<open>auto simp: handle_packet_def reject_protocol_def intro!: out_inv_stop\<close>)

section \<open>The loop over the buffered packets\<close>

text \<open>
  The reference: the same reactions to a plain list of bytes, with the receive buffer taken out
  of the session. It returns whether to go on reading, the bytes left over, and the session.
\<close>

definition without_buffer :: "Session \<Rightarrow> Session" where
  "without_buffer s = s\<lparr>se_receive_buffer := ReceiveBuffer_new (\<lambda>_ required. required) 0 0\<rparr>"

function consume_stream :: "bool \<Rightarrow> byte list \<Rightarrow> Session \<Rightarrow> bool \<times> byte list \<times> Session" where
  "consume_stream at_once bytes s =
     (if bytes = [] then (True, [], s)
      else case decode_one bytes of
        Inl e \<Rightarrow>
          if is_incomplete e then (True, bytes, s) else (False, bytes, stop_session protocol_error s)
      | Inr decoded \<Rightarrow>
          (case handle_packet at_once decoded s of
             (None, s') \<Rightarrow> consume_stream at_once (drop (consumed_bytes decoded) bytes) (without_buffer s')
           | (Some should_continue, s') \<Rightarrow> (should_continue, bytes, without_buffer s')))"
  by pat_completeness auto
termination
  by (relation "measure (\<lambda>(a, bytes, s). length bytes)")
    (auto elim!: decode_one_InrE simp: wire_header_size_def)

declare consume_stream.simps [simp del]

lemma without_buffer_idem [simp]:
  "without_buffer (without_buffer s) = without_buffer s"
  "without_buffer (s\<lparr>se_receive_buffer := b\<rparr>) = without_buffer s"
  "without_buffer (consume_packet v s) = without_buffer s"
  "out_inv (without_buffer s) = out_inv s"
  by (simp_all add: without_buffer_def consume_packet_def)

lemma without_buffer_update_queue_metrics:
  "without_buffer (update_queue_metrics s) = update_queue_metrics (without_buffer s)"
  by (simp add: without_buffer_def update_queue_metrics_def)

lemma without_buffer_submit:
  "map_prod id without_buffer (submit_room_command c s) = submit_room_command c (without_buffer s)"
  by (simp add: without_buffer_def submit_room_command_def split: sum.split)

lemma without_buffer_leave:
  "without_buffer (leave_room_if_joined r s) = leave_room_if_joined r (without_buffer s)"
  by (simp add: leave_room_if_joined_def submit_room_command_def without_buffer_def split: sum.split)

lemma without_buffer_stop:
  "without_buffer (stop_session r s) = stop_session r (without_buffer s)"
  by (simp add: stop_session_def leave_room_if_joined_def submit_room_command_def without_buffer_def
      update_queue_metrics_def Let_def split: sum.split)

lemma without_buffer_writer_resume:
  "without_buffer (writer_resume s) = writer_resume (without_buffer s)"
  by (simp add: writer_resume_def without_buffer_def update_queue_metrics_def Let_def
      split: prod.split)

lemma without_buffer_enqueue:
  "map_prod id without_buffer (enqueue_outbound at_once p s) = enqueue_outbound at_once p (without_buffer s)"
proof -
  have upd: "without_buffer (s\<lparr>se_outbound_queue := q\<rparr>) = (without_buffer s)\<lparr>se_outbound_queue := q\<rparr>"
    "without_buffer (s\<lparr>se_write_in_progress := b, se_writer := w\<rparr>) =
      (without_buffer s)\<lparr>se_write_in_progress := b, se_writer := w\<rparr>"
    "se_stopped (without_buffer s) = se_stopped s"
    "se_write_in_progress (without_buffer s) = se_write_in_progress s"
    "se_outbound_queue (without_buffer s) = se_outbound_queue s" for s q b w
    by (simp_all add: without_buffer_def)
  show ?thesis
    by (simp add: enqueue_outbound_def Let_def upd without_buffer_stop without_buffer_writer_resume
        without_buffer_update_queue_metrics split: sum.split)
qed

lemma handle_packet_without_buffer:
  "map_prod id without_buffer (handle_packet at_once v (without_buffer s)) =
    map_prod id without_buffer (handle_packet at_once v s)"
proof -
  have fields: "se_joined_room (without_buffer s) = se_joined_room s"
    "se_session_id (without_buffer s) = se_session_id s" for s
    by (simp_all add: without_buffer_def)
  have joined: "without_buffer (s\<lparr>se_joined_room := j\<rparr>) = (without_buffer s)\<lparr>se_joined_room := j\<rparr>" for s j
    by (simp add: without_buffer_def)
  have submitted: "\<exists>s2. submit_room_command c (without_buffer s) = (b, s2) \<and> s2 = without_buffer s1"
    if "submit_room_command c s = (b, s1)" for c b s1
    using without_buffer_submit [of c s] that by simp
  have submit: "map_prod id without_buffer (case submit_room_command c (without_buffer s) of
        (b, s1) \<Rightarrow> if \<not> b then (Some False, stop_session r s1) else (None, consume_packet v (f s1))) =
      map_prod id without_buffer (case submit_room_command c s of
        (b, s1) \<Rightarrow> if \<not> b then (Some False, stop_session r s1) else (None, consume_packet v (f s1)))"
    if "\<And>s. without_buffer (f (without_buffer s)) = without_buffer (f s)" for c r f
    by (cases "submit_room_command c s")
      (use submitted [of c] that in \<open>auto simp: without_buffer_stop\<close>)
  have ping: "map_prod id without_buffer (handle_ping at_once v (without_buffer s)) =
      map_prod id without_buffer (handle_ping at_once v s)"
  proof (cases "encode_packet PacketType.ping (payload v)")
    case (Inr response)
    obtain b s1 where enq: "enqueue_outbound at_once (make_shared_packet response) (consume_packet v s) = (b, s1)"
      by fastforce
    obtain b' s1' where enq': "enqueue_outbound at_once (make_shared_packet response)
        (consume_packet v (without_buffer s)) = (b', s1')"
      by fastforce
    have "map_prod id without_buffer (b', s1') = map_prod id without_buffer (b, s1)"
      using without_buffer_enqueue [of at_once "make_shared_packet response" "consume_packet v s"]
        without_buffer_enqueue [of at_once "make_shared_packet response" "consume_packet v (without_buffer s)"]
      by (simp add: enq enq')
    then show ?thesis by (simp add: handle_ping_def Inr enq enq')
  qed (simp add: handle_ping_def without_buffer_stop)
  show ?thesis
    using ping submit [of "\<lambda>s. s\<lparr>se_joined_room := True\<rparr>"] submit [of "\<lambda>s. s"]
    by (auto simp: handle_packet_def handle_join_def handle_move_def handle_leave_def fields
        reject_protocol_def without_buffer_stop without_buffer_leave joined Let_def
        split: PacketType.split sum.split)
qed

text \<open>
  The loop does what the reference does with the readable bytes, and it ends. When it asks for
  more input, what is left in the buffer is what the reference left over.
\<close>

definition loop_refines :: "bool \<Rightarrow> Session \<Rightarrow> bool" where
  "loop_refines at_once s \<longleftrightarrow>
    (\<exists>b s'. process_packets_and_send_responses at_once s = Some (b, s')
    \<and> rb_inv (se_receive_buffer s')
    \<and> rb_max_buffered_bytes (se_receive_buffer s') = rb_max_buffered_bytes (se_receive_buffer s)
    \<and> (\<exists>rest. consume_stream at_once (readable_bytes (se_receive_buffer s)) (without_buffer s) =
        (b, rest, without_buffer s') \<and>
        (b \<longrightarrow> readable_bytes (se_receive_buffer s') = rest \<and> length rest < max_packet_size
          \<and> se_stopped s' = se_stopped s))
    \<and> (\<not> b \<longrightarrow> se_stopped s'))"

lemma loop_refines_end:
  assumes "rb_inv (se_receive_buffer s)"
    and "readable_bytes (se_receive_buffer s) = [] \<or> decode_one (readable_bytes (se_receive_buffer s)) = Inl e"
  shows "loop_refines at_once s"
proof (cases "readable_bytes (se_receive_buffer s) = []")
  case True
  with assms(1) show ?thesis unfolding loop_refines_def
    by (subst process_packets_and_send_responses.simps, subst consume_stream.simps)
      (auto simp: ReceiveBuffer_empty_readable wire_header_size_def)
next
  case False
  with assms(2) have Inl: "decode_one (readable_bytes (se_receive_buffer s)) = Inl e" by blast
  with False assms(1) incomplete_length [OF Inl] show ?thesis unfolding loop_refines_def
    by (subst process_packets_and_send_responses.simps, subst consume_stream.simps)
      (auto simp: ReceiveBuffer_empty_readable process_packet_def without_buffer_stop wire_header_size_def)
qed

text \<open>One packet more: the loop and the reference handle it alike.\<close>

lemma loop_step:
  assumes "rb_inv (se_receive_buffer s)" "readable_bytes (se_receive_buffer s) \<noteq> []"
    and "decode_one (readable_bytes (se_receive_buffer s)) = Inr v" "handle_packet at_once v s = (r, s1)"
  shows "process_packets_and_send_responses at_once s = (case r of
        None \<Rightarrow> process_packets_and_send_responses at_once s1 | Some b \<Rightarrow> Some (b, s1))"
    and "consume_stream at_once (readable_bytes (se_receive_buffer s)) (without_buffer s) = (case r of
        None \<Rightarrow> consume_stream at_once (drop (consumed_bytes v) (readable_bytes (se_receive_buffer s))) (without_buffer s1)
      | Some b \<Rightarrow> (b, readable_bytes (se_receive_buffer s), without_buffer s1))"
proof -
  obtain s2 where abstract: "handle_packet at_once v (without_buffer s) = (r, s2)"
    "without_buffer s2 = without_buffer s1"
    using handle_packet_without_buffer [of at_once v s] assms(4)
    by (cases "handle_packet at_once v (without_buffer s)") auto
  show "process_packets_and_send_responses at_once s = (case r of
        None \<Rightarrow> process_packets_and_send_responses at_once s1 | Some b \<Rightarrow> Some (b, s1))"
    using assms by (subst process_packets_and_send_responses.simps)
      (simp add: ReceiveBuffer_empty_readable process_packet_def split: option.split)
  show "consume_stream at_once (readable_bytes (se_receive_buffer s)) (without_buffer s) = (case r of
        None \<Rightarrow> consume_stream at_once (drop (consumed_bytes v) (readable_bytes (se_receive_buffer s))) (without_buffer s1)
      | Some b \<Rightarrow> (b, readable_bytes (se_receive_buffer s), without_buffer s1))"
    using assms(2,3) by (subst consume_stream.simps) (simp add: abstract split: option.split)
qed

lemma loop_refines_packet:
  assumes "rb_inv (se_receive_buffer s)" "out_inv s" "readable_bytes (se_receive_buffer s) \<noteq> []"
    and decoded: "decode_one (readable_bytes (se_receive_buffer s)) = Inr v"
    and rest: "\<And>s1. length (readable_bytes (se_receive_buffer s1)) < length (readable_bytes (se_receive_buffer s)) \<Longrightarrow>
      rb_inv (se_receive_buffer s1) \<Longrightarrow> out_inv s1 \<Longrightarrow> loop_refines at_once s1"
  shows "loop_refines at_once s"
proof -
  let ?bytes = "readable_bytes (se_receive_buffer s)"
  obtain t p more where frame: "?bytes = frame t p @ more" "is_known t" "length p \<le> 65536"
    and v: "v = view_of t p"
    using decoded by (rule decode_one_InrE)
  obtain r s1 where handled: "handle_packet at_once v s = (r, s1)" by fastforce
  note reader = handle_packet_reader [OF handled [unfolded v] frame(2) assms(2)]
  note step = loop_step [OF assms(1,3) decoded handled]
  have len: "6 + length p \<le> length ?bytes" by (simp add: frame(1) wire_header_size_def)
  note consumed = consume_facts [OF assms(1) len]
  show ?thesis
  proof (cases r)
    case None
    have s1: "se_receive_buffer s1 = ReceiveBuffer_consume (se_receive_buffer s) (6 + length p)"
      "se_stopped s1 = se_stopped s" "out_inv s1"
      using reader(1,2) None handle_packet_out_inv [OF handled [unfolded v] assms(2) frame(3)] by auto
    have buffer: "rb_inv (se_receive_buffer s1)" "readable_bytes (se_receive_buffer s1) = drop (6 + length p) ?bytes"
      "rb_max_buffered_bytes (se_receive_buffer s1) = rb_max_buffered_bytes (se_receive_buffer s)"
      unfolding s1(1) by (rule consumed)+
    have "length (readable_bytes (se_receive_buffer s1)) < length ?bytes" using assms(3) by (simp add: buffer(2))
    from rest [OF this buffer(1) s1(3)] show ?thesis
      unfolding loop_refines_def buffer(2,3) s1(2) step None option.case v view_of_simps .
  next
    case (Some b)
    with reader(3) have stop: "b = False" "se_stopped s1" by simp_all
    have "rb_inv (se_receive_buffer s1)"
      "rb_max_buffered_bytes (se_receive_buffer s1) = rb_max_buffered_bytes (se_receive_buffer s)"
      using reader(4) assms(1) consumed(1,3) by metis+
    then show ?thesis
      unfolding loop_refines_def step Some option.case by (intro exI [of _ False]) (simp add: stop)
  qed
qed

lemma process_packets_refines:
  assumes "rb_inv (se_receive_buffer s)" "out_inv s"
  shows "loop_refines at_once s"
  using assms
proof (induction "length (readable_bytes (se_receive_buffer s))" arbitrary: s rule: less_induct)
  case less
  show ?case
  proof (cases "decode_one (readable_bytes (se_receive_buffer s))")
    case (Inr v)
    then have "readable_bytes (se_receive_buffer s) \<noteq> []" by (auto simp: decode_one_short)
    from loop_refines_packet [OF less.prems this Inr less.hyps] show ?thesis .
  qed (use loop_refines_end less.prems(1) in blast)
qed

lemma handle_packet_Some: "handle_packet at_once v s = (Some b, s') \<Longrightarrow> \<not> b"
  by (auto simp: handle_packet_def handle_ping_def handle_join_def handle_move_def handle_leave_def
      reject_protocol_def Let_def
      split: PacketType.splits sum.splits prod.splits if_splits)

text \<open>Where the stream is cut is immaterial: a verdict on a packet needs no bytes behind it.\<close>

lemma consume_stream_append:
  "consume_stream at_once (xs @ ys) s =
    (case consume_stream at_once xs s of
       (True, rest, s') \<Rightarrow> consume_stream at_once (rest @ ys) s'
     | (False, rest, s') \<Rightarrow> (False, rest @ ys, s'))"
proof (induction at_once xs s rule: consume_stream.induct)
  case (1 at_once xs s)
  show ?case
  proof (cases "xs = []")
    case True
    then show ?thesis by (simp add: consume_stream.simps [of at_once "[]"])
  next
    case nonempty: False
    show ?thesis
    proof (cases "decode_one xs")
      case (Inl e)
      show ?thesis
      proof (cases "is_incomplete e")
        case True
        with Inl nonempty have "consume_stream at_once xs s = (True, xs, s)"
          by (simp add: consume_stream.simps [of at_once xs s])
        then show ?thesis by simp
      next
        case False
        with Inl decode_one_append [of xs ys] have "decode_one (xs @ ys) = Inl e" by simp
        with Inl False nonempty show ?thesis
          by (simp add: consume_stream.simps [of at_once xs s] consume_stream.simps [of at_once "xs @ ys" s])
      qed
    next
      case (Inr v)
      with decode_one_append [of xs ys] have more: "decode_one (xs @ ys) = Inr v" by simp
      from Inr have len: "consumed_bytes v \<le> length xs"
        by (auto elim!: decode_one_InrE simp: wire_header_size_def)
      obtain r s1 where handled: "handle_packet at_once v s = (r, s1)" by fastforce
      show ?thesis
      proof (cases r)
        case None
        with "1.IH" [OF nonempty Inr handled [symmetric]] nonempty Inr more len handled show ?thesis
          by (simp add: consume_stream.simps [of at_once xs s] consume_stream.simps [of at_once "xs @ ys" s])
      next
        case (Some b)
        with handled have "\<not> b" by (auto dest: handle_packet_Some)
        with Some nonempty Inr more handled show ?thesis
          by (simp add: consume_stream.simps [of at_once xs s] consume_stream.simps [of at_once "xs @ ys" s])
      qed
    qed
  qed
qed

section \<open>Reads\<close>

definition recv_inv :: "Session \<Rightarrow> bool" where
  "recv_inv s \<longleftrightarrow>
     rb_inv (se_receive_buffer s) \<and>
     rb_max_buffered_bytes (se_receive_buffer s) = max_session_buffer_size \<and>
     (se_reader s \<noteq> Reader_returned \<longrightarrow>
        length (readable_bytes (se_receive_buffer s)) < max_packet_size)"

text \<open>A read that fills at most the chunk always fits, and the loop handles it.\<close>

lemma read_bytes_effect:
  assumes "recv_inv s" "out_inv s" "se_reader s \<noteq> Reader_returned" "length bytes \<le> tcp_read_chunk_size"
  obtains buffer b s1 rest where
    "ReceiveBuffer_append grow (se_receive_buffer s) bytes = Inr buffer"
    "process_packets_and_send_responses at_once (s\<lparr>se_receive_buffer := buffer\<rparr>) = Some (b, s1)"
    "read_completed grow at_once (Read_bytes bytes) s =
      Some (s1\<lparr>se_reader := if \<not> b then Reader_returned
                            else if se_socket_open s1 then Reading else Reading_closed\<rparr>)"
    "consume_stream at_once (readable_bytes (se_receive_buffer s) @ bytes) (without_buffer s) =
      (b, rest, without_buffer s1)"
    "b \<Longrightarrow> readable_bytes (se_receive_buffer s1) = rest \<and> length rest < max_packet_size
      \<and> se_stopped s1 = se_stopped s"
    "\<not> b \<Longrightarrow> se_stopped s1"
    "rb_inv (se_receive_buffer s1)"
    "rb_max_buffered_bytes (se_receive_buffer s1) = max_session_buffer_size"
proof -
  have fits: "length (readable_bytes (se_receive_buffer s)) + length bytes
      \<le> ReceiveBuffer_max_size (se_receive_buffer s)"
    using assms by (simp add: recv_inv_def ReceiveBuffer_max_size_def max_session_buffer_size_def)
  from assms(1) have inv: "rb_inv (se_receive_buffer s)" by (simp add: recv_inv_def)
  from rb.append_fits [OF inv fits, of grow] obtain buffer where
    buffer: "ReceiveBuffer_append grow (se_receive_buffer s) bytes = Inr buffer" "rb_inv buffer"
      "readable_bytes buffer = readable_bytes (se_receive_buffer s) @ bytes"
      "rb_max_buffered_bytes buffer = max_session_buffer_size"
    using assms(1) by (auto simp: recv_inv_def ReceiveBuffer_max_size_def)
  let ?s = "s\<lparr>se_receive_buffer := buffer\<rparr>"
  obtain b s1 rest where loop: "process_packets_and_send_responses at_once ?s = Some (b, s1)"
    "rb_inv (se_receive_buffer s1)"
    "rb_max_buffered_bytes (se_receive_buffer s1) = max_session_buffer_size"
    "consume_stream at_once (readable_bytes (se_receive_buffer s) @ bytes) (without_buffer s) =
      (b, rest, without_buffer s1)"
    "b \<longrightarrow> readable_bytes (se_receive_buffer s1) = rest \<and> length rest < max_packet_size
      \<and> se_stopped s1 = se_stopped s" "\<not> b \<longrightarrow> se_stopped s1"
    using process_packets_refines [of ?s at_once] buffer assms(2) unfolding loop_refines_def by auto
  have "read_completed grow at_once (Read_bytes bytes) s =
      Some (s1\<lparr>se_reader := if \<not> b then Reader_returned
                            else if se_socket_open s1 then Reading else Reading_closed\<rparr>)"
    by (simp add: read_completed_def buffer(1) loop(1) Let_def)
  from that [OF buffer(1) loop(1) this loop(4) _ _ loop(2,3)] loop(5,6) show ?thesis by blast
qed

text \<open>
  The rule for proofs about a stream: \<open>P\<close> holds before every packet, and from it \<open>Q\<close> follows
  wherever the loop ends. What every reaction keeps is the case in which both are the same.
\<close>

lemma consume_stream_rule:
  assumes "consume_stream at_once bytes s = (b, rest, s')" and "P s"
    and "\<And>s. P s \<Longrightarrow> Q True s" and "\<And>s. P s \<Longrightarrow> Q False (stop_session protocol_error s)"
    and "\<And>t p s s'. is_known t \<Longrightarrow> length p \<le> 65536 \<Longrightarrow>
      handle_packet at_once (view_of t p) s = (None, s') \<Longrightarrow> P s \<Longrightarrow> P (without_buffer s')"
    and "\<And>t p s b s'. is_known t \<Longrightarrow> length p \<le> 65536 \<Longrightarrow>
      handle_packet at_once (view_of t p) s = (Some b, s') \<Longrightarrow> P s \<Longrightarrow> Q b (without_buffer s')"
  shows "Q b s'"
  using assms
proof (induction at_once bytes s arbitrary: b rest rule: consume_stream.induct)
  case (1 at_once bytes s)
  note unfolded = "1.prems"(1) [unfolded consume_stream.simps [of at_once bytes s]]
  show ?case
  proof (cases "bytes = [] \<or> (\<exists>e. decode_one bytes = Inl e)")
    case True
    with unfolded "1.prems"(2-4) show ?thesis by (auto split: if_splits)
  next
    case False
    then obtain v where v: "decode_one bytes = Inr v" by (cases "decode_one bytes") auto
    then obtain t p where view: "v = view_of t p" "is_known t" "length p \<le> 65536"
      by (rule decode_one_InrE)
    obtain r s1 where handled: "handle_packet at_once v s = (r, s1)" by fastforce
    show ?thesis
    proof (cases r)
      case None
      have rec: "consume_stream at_once (drop (consumed_bytes v) bytes) (without_buffer s1) = (b, rest, s')"
        using unfolded False v handled None by simp
      have P: "P (without_buffer s1)"
        using "1.prems"(5) [OF view(2,3) _ "1.prems"(2)] handled None view(1) by blast
      show ?thesis
      proof (rule "1.IH" [OF _ v handled [symmetric] None rec P])
        show "bytes \<noteq> []" using False by blast
      qed (rule "1.prems"(3-6); assumption)+
    next
      case (Some c)
      with unfolded False v handled have "b = c" "s' = without_buffer s1" by simp_all
      with "1.prems"(6) [OF view(2,3) _ "1.prems"(2)] handled Some view(1) show ?thesis by blast
    qed
  qed
qed

lemma consume_stream_keeps:
  assumes "consume_stream at_once bytes s = (b, rest, s')" and "P s"
    and "\<And>s. P s \<Longrightarrow> P (stop_session protocol_error s)"
    and "\<And>t p s r s'. is_known t \<Longrightarrow> length p \<le> 65536 \<Longrightarrow>
      handle_packet at_once (view_of t p) s = (r, s') \<Longrightarrow> P s \<Longrightarrow> P (without_buffer s')"
  shows "P s'"
  using consume_stream_rule [of at_once bytes s b rest s' P "\<lambda>_. P"] assms by blast

section \<open>The commands of a session\<close>

abbreviation command_queue :: "Session \<Rightarrow> RoomCommand CloseableQueue" where
  "command_queue s \<equiv> rw_commands (se_room_worker s)"

text \<open>
  The order a room expects of one player: join, any number of moves, leave, and again. \<open>seat\<close>
  runs through commands and says whether the player is in the room at the end, \<open>None\<close> if a
  command is out of order or another player's.
\<close>

fun seat :: "SessionId \<Rightarrow> RoomCommand list \<Rightarrow> bool \<Rightarrow> bool option" where
  "seat i [] joined = Some joined"
| "seat i (JoinCommand j # cs) joined = (if j = i \<and> \<not> joined then seat i cs True else None)"
| "seat i (MoveCommand j _ # cs) joined = (if j = i \<and> joined then seat i cs True else None)"
| "seat i (LeaveCommand j _ # cs) joined = (if j = i \<and> joined then seat i cs False else None)"

lemma seat_append: "seat i (cs @ ds) joined = Option.bind (seat i cs joined) (seat i ds)"
proof (induction cs arbitrary: joined)
  case (Cons c cs)
  then show ?case by (cases c) auto
qed simp

text \<open>
  \<open>follows s cs s'\<close>: from \<open>s\<close> to \<open>s'\<close> the session has put \<open>cs\<close> into the worker's queue and nothing
  else happened to it; they continue the order, and \<open>joined_room_\<close> keeps account of it. A closed
  queue accepts nothing, and then nobody joins.
\<close>

definition follows :: "Session \<Rightarrow> RoomCommand list \<Rightarrow> Session \<Rightarrow> bool" where
  "follows s cs s' \<longleftrightarrow>
     se_room_worker s' = (se_room_worker s)
       \<lparr>rw_commands := (command_queue s)\<lparr>cq_values := cq_values (command_queue s) @ cs\<rparr>\<rparr> \<and>
     se_session_id s' = se_session_id s \<and>
     (if cq_closed (command_queue s) then cs = [] \<and> (se_joined_room s' \<longrightarrow> se_joined_room s)
      else seat (se_session_id s) cs (se_joined_room s) = Some (se_joined_room s'))"

lemma follows_trans: "follows s cs s1 \<Longrightarrow> follows s1 ds s2 \<Longrightarrow> follows s (cs @ ds) s2"
  by (auto simp: follows_def seat_append split: if_splits)

lemma follows_quiet:
  "se_room_worker s' = se_room_worker s \<Longrightarrow> se_session_id s' = se_session_id s \<Longrightarrow>
    se_joined_room s' = se_joined_room s \<Longrightarrow> follows s [] s'"
  by (simp add: follows_def)

lemma submit_room_command_eq:
  "submit_room_command c s =
    (if cq_closed (command_queue s) then (False, s)
     else (True, s\<lparr>se_room_worker := (se_room_worker s)
       \<lparr>rw_commands := (command_queue s)\<lparr>cq_values := cq_values (command_queue s) @ [c]\<rparr>\<rparr>\<rparr>))"
  by (simp add: submit_room_command_def RoomWorker_submit_def CloseableQueue_push_def)

lemma leave_room_follows:
  "follows s (if se_joined_room s \<and> \<not> cq_closed (command_queue s)
     then [LeaveCommand (se_session_id s) r] else []) (leave_room_if_joined r s)"
  by (simp add: follows_def leave_room_if_joined_def submit_room_command_eq)

lemma stop_session_worker:
  "se_room_worker (stop_session r s) =
    (if se_stopped s then se_room_worker s
     else se_room_worker (leave_room_if_joined r (s\<lparr>se_stopped := True\<rparr>)))"
  by (simp add: stop_session_def Let_def)

lemma stop_session_follows:
  "follows s (if \<not> se_stopped s \<and> se_joined_room s \<and> \<not> cq_closed (command_queue s)
     then [LeaveCommand (se_session_id s) r] else []) (stop_session r s)"
proof (cases "se_stopped s")
  case True
  then show ?thesis by (simp add: stop_session_def follows_def)
next
  case False
  with leave_room_follows [of "s\<lparr>se_stopped := True\<rparr>" r] show ?thesis
    by (simp add: follows_def stop_session_worker)
qed

lemma writer_resume_follows: "follows s [] (writer_resume s)"
  by (rule follows_quiet) simp_all

lemma enqueue_outbound_follows: "\<exists>cs. follows s cs (snd (enqueue_outbound at_once p s))"
proof (cases "se_stopped s \<or> is_ok (OutboundQueue_push (se_outbound_queue s) p)")
  case True
  then have "follows s [] (snd (enqueue_outbound at_once p s))"
    by (intro follows_quiet) (auto simp: enqueue_outbound_def Let_def split: sum.split)
  then show ?thesis ..
next
  case False
  then obtain e where "\<not> se_stopped s" "OutboundQueue_push (se_outbound_queue s) p = Inl e"
    by (cases "OutboundQueue_push (se_outbound_queue s) p") auto
  moreover have "follows s [] (update_queue_metrics s)" by (rule follows_quiet) simp_all
  then have "\<exists>cs. follows s cs (stop_session reason (update_queue_metrics s))" for reason
    using follows_trans [OF _ stop_session_follows] by blast
  ultimately show ?thesis by (simp add: enqueue_outbound_def Let_def)
qed

lemma consume_packet_follows: "follows s cs s1 \<Longrightarrow> follows s cs (consume_packet v s1)"
  by (simp add: follows_def consume_packet_def)

lemma submitted_follows:
  assumes "submit_room_command c s = (b, s1)"
    and "seat (se_session_id s) [c] (se_joined_room s) = Some j"
  shows "b \<Longrightarrow> follows s [c] (s1\<lparr>se_joined_room := j\<rparr>)" "\<not> b \<Longrightarrow> follows s [] s1"
  using assms by (auto simp: submit_room_command_eq follows_def split: if_splits)

lemma handle_move_follows:
  assumes "submit_room_command (MoveCommand (se_session_id s) d) s = (b, s1)" "se_joined_room s"
    and "(if \<not> b then (Some False, stop_session server_shutdown s1) else (None, consume_packet v s1)) = (r, s')"
  shows "\<exists>cs. follows s cs s'"
proof (cases b)
  case True
  have "se_joined_room s1" using assms(1,2) submitted_frame(5) by blast
  then have "s1\<lparr>se_joined_room := True\<rparr> = s1" by simp
  with True assms submitted_follows(1) [OF assms(1), of True] show ?thesis
    by (auto intro: consume_packet_follows)
next
  case False
  with assms submitted_follows(2) [OF assms(1), of True] show ?thesis
    using follows_trans [OF _ stop_session_follows] by fastforce
qed

lemma handle_packet_follows:
  assumes "handle_packet at_once v s = (r, s')"
  shows "\<exists>cs. follows s cs s'"
proof -
  have reject: "\<exists>cs. follows s cs (stop_session reason s)" for reason
    using stop_session_follows by blast
  show ?thesis
  proof (cases "packet_type (header v)")
    case ping
    have start: "follows s [] (consume_packet v s)" by (simp add: follows_def consume_packet_def)
    have "\<exists>cs. follows s cs (snd (enqueue_outbound at_once p (consume_packet v s)))" for p
      using follows_trans [OF start] enqueue_outbound_follows [of "consume_packet v s"] by blast
    with ping assms reject show ?thesis
      by (auto simp: handle_packet_def handle_ping_def case_prod_beta Let_def split: sum.splits)
  next
    case join_room
    have "\<exists>cs. follows s cs s'" if "submit_room_command (JoinCommand (se_session_id s)) s = (b, s1)"
      "\<not> se_joined_room s"
      "(if \<not> b then (Some False, stop_session server_shutdown s1)
        else (None, consume_packet v (s1\<lparr>se_joined_room := True\<rparr>))) = (r, s')" for b s1
      using that submitted_follows [OF that(1)] follows_trans [OF _ stop_session_follows]
      by (fastforce intro: consume_packet_follows split: if_splits)
    with join_room assms reject show ?thesis
      by (auto simp: handle_packet_def handle_join_def reject_protocol_def split: if_splits prod.splits)
  next
    case move
    with assms reject handle_move_follows show ?thesis
      by (fastforce simp: handle_packet_def handle_move_def reject_protocol_def split: if_splits prod.splits sum.splits)
  next
    case leave_room
    with assms reject consume_packet_follows [OF leave_room_follows] show ?thesis
      by (auto simp: handle_packet_def handle_leave_def reject_protocol_def split: if_splits)
  next
    case (unlisted c)
    with assms show ?thesis by (auto simp: handle_packet_def intro: follows_quiet)
  qed (use assms reject in \<open>auto simp: handle_packet_def reject_protocol_def\<close>)
qed

end
