(* ===== verification/Session_Run.thy ===== *)
theory Session_Run
  imports Session
begin

text \<open>
  Runs of a session: the handlers of \<open>Session\<close> in every order in which the socket, the executor
  and the other threads can bring them, as a step relation. The invariants are proved by
  induction over the runs, and the properties of a session follow from them.
\<close>

section \<open>Gauges\<close>

text \<open>
  The session's gauges say what is there: the packets and bytes waiting in the queue, those
  being written, and those in posted handlers. The guards hold the metrics they report to.
\<close>

fun queue_gauge :: "metrics_pair option \<Rightarrow> OutboundQueue \<Rightarrow> bool" where
  "queue_gauge None q = True"
| "queue_gauge (Some (m, sm)) q \<longleftrightarrow>
     queued_packets sm = of_nat (length (oq_packets q)) \<and>
     queued_bytes sm = of_nat (oq_pending_bytes q)"

fun holds_metrics :: "writer_state \<Rightarrow> bool" where
  "holds_metrics (Writing packets batch) = wb_metrics batch"
| "holds_metrics _ = True"

fun flight_gauge :: "metrics_pair option \<Rightarrow> writer_state \<Rightarrow> bool" where
  "flight_gauge None writer = True"
| "flight_gauge (Some (m, sm)) writer \<longleftrightarrow>
     inflight_packets sm = of_nat (length (in_flight writer)) \<and>
     inflight_bytes sm = of_nat (bytes_of (in_flight writer)) \<and> holds_metrics writer"

fun post_gauge :: "metrics_pair option \<Rightarrow> (SharedPacket \<times> PendingDelivery) list \<Rightarrow> bool" where
  "post_gauge None posted = True"
| "post_gauge (Some (m, sm)) posted \<longleftrightarrow>
     posted_jobs sm = of_nat (length posted) \<and>
     posted_bytes sm = of_nat (bytes_of (map fst posted)) \<and>
     (\<forall>(packet, pending)\<in>set posted.
        pd_metrics pending \<and> pd_bytes pending = of_nat (SharedPacket_size packet))"

definition gauges_exact :: "Session \<Rightarrow> bool" where
  "gauges_exact s \<longleftrightarrow> queue_gauge (se_metrics s) (se_outbound_queue s) \<and>
     flight_gauge (se_metrics s) (se_writer s) \<and> post_gauge (se_metrics s) (se_posted s)"

lemma gauges_updates [simp]:
  "gauges_exact (s\<lparr>se_receive_buffer := b\<rparr>) = gauges_exact s"
  "gauges_exact (s\<lparr>se_joined_room := j\<rparr>) = gauges_exact s"
  "gauges_exact (s\<lparr>se_room_worker := w\<rparr>) = gauges_exact s"
  "gauges_exact (s\<lparr>se_reader := rd\<rparr>) = gauges_exact s"
  "gauges_exact (s\<lparr>se_stopped := st\<rparr>) = gauges_exact s"
  "gauges_exact (s\<lparr>se_socket_open := op\<rparr>) = gauges_exact s"
  "gauges_exact (s\<lparr>se_write_in_progress := wip\<rparr>) = gauges_exact s"
  by (simp_all add: gauges_exact_def)

lemma update_queue_metrics_gauges:
  "gauges_exact (update_queue_metrics s) \<longleftrightarrow>
    flight_gauge (se_metrics s) (se_writer s) \<and> post_gauge (se_metrics s) (se_posted s)"
  by (cases "se_metrics s")
    (auto simp: gauges_exact_def update_queue_metrics_def OutboundQueue_pending_packets_def)

lemma submit_gauges [simp]: "gauges_exact (snd (submit_room_command c s)) = gauges_exact s"
  by (simp add: submit_room_command_eq)

lemma leave_gauges [simp]: "gauges_exact (leave_room_if_joined r s) = gauges_exact s"
  by (simp add: leave_room_if_joined_def)

lemma consume_gauges [simp]: "gauges_exact (consume_packet v s) = gauges_exact s"
  by (simp add: consume_packet_def)

lemma overflow_gauges:
  "gauges_exact (s\<lparr>se_metrics := map_option SessionMetrics_outbound_overflow (se_metrics s)\<rparr>) =
    gauges_exact s"
  by (cases "se_metrics s") (auto simp: gauges_exact_def)

lemma stop_session_gauges:
  assumes "gauges_exact s" shows "gauges_exact (stop_session r s)"
proof (cases "se_stopped s")
  case False
  define s1 where "s1 = leave_room_if_joined r (s\<lparr>se_stopped := True\<rparr>)"
  define s2 where "s2 = update_queue_metrics
    (s1\<lparr>se_outbound_queue := OutboundQueue_close (se_outbound_queue s1)\<rparr>)"
  have "gauges_exact s1" using assms by (simp add: s1_def)
  then have "gauges_exact s2"
    unfolding s2_def update_queue_metrics_gauges by (simp add: gauges_exact_def)
  then show ?thesis
    using False overflow_gauges [of s2]
    by (simp add: stop_session_def Let_def s1_def [symmetric] s2_def [symmetric])
qed (use assms in \<open>simp add: stop_session_def\<close>)

lemma foldl_size_add:
  "n + bytes_of ps < 2 ^ 64 \<Longrightarrow> foldl (\<lambda>n p. size_add n (SharedPacket_size p)) n ps = n + bytes_of ps"
  by (induction ps arbitrary: n) (simp_all add: size_add_def add.assoc)

lemma start_batch_gauges:
  assumes "start_batch (of_nat (length packets)) (of_nat (bytes_of packets)) metrics = (batch, metrics')"
    and "queue_gauge metrics q" "post_gauge metrics posted"
  shows "queue_gauge metrics' q" "flight_gauge metrics' (Writing packets batch)" "post_gauge metrics' posted"
  using assms by (cases metrics; auto simp: start_batch_def WriteBatch_new_def)+

lemma writer_resume_gauges:
  assumes "gauges_exact (s\<lparr>se_writer := No_writer\<rparr>)" "out_inv s"
  shows "gauges_exact (writer_resume s)"
proof (cases "se_stopped s")
  case True
  with assms show ?thesis by (simp add: writer_resume_def gauges_exact_def)
next
  case False
  obtain n batch q where
    pop: "pop_batch (se_outbound_queue s) (replicate max_outbound_batch_packets None)
      max_outbound_batch_bytes = (n, batch, q)"
    by (metis prod_cases3)
  define s1 where "s1 = update_queue_metrics (s\<lparr>se_outbound_queue := q\<rparr>)"
  have s1: "gauges_exact (s1\<lparr>se_writer := No_writer\<rparr>)"
  proof -
    have "s1\<lparr>se_writer := No_writer\<rparr> =
        update_queue_metrics (s\<lparr>se_outbound_queue := q, se_writer := No_writer\<rparr>)"
      by (simp add: s1_def update_queue_metrics_def)
    with assms(1) show ?thesis by (simp only: update_queue_metrics_gauges) (simp add: gauges_exact_def)
  qed
  have inv: "oq_inv (se_outbound_queue s)"
    "\<forall>p\<in>set (oq_packets (se_outbound_queue s)). SharedPacket_size p \<le> max_packet_size"
    using assms(2) by (simp_all add: out_inv_def)
  have size: "bytes_of (take n batch) \<le> max_packet_size" "length (take n batch) = n"
    using batch_bytes_size(1) [OF inv(1) pop _ inv(2)] pop_batch_facts(3,4) [OF inv(1) pop]
    by (simp_all add: max_outbound_batch_bytes_def wire_header_size_def)
  then have bytes: "foldl (\<lambda>n p. size_add n (SharedPacket_size p)) 0 (take n batch) = bytes_of (take n batch)"
    using foldl_size_add [of 0 "take n batch"] by (simp add: wire_header_size_def)
  obtain wb metrics where started:
    "start_batch (of_nat (length (take n batch))) (of_nat (bytes_of (take n batch))) (se_metrics s1) = (wb, metrics)"
    by fastforce
  have "writer_resume s =
      (if n = 0 then s1\<lparr>se_write_in_progress := False, se_writer := No_writer\<rparr>
       else s1\<lparr>se_metrics := metrics, se_writer := Writing (take n batch) wb\<rparr>)"
    using False pop started size(2) by (simp add: writer_resume_def s1_def bytes)
  moreover have "gauges_exact (s1\<lparr>se_metrics := metrics, se_writer := Writing (take n batch) wb\<rparr>)"
    using start_batch_gauges [OF started] s1 by (auto simp: gauges_exact_def)
  ultimately show ?thesis using s1 by (simp add: gauges_exact_def)
qed

lemma enqueue_outbound_gauges:
  assumes "gauges_exact s" "out_inv s" "SharedPacket_size p \<le> max_packet_size"
  shows "gauges_exact (snd (enqueue_outbound at_once p s))"
proof (cases "se_stopped s")
  case False
  show ?thesis
  proof (cases "OutboundQueue_push (se_outbound_queue s) p")
    case (Inl e)
    have "gauges_exact (update_queue_metrics s)"
      using assms(1) unfolding update_queue_metrics_gauges by (simp add: gauges_exact_def)
    with Inl False show ?thesis by (simp add: enqueue_outbound_def Let_def stop_session_gauges)
  next
    case (Inr q)
    define s1 where "s1 = update_queue_metrics (s\<lparr>se_outbound_queue := q\<rparr>)"
    define s2 where "s2 = s1\<lparr>se_write_in_progress := True, se_writer := Writer_spawned\<rparr>"
    have s1: "gauges_exact s1"
      using assms(1) unfolding s1_def update_queue_metrics_gauges by (simp add: gauges_exact_def)
    have result: "snd (enqueue_outbound at_once p s) =
        (if se_write_in_progress s then s1 else if at_once then writer_resume s2 else s2)"
      using Inr False by (simp add: enqueue_outbound_def Let_def s1_def s2_def)
    show ?thesis
    proof (cases "se_write_in_progress s")
      case True
      with s1 show ?thesis by (simp add: result)
    next
      case idle: False
      with False assms(2) have none: "se_writer s = No_writer" by (auto simp: out_inv_def)
      then have s2: "gauges_exact (s2\<lparr>se_writer := w\<rparr>)" if "in_flight w = []" "holds_metrics w" for w
        using s1 that by (cases "se_metrics s1") (auto simp: gauges_exact_def s2_def s1_def)
      have "snd (enqueue_outbound False p s) = s2"
        using Inr False idle by (simp add: enqueue_outbound_def Let_def s1_def s2_def)
      with enqueue_outbound_out_inv [OF assms(2,3), of False] have "out_inv s2" by simp
      with writer_resume_gauges [OF s2 [of No_writer]] have "gauges_exact (writer_resume s2)" by simp
      moreover have "gauges_exact s2" using s2 [of Writer_spawned] by (simp add: s2_def)
      ultimately show ?thesis by (simp add: result idle)
    qed
  qed
qed (use assms in \<open>simp add: enqueue_outbound_def\<close>)

lemma handle_packet_gauges:
  assumes "handle_packet at_once (view_of t p) s = (r, s')" "out_inv s" "length p \<le> 65536" "gauges_exact s"
  shows "gauges_exact s'"
proof -
  have stop: "gauges_exact (stop_session reason s1)" if "submit_room_command c s = (b, s1)" for reason c b s1
    using stop_session_gauges submit_gauges [of c s] assms(4) that by simp
  have same: "gauges_exact s1" if "submit_room_command c s = (b, s1)" for c b s1
    using submit_gauges [of c s] assms(4) that by simp
  note stops = stop_session_gauges [OF assms(4)]
  show ?thesis
  proof (cases t)
    case ping
    have "gauges_exact (snd (enqueue_outbound at_once (Some (frame PacketType.ping p))
        (consume_packet (view_of t p) s)))"
      by (rule enqueue_outbound_gauges) (use assms in simp_all)
    with ping assms(1) stops show ?thesis
      by (auto simp: handle_packet_def handle_ping_def encode_packet_cases make_shared_packet_def
          case_prod_beta Let_def split: if_splits)
  next
    case join_room
    with assms(1) stops stop same show ?thesis
      by (auto simp: handle_packet_def handle_join_def reject_protocol_def split: if_splits prod.splits)
  next
    case move
    with assms(1) stops stop same show ?thesis
      by (auto simp: handle_packet_def handle_move_def reject_protocol_def
          split: if_splits prod.splits sum.splits)
  next
    case leave_room
    with assms(1,4) stops show ?thesis
      by (auto simp: handle_packet_def handle_leave_def reject_protocol_def split: if_splits)
  qed (use assms stops in \<open>auto simp: handle_packet_def reject_protocol_def\<close>)
qed

section \<open>The invariant and the steps\<close>

definition session_inv :: "Session \<Rightarrow> bool" where
  "session_inv s \<longleftrightarrow> recv_inv s \<and> out_inv s \<and> gauges_exact s"

text \<open>
  What a pending read can deliver: anything but bytes when the socket was closed before the
  read was started. Closing the socket does not undo a read that has completed already, so
  one read of a stopped session may still deliver bytes.
\<close>

fun read_possible :: "Session \<Rightarrow> read_result \<Rightarrow> bool" where
  "read_possible s (Read_bytes bytes) \<longleftrightarrow>
     se_reader s = Reading \<and> bytes \<noteq> [] \<and> length bytes \<le> tcp_read_chunk_size"
| "read_possible s _ \<longleftrightarrow> se_reader s \<noteq> Reader_returned"

definition new_commands :: "Session \<Rightarrow> Session \<Rightarrow> RoomCommand list" where
  "new_commands s s' = drop (length (cq_values (command_queue s))) (cq_values (command_queue s'))"

text \<open>The handlers of the session itself, as the socket and the executor bring them.\<close>

inductive session_handler :: "growth \<Rightarrow> Session \<Rightarrow> Session \<Rightarrow> bool" for grow where
  handler_read: "read_possible s result \<Longrightarrow> read_completed grow at_once result s = Some s' \<Longrightarrow>
    session_handler grow s s'"
| handler_writer_starts: "se_writer s = Writer_spawned \<Longrightarrow> session_handler grow s (writer_resume s)"
| handler_write_completed: "se_writer s = Writing packets batch \<Longrightarrow>
    session_handler grow s (write_completed transferred write_error s)"
| handler_writer_threw: "se_writer s \<noteq> No_writer \<Longrightarrow> session_handler grow s (writer_threw s)"
| handler_run_posted: "se_posted s \<noteq> [] \<Longrightarrow> session_handler grow s (run_posted at_once s)"
| handler_drop_posted: "se_posted s \<noteq> [] \<Longrightarrow> session_handler grow s (drop_posted s)"

text \<open>
  A step with the commands the session submits in it: a handler, a delivery from the room
  worker's thread, or a step of the rest of the program, in which other threads use the room
  worker's queue, which stays closed once it is, and other sessions change the totals of the
  server's metrics.
\<close>

inductive session_step :: "growth \<Rightarrow> Session \<Rightarrow> RoomCommand list \<Rightarrow> Session \<Rightarrow> bool" for grow where
  step_handler: "session_handler grow s s' \<Longrightarrow> session_step grow s (new_commands s s') s'"
| step_deliver: "encode_room_event event = Inr packet \<Longrightarrow>
    session_step grow s [] (deliver packet s)"
| step_room_worker: "(cq_closed (command_queue s) \<longrightarrow> cq_closed (rw_commands w)) \<Longrightarrow>
    session_step grow s [] (s\<lparr>se_room_worker := w\<rparr>)"
| step_server_metrics: "se_metrics s = Some (m, sm) \<Longrightarrow>
    session_step grow s [] (s\<lparr>se_metrics := Some (m', sm)\<rparr>)"

inductive session_run :: "growth \<Rightarrow> Session \<Rightarrow> RoomCommand list \<Rightarrow> Session \<Rightarrow> bool" for grow where
  run_start: "session_run grow s [] s"
| run_step: "session_run grow s cs s1 \<Longrightarrow> session_step grow s1 ds s2 \<Longrightarrow>
    session_run grow s (cs @ ds) s2"

lemma follows_new_commands: "follows s cs s' \<Longrightarrow> new_commands s s' = cs"
  by (simp add: new_commands_def follows_def)

lemma Session_new_inv:
  assumes "gauges_exact (Session_new grow i w metrics)"
  shows "session_inv (Session_new grow i w metrics)"
  using assms Session_new_out_inv [of grow i w metrics]
    ReceiveBuffer_new_inv [of max_session_buffer_size grow "4 * 1024"]
  by (simp add: session_inv_def recv_inv_def Session_new_def max_session_buffer_size_def
      tcp_read_chunk_size_def wire_header_size_def)

text \<open>A session that starts with fresh metrics, as \<open>run_session\<close> makes it.\<close>

lemma Session_new_fresh_inv:
  "session_inv (Session_new grow i w (map_option (\<lambda>m. (m, (SessionMetrics_new n)\<lparr>sm_tracked := t\<rparr>)) m))"
  by (rule Session_new_inv)
    (cases m; simp add: gauges_exact_def Session_new_def OutboundQueue_new_def SessionMetrics_new_def)

section \<open>Every step keeps the invariant\<close>

lemma consume_stream_session:
  assumes "consume_stream at_once bytes (without_buffer s) = (b, rest, without_buffer s1)"
    and "out_inv s" "gauges_exact s"
  shows "out_inv s1 \<and> gauges_exact s1 \<and> (\<exists>cs. follows s cs s1) \<and> se_reader s1 = se_reader s"
proof -
  let ?P = "\<lambda>s'. out_inv s' \<and> gauges_exact s' \<and> (\<exists>cs. follows (without_buffer s) cs s')
    \<and> se_reader s' = se_reader s"
  have wb: "follows x cs (without_buffer y) = follows x cs y"
    "follows (without_buffer x) cs y = follows x cs y" "gauges_exact (without_buffer x) = gauges_exact x"
    "se_reader (without_buffer x) = se_reader x" for x y cs
    by (simp_all add: follows_def without_buffer_def)
  have "?P (without_buffer s1)"
    using assms(1)
  proof (rule consume_stream_keeps)
    show "?P (without_buffer s)"
      using assms by (auto simp: wb intro!: exI [of _ "[]"] follows_quiet)
  next
    fix s' assume "?P s'"
    then show "?P (stop_session protocol_error s')"
      using out_inv_stop stop_session_gauges follows_trans [OF _ stop_session_follows]
      by (auto simp: wb) blast
  next
    fix t p s1 r s2
    assume "is_known t" "length p \<le> 65536" "handle_packet at_once (view_of t p) s1 = (r, s2)" "?P s1"
    then show "?P (without_buffer s2)"
      using handle_packet_out_inv handle_packet_gauges handle_packet_follows
        handle_packet_reader(5) [of at_once t p s1 r s2]
      by (auto simp: wb) (metis follows_trans)
  qed
  then show ?thesis by (simp add: wb)
qed

lemma follows_reader [simp]: "follows s cs (s'\<lparr>se_reader := rd\<rparr>) = follows s cs s'"
  by (simp add: follows_def)

lemma read_completed_session:
  assumes "session_inv s" "read_possible s result"
  shows "\<exists>s'. read_completed grow at_once result s = Some s' \<and> session_inv s' \<and> (\<exists>cs. follows s cs s')"
proof -
  have inv: "recv_inv s" "out_inv s" "gauges_exact s" using assms(1) by (simp_all add: session_inv_def)
  have returned: "session_inv (s'\<lparr>se_reader := Reader_returned\<rparr>) \<and>
      (\<exists>cs. follows s cs (s'\<lparr>se_reader := Reader_returned\<rparr>))"
    if "s' = s \<or> s' = stop_session reason s" for s' reason
  proof -
    have "\<exists>cs. follows s cs s'" using that stop_session_follows follows_quiet [of s s] by blast
    then show ?thesis
      using that inv out_inv_stop stop_session_gauges by (auto simp: session_inv_def recv_inv_def)
  qed
  show ?thesis
  proof (cases result)
    case (Read_bytes bytes)
    with assms(2) have rd: "se_reader s \<noteq> Reader_returned" "length bytes \<le> tcp_read_chunk_size"
      by simp_all
    obtain b s1 rest where read:
      "read_completed grow at_once (Read_bytes bytes) s =
        Some (s1\<lparr>se_reader := if \<not> b then Reader_returned
                              else if se_socket_open s1 then Reading else Reading_closed\<rparr>)"
      "consume_stream at_once (readable_bytes (se_receive_buffer s) @ bytes) (without_buffer s) =
        (b, rest, without_buffer s1)"
      "b \<Longrightarrow> readable_bytes (se_receive_buffer s1) = rest \<and> length rest < max_packet_size
        \<and> se_stopped s1 = se_stopped s"
      "rb_inv (se_receive_buffer s1)"
      "rb_max_buffered_bytes (se_receive_buffer s1) = max_session_buffer_size"
      by (rule read_bytes_effect [OF inv(1,2) rd, of grow at_once]) blast
    from consume_stream_session [OF read(2) inv(2,3)] read(3-5) show ?thesis
      by (auto simp: Read_bytes read(1) session_inv_def recv_inv_def)
  qed (use returned in \<open>auto simp: read_completed_def Let_def\<close>)
qed

lemma recv_inv_cong:
  "se_receive_buffer s' = se_receive_buffer s \<Longrightarrow> se_reader s' = se_reader s \<Longrightarrow> recv_inv s' = recv_inv s"
  by (simp add: recv_inv_def)

lemma batch_over_gauges:
  assumes "flight_gauge metrics (Writing packets batch)" "queue_gauge metrics q" "post_gauge metrics posted"
  defines "complete \<equiv> \<lambda>transferred failed.
    map_option (\<lambda>ms. snd (WriteBatch_complete transferred failed batch ms)) metrics"
    and "destroyed \<equiv> map_option (WriteBatch_destroy batch) metrics"
  shows "flight_gauge (complete transferred failed) No_writer" "queue_gauge (complete transferred failed) q"
    "post_gauge (complete transferred failed) posted"
    "flight_gauge destroyed No_writer" "queue_gauge destroyed q" "post_gauge destroyed posted"
  using assms(1-3)
  by (cases metrics; auto simp: complete_def destroyed_def WriteBatch_complete_def WriteBatch_destroy_def)+

text \<open>The writer ends by stopping the session, whatever is left in the queue.\<close>

lemma stop_without_writer:
  assumes "out_inv s" "recv_inv s" "gauges_exact (s\<lparr>se_metrics := metrics, se_writer := No_writer\<rparr>)"
  shows "session_inv (stop_session r (s\<lparr>se_metrics := metrics, se_write_in_progress := wip, se_writer := No_writer\<rparr>))"
proof -
  let ?s = "s\<lparr>se_metrics := metrics, se_write_in_progress := wip, se_writer := No_writer\<rparr>"
  have "out_inv (stop_session r ?s)"
    by (rule stop_session_out_inv) (use assms(1) in \<open>simp_all add: out_inv_def\<close>)
  moreover have "gauges_exact ?s" using assms(3) by (simp add: gauges_exact_def)
  moreover have "recv_inv (stop_session r ?s) = recv_inv s" by (rule recv_inv_cong) simp_all
  ultimately show ?thesis using assms(2) by (simp add: session_inv_def stop_session_gauges)
qed

lemma write_completed_inv:
  assumes "session_inv s" "se_writer s = Writing packets batch"
  shows "session_inv (write_completed transferred write_error s)"
proof -
  define metrics where "metrics =
    map_option (\<lambda>ms. snd (WriteBatch_complete transferred write_error batch ms)) (se_metrics s)"
  have inv: "recv_inv s" "out_inv s" "gauges_exact s" using assms(1) by (simp_all add: session_inv_def)
  have over: "gauges_exact (s\<lparr>se_metrics := metrics, se_writer := No_writer\<rparr>)"
    using inv(3) batch_over_gauges(1-3) [of "se_metrics s" packets batch]
    by (auto simp: gauges_exact_def assms(2) metrics_def)
  show ?thesis
  proof (cases write_error)
    case True
    with stop_without_writer [OF inv(2,1) over] show ?thesis
      by (simp add: write_completed_def assms(2) metrics_def)
  next
    case False
    let ?s = "s\<lparr>se_metrics := metrics\<rparr>"
    have "out_inv (writer_resume ?s)" by (rule writer_resume_out_inv) (use inv assms in simp_all)
    moreover have "gauges_exact (writer_resume ?s)"
      by (rule writer_resume_gauges) (use over inv in simp_all)
    moreover have "recv_inv (writer_resume ?s) = recv_inv s" by (rule recv_inv_cong) simp_all
    ultimately show ?thesis
      using False inv by (simp add: write_completed_def assms(2) session_inv_def metrics_def)
  qed
qed

lemma writer_threw_inv:
  assumes "session_inv s"
  shows "session_inv (writer_threw s)"
proof -
  have inv: "recv_inv s" "out_inv s" "gauges_exact s" using assms(1) by (simp_all add: session_inv_def)
  define metrics where "metrics = (case se_writer s of
      Writing packets batch \<Rightarrow> map_option (WriteBatch_destroy batch) (se_metrics s) | _ \<Rightarrow> se_metrics s)"
  have over: "gauges_exact (s\<lparr>se_metrics := metrics, se_writer := No_writer\<rparr>)"
  proof (cases "se_writer s")
    case (Writing packets batch)
    with inv(3) batch_over_gauges(4-6) [of "se_metrics s" packets batch] show ?thesis
      by (auto simp: gauges_exact_def metrics_def)
  qed (use inv(3) in \<open>cases "se_metrics s"; auto simp: gauges_exact_def metrics_def\<close>)+
  have "writer_threw s =
      stop_session io_error (s\<lparr>se_metrics := metrics, se_write_in_progress := se_write_in_progress s,
        se_writer := No_writer\<rparr>)"
    by (cases "se_writer s") (simp_all add: writer_threw_def metrics_def)
  then show ?thesis using stop_without_writer [OF inv(2,1) over] by presburger
qed

lemma event_packet_bound:
  "encode_room_event ev = Inr p \<Longrightarrow> SharedPacket_size p \<le> max_packet_size"
  using event_packet_size [of ev] by (auto simp: encode_room_event_eq wire_header_size_def)

lemma deliver_inv:
  assumes "session_inv s" "SharedPacket_size p \<le> max_packet_size"
  shows "session_inv (deliver p s)"
proof -
  have inv: "recv_inv s" "out_inv s" "gauges_exact s" using assms(1) by (simp_all add: session_inv_def)
  have "recv_inv (deliver p s) = recv_inv s" by (rule recv_inv_cong) simp_all
  moreover have "out_inv (deliver p s)"
    using inv(2) assms(2) by (auto simp: deliver_def out_inv_def Let_def split: prod.split)
  moreover have "gauges_exact (deliver p s)"
    using inv(3) by (cases "se_metrics s")
      (auto simp: deliver_def gauges_exact_def PendingDelivery_new_def PendingDelivery_move_def)
  ultimately show ?thesis using inv by (simp add: session_inv_def)
qed

text \<open>A posted handler is taken out of the executor, run or not.\<close>

lemma unpost_inv:
  assumes "session_inv s" "se_posted s = (p, d) # posted"
    and "metrics = map_option (\<lambda>ms. snd (PendingDelivery_begin d ms)) (se_metrics s) \<or>
      metrics = map_option (PendingDelivery_destroy d) (se_metrics s)"
  shows "session_inv (s\<lparr>se_posted := posted, se_metrics := metrics\<rparr>)"
    "SharedPacket_size p \<le> max_packet_size"
proof -
  have inv: "recv_inv s" "out_inv s" "gauges_exact s" using assms(1) by (simp_all add: session_inv_def)
  show "SharedPacket_size p \<le> max_packet_size" using inv(2) assms(2) by (simp add: out_inv_def)
  have "gauges_exact (s\<lparr>se_posted := posted, se_metrics := metrics\<rparr>)"
    using inv(3) assms(2,3)
    by (cases "se_metrics s")
      (auto simp: gauges_exact_def PendingDelivery_begin_def PendingDelivery_destroy_def)
  moreover have "out_inv (s\<lparr>se_posted := posted, se_metrics := metrics\<rparr>)"
    using inv(2) assms(2) by (simp add: out_inv_def)
  ultimately show "session_inv (s\<lparr>se_posted := posted, se_metrics := metrics\<rparr>)"
    using inv(1) by (simp add: session_inv_def recv_inv_def)
qed

lemma run_posted_inv:
  assumes "session_inv s"
  shows "session_inv (run_posted at_once s)"
proof (cases "se_posted s")
  case (Cons j posted)
  obtain p d where j: "j = (p, d)" by fastforce
  let ?s = "s\<lparr>se_posted := posted,
    se_metrics := map_option (\<lambda>ms. snd (PendingDelivery_begin d ms)) (se_metrics s)\<rparr>"
  note unposted = unpost_inv [OF assms Cons [unfolded j] disjI1 [OF refl]]
  have inv: "recv_inv ?s" "out_inv ?s" "gauges_exact ?s" using unposted(1) by (simp_all add: session_inv_def)
  have "recv_inv (snd (enqueue_outbound at_once p ?s)) = recv_inv ?s" by (rule recv_inv_cong) simp_all
  with inv enqueue_outbound_out_inv [OF inv(2) unposted(2)] enqueue_outbound_gauges [OF inv(3,2) unposted(2)]
  show ?thesis by (simp add: run_posted_def Cons j session_inv_def)
qed (use assms in \<open>simp add: run_posted_def\<close>)

lemma drop_posted_inv:
  assumes "session_inv s"
  shows "session_inv (drop_posted s)"
proof (cases "se_posted s")
  case (Cons j posted)
  with unpost_inv(1) [OF assms _ disjI2 [OF refl]] show ?thesis
    by (cases j) (simp add: drop_posted_def)
qed (use assms in \<open>simp add: drop_posted_def\<close>)

lemma session_handler_inv: "session_handler grow s s' \<Longrightarrow> session_inv s \<Longrightarrow> session_inv s'"
proof (induction rule: session_handler.induct)
  case (handler_read s result at_once s')
  then show ?case using read_completed_session [of s result grow at_once] by simp
next
  case (handler_writer_starts s)
  then have "gauges_exact (s\<lparr>se_writer := No_writer\<rparr>)"
    by (cases "se_metrics s") (auto simp: session_inv_def gauges_exact_def)
  moreover have "recv_inv (writer_resume s) = recv_inv s" by (rule recv_inv_cong) simp_all
  ultimately show ?case
    using handler_writer_starts writer_resume_out_inv writer_resume_gauges by (simp add: session_inv_def)
qed (simp_all add: write_completed_inv writer_threw_inv run_posted_inv drop_posted_inv)

lemma session_step_inv: "session_step grow s cs s' \<Longrightarrow> session_inv s \<Longrightarrow> session_inv s'"
proof (induction rule: session_step.induct)
  case (step_server_metrics s m sm m')
  then show ?case by (simp add: session_inv_def gauges_exact_def recv_inv_def)
next
  case (step_room_worker s w)
  then show ?case by (simp add: session_inv_def recv_inv_def)
next
  case (step_deliver event packet s)
  then show ?case by (blast intro: deliver_inv event_packet_bound)
qed (rule session_handler_inv)

lemma session_run_inv: "session_run grow s cs s' \<Longrightarrow> session_inv s \<Longrightarrow> session_inv s'"
  by (induction rule: session_run.induct) (simp_all add: session_step_inv)

section \<open>The commands of a run\<close>

lemma writer_end_follows:
  assumes "se_room_worker s1 = se_room_worker s" "se_session_id s1 = se_session_id s"
    "se_joined_room s1 = se_joined_room s"
  shows "\<exists>cs. follows s cs (stop_session r s1)"
  using follows_trans [OF follows_quiet [OF assms] stop_session_follows] by blast

lemma write_completed_follows: "\<exists>cs. follows s cs (write_completed transferred write_error s)"
proof (cases "se_writer s")
  case (Writing packets batch)
  have "\<exists>cs. follows s cs (writer_resume s1)" if "se_room_worker s1 = se_room_worker s"
    "se_session_id s1 = se_session_id s" "se_joined_room s1 = se_joined_room s" for s1
    using follows_trans [OF follows_quiet [OF that] writer_resume_follows] by blast
  with Writing writer_end_follows show ?thesis by (simp add: write_completed_def Let_def)
qed (auto simp: write_completed_def intro: follows_quiet)

lemma writer_threw_follows: "\<exists>cs. follows s cs (writer_threw s)"
  unfolding writer_threw_def by (rule writer_end_follows) (simp_all split: writer_state.split)

lemma run_posted_follows: "\<exists>cs. follows s cs (run_posted at_once s)"
proof (cases "se_posted s")
  case (Cons j posted)
  obtain p d where j: "j = (p, d)" by fastforce
  let ?s = "s\<lparr>se_posted := posted,
    se_metrics := map_option (\<lambda>ms. snd (PendingDelivery_begin d ms)) (se_metrics s)\<rparr>"
  have "follows s [] ?s" by (rule follows_quiet) simp_all
  with enqueue_outbound_follows [of ?s at_once p] show ?thesis
    by (auto simp: run_posted_def Cons j dest: follows_trans)
qed (auto simp: run_posted_def intro: follows_quiet)

lemma session_handler_follows:
  assumes "session_handler grow s s'" "session_inv s"
  shows "follows s (new_commands s s') s'"
proof -
  have "\<exists>cs. follows s cs s'"
    using assms
  proof (induction rule: session_handler.induct)
    case (handler_read s result at_once s')
    then show ?case using read_completed_session [of s result grow at_once] by auto
  next
    case (handler_writer_starts s)
    then show ?case using writer_resume_follows by blast
  next
    case (handler_drop_posted s)
    have "follows s [] (drop_posted s)"
      by (rule follows_quiet) (simp_all add: drop_posted_def split: list.split prod.split)
    then show ?case ..
  qed (use write_completed_follows writer_threw_follows run_posted_follows in blast)+
  then show ?thesis using follows_new_commands by blast
qed

text \<open>A step continues the order of the session's commands, or is a step of the others.\<close>

lemma session_step_follows:
  assumes "session_step grow s cs s'" "session_inv s"
  shows "follows s cs s' \<or>
    cs = [] \<and> se_session_id s' = se_session_id s \<and> se_joined_room s' = se_joined_room s
    \<and> (cq_closed (command_queue s) \<longrightarrow> cq_closed (command_queue s'))"
  using assms by (induction rule: session_step.induct) (simp_all add: session_handler_follows)

lemma session_run_seat:
  assumes "session_run grow s cs s'" "session_inv s"
  shows "se_session_id s' = se_session_id s \<and>
    (\<exists>j. seat (se_session_id s) cs (se_joined_room s) = Some j \<and>
      (cq_closed (command_queue s') \<or> j = se_joined_room s'))"
  using assms
proof (induction rule: session_run.induct)
  case (run_step s cs s1 ds s2)
  then obtain j where IH: "se_session_id s1 = se_session_id s"
    "seat (se_session_id s) cs (se_joined_room s) = Some j"
    "cq_closed (command_queue s1) \<or> j = se_joined_room s1"
    by blast
  have "session_inv s1" using run_step session_run_inv by blast
  from session_step_follows [OF run_step(2) this] IH show ?case
    by (auto simp: seat_append follows_def split: if_splits)
qed simp

section \<open>A read that brings one packet\<close>

lemma without_buffer_fields:
  assumes "without_buffer s = without_buffer s'"
  shows "se_socket_open s = se_socket_open s'" "se_outbound_queue s = se_outbound_queue s'"
    "se_session_id s = se_session_id s'" "se_room_worker s = se_room_worker s'"
    "se_metrics s = se_metrics s'" "se_joined_room s = se_joined_room s'"
    "se_write_in_progress s = se_write_in_progress s'" "se_stopped s = se_stopped s'"
    "se_reader s = se_reader s'" "se_writer s = se_writer s'" "se_posted s = se_posted s'"
  using assms by (cases s; cases s'; simp add: without_buffer_def)+

lemma without_buffer_reader:
  "without_buffer (s\<lparr>se_reader := rd\<rparr>) = (without_buffer s)\<lparr>se_reader := rd\<rparr>"
  by (simp add: without_buffer_def)

lemma frame_nonempty: "frame t p \<noteq> []"
  by (metis length_frame list.size(3) add_is_0 wire_header_size_def zero_neq_numeral)

lemma consume_stream_frame:
  assumes "is_known t" "length p \<le> 65536" "handle_packet at_once (view_of t p) s = (None, s1)"
  shows "consume_stream at_once (frame t p) s = (True, [], without_buffer s1)"
proof -
  have "decode_one (frame t p) = Inr (view_of t p)"
    using decode_one_frame [OF assms(1,2), of "[]"] by simp
  moreover note frame_nonempty [of t p]
  ultimately show ?thesis
    using assms(3)
    by (simp add: consume_stream.simps [of at_once "frame t p"] consume_stream.simps [of at_once "[]"]
        wire_header_size_def)
qed

lemma read_frame:
  assumes "session_inv s" "se_reader s = Reading" "readable_bytes (se_receive_buffer s) = []"
    and "is_known t" "length p \<le> 4090" "handle_packet at_once (view_of t p) s = (None, s1)"
  obtains s' where "session_step grow s (new_commands s s1) s'" "session_inv s'"
    "without_buffer s' =
      without_buffer (s1\<lparr>se_reader := if se_socket_open s1 then Reading else Reading_closed\<rparr>)"
    "readable_bytes (se_receive_buffer s') = []"
proof -
  have inv: "recv_inv s" "out_inv s" using assms(1) by (simp_all add: session_inv_def)
  have rd: "se_reader s \<noteq> Reader_returned" "length (frame t p) \<le> tcp_read_chunk_size"
    using assms(2,5) by (simp_all add: tcp_read_chunk_size_def wire_header_size_def)
  obtain s2 where "handle_packet at_once (view_of t p) (without_buffer s) = (None, s2)"
    "without_buffer s2 = without_buffer s1"
    using handle_packet_without_buffer [of at_once "view_of t p" s] assms(6)
    by (cases "handle_packet at_once (view_of t p) (without_buffer s)") auto
  with consume_stream_frame [OF assms(4)] assms(5)
  have stream: "consume_stream at_once (frame t p) (without_buffer s) = (True, [], without_buffer s1)"
    by simp
  obtain b s3 rest where read:
    "read_completed grow at_once (Read_bytes (frame t p)) s =
      Some (s3\<lparr>se_reader := if \<not> b then Reader_returned
                            else if se_socket_open s3 then Reading else Reading_closed\<rparr>)"
    "consume_stream at_once (readable_bytes (se_receive_buffer s) @ frame t p) (without_buffer s) =
      (b, rest, without_buffer s3)"
    "b \<Longrightarrow> readable_bytes (se_receive_buffer s3) = rest"
    by (rule read_bytes_effect [OF inv rd, of grow at_once]) blast
  from read(2) stream assms(3) have b: "b" "rest = []" and s3: "without_buffer s3 = without_buffer s1"
    by simp_all
  let ?s = "s3\<lparr>se_reader := if se_socket_open s3 then Reading else Reading_closed\<rparr>"
  from frame_nonempty [of t p] rd assms(2) read(1) b have step: "session_step grow s (new_commands s ?s) ?s"
    by (intro step_handler handler_read [of s "Read_bytes (frame t p)" grow at_once]) simp_all
  have same: "without_buffer ?s =
      without_buffer (s1\<lparr>se_reader := if se_socket_open s1 then Reading else Reading_closed\<rparr>)"
    using s3 without_buffer_fields(1) [OF s3] by (simp add: without_buffer_reader)
  have "new_commands s ?s = new_commands s s1"
    using without_buffer_fields(4) [OF s3] by (simp add: new_commands_def)
  with that [of ?s] step session_step_inv [OF step assms(1)] same read(3) b show ?thesis by simp
qed

lemma join_step:
  assumes "session_inv s" "se_reader s = Reading" "readable_bytes (se_receive_buffer s) = []"
    and "\<not> se_joined_room s" "\<not> cq_closed (command_queue s)"
  obtains s' where "session_step grow s [JoinCommand (se_session_id s)] s'" "session_inv s'"
    "se_joined_room s'" "se_stopped s' = se_stopped s" "se_writer s' = se_writer s"
    "se_reader s' = (if se_socket_open s then Reading else Reading_closed)"
    "readable_bytes (se_receive_buffer s') = []" "\<not> cq_closed (command_queue s')"
proof -
  define s1 where "s1 = consume_packet (view_of join_room [])
    ((snd (submit_room_command (JoinCommand (se_session_id s)) s))\<lparr>se_joined_room := True\<rparr>)"
  have handled: "handle_packet False (view_of join_room []) s = (None, s1)"
    using assms(4,5)
    by (simp add: handle_packet_def handle_join_def validate_empty_payload_def submit_room_command_eq s1_def)
  have fields: "new_commands s s1 = [JoinCommand (se_session_id s)]" "se_joined_room s1"
    "se_stopped s1 = se_stopped s" "se_writer s1 = se_writer s" "se_socket_open s1 = se_socket_open s"
    "\<not> cq_closed (command_queue s1)"
    using assms(5) by (simp_all add: s1_def consume_packet_def submit_room_command_eq new_commands_def)
  obtain s' where step: "session_step grow s (new_commands s s1) s'" "session_inv s'"
    and same: "without_buffer s' =
      without_buffer (s1\<lparr>se_reader := if se_socket_open s1 then Reading else Reading_closed\<rparr>)"
    and rest: "readable_bytes (se_receive_buffer s') = []"
    using read_frame [OF assms(1-3) _ _ handled] by auto
  note eqs = without_buffer_fields [OF same]
  show ?thesis
    by (rule that [of s']) (use step rest eqs fields in simp_all)
qed

text \<open>A ping to an idle session puts a writer to work.\<close>

lemma ping_step:
  assumes "session_inv s" "se_reader s = Reading" "readable_bytes (se_receive_buffer s) = []"
    and "\<not> se_stopped s" "\<not> se_write_in_progress s"
  obtains s' where "session_step grow s [] s'" "session_inv s'" "se_writer s' = Writer_spawned"
    "oq_packets (se_outbound_queue s') = [Some (frame ping [])]"
    "se_joined_room s' = se_joined_room s" "\<not> se_stopped s'" "se_reader s' = Reading"
    "readable_bytes (se_receive_buffer s') = []" "se_room_worker s' = se_room_worker s"
    "se_session_id s' = se_session_id s"
proof -
  let ?p = "Some (frame ping [])"
  define s0 where "s0 = consume_packet (view_of ping []) s"
  have out: "out_inv s" using assms(1) by (simp add: session_inv_def)
  then have empty: "oq_packets (se_outbound_queue s) = []" "oq_inv (se_outbound_queue s)"
    using assms(4,5) by (auto simp: out_inv_def)
  have "oq_pending_bytes (se_outbound_queue s) = 0" using empty by (simp add: oq_inv_def)
  then obtain q where push: "OutboundQueue_push (se_outbound_queue s) ?p = Inr q"
    using push_cases [OF empty(2), of ?p] out assms(4)
    by (auto simp: out_inv_def max_session_outbound_bytes_def wire_header_size_def frame_nonempty)
  define s1 where "s1 = (update_queue_metrics (s0\<lparr>se_outbound_queue := q\<rparr>))
    \<lparr>se_write_in_progress := True, se_writer := Writer_spawned\<rparr>"
  have handled: "handle_packet False (view_of ping []) s = (None, s1)"
    using push assms(4,5)
    by (simp add: handle_packet_def handle_ping_def encode_packet_cases make_shared_packet_def
        enqueue_outbound_def s0_def [symmetric] s1_def Let_def) (simp add: s0_def consume_packet_def)
  have fields: "new_commands s s1 = []" "se_writer s1 = Writer_spawned"
    "oq_packets (se_outbound_queue s1) = [?p]" "se_joined_room s1 = se_joined_room s" "\<not> se_stopped s1"
    "se_room_worker s1 = se_room_worker s" "se_session_id s1 = se_session_id s" "se_socket_open s1"
    using push_InrD(2) [OF empty(2) push] empty(1) assms(4) out
    by (simp_all add: s1_def s0_def consume_packet_def new_commands_def out_inv_def)
  obtain s' where step: "session_step grow s (new_commands s s1) s'" "session_inv s'"
    and same: "without_buffer s' =
      without_buffer (s1\<lparr>se_reader := if se_socket_open s1 then Reading else Reading_closed\<rparr>)"
    and rest: "readable_bytes (se_receive_buffer s') = []"
    using read_frame [OF assms(1-3) _ _ handled] by auto
  note eqs = without_buffer_fields [OF same]
  show ?thesis
    by (rule that [of s']) (use step rest eqs fields in simp_all)
qed

end
