(* ===== verification/Session_Properties.thy ===== *)
theory Session_Properties
  imports Session_Run
begin

text \<open>
  What a session guarantees in every run, whatever the client sends, however the reads cut it,
  and in whatever order reads, writes, deliveries and the other threads take their turns; and
  the one case in which a session that has ended leaves its player in the room.
\<close>

text \<open>A session as \<open>run_session\<close> starts it, with or without metrics.\<close>

definition fresh_session :: "growth \<Rightarrow> SessionId \<Rightarrow> RoomWorker \<Rightarrow> ServerMetrics option \<Rightarrow> Session" where
  "fresh_session grow i w m = Session_new grow i w
     (map_option (\<lambda>m. (m, (SessionMetrics_new i)\<lparr>sm_tracked := True\<rparr>)) m)"

lemma fresh_session_inv: "session_inv (fresh_session grow i w m)"
  unfolding fresh_session_def by (rule Session_new_fresh_inv)

lemma fresh_session_fields [simp]:
  "se_reader (fresh_session grow i w m) = Reading"
  "readable_bytes (se_receive_buffer (fresh_session grow i w m)) = []"
  "se_joined_room (fresh_session grow i w m) = False" "se_stopped (fresh_session grow i w m) = False"
  "se_write_in_progress (fresh_session grow i w m) = False"
  "se_session_id (fresh_session grow i w m) = i" "se_room_worker (fresh_session grow i w m) = w"
  by (simp_all add: fresh_session_def Session_new_def)

lemma reachable_inv: "session_run grow (fresh_session grow i w m) cs s \<Longrightarrow> session_inv s"
  by (rule session_run_inv [OF _ fresh_session_inv])

lemma session_run_single: "session_step grow s cs s' \<Longrightarrow> session_run grow s cs s'"
  using run_step [OF run_start] by simp

text \<open>The session of the examples: an open worker, and the client has just joined.\<close>

definition idle_worker :: RoomWorker where
  "idle_worker = fst (RoomWorker_new no_metrics ())"

lemma idle_worker_open: "\<not> cq_closed (rw_commands idle_worker)"
  by (simp add: idle_worker_def RoomWorker_new_def CloseableQueue_new_def)

definition exact_growth :: growth where
  "exact_growth capacity required = required"

lemma joined_example:
  obtains s where
    "session_run exact_growth (fresh_session exact_growth 7 idle_worker None) [JoinCommand 7] s"
    "se_reader s = Reading" "se_joined_room s" "\<not> se_stopped s" "\<not> cq_closed (command_queue s)"
proof -
  let ?s = "fresh_session exact_growth 7 idle_worker None"
  have open_socket: "se_socket_open ?s" by (simp add: fresh_session_def Session_new_def)
  show ?thesis
    by (rule join_step [OF fresh_session_inv, of exact_growth 7 idle_worker None exact_growth])
      (use that idle_worker_open open_socket in \<open>auto intro: session_run_single\<close>)
qed

section \<open>Reading\<close>

text \<open>
  C10: The receive buffer never overflows: in every run, whenever a read is pending, the
  largest chunk it can bring still fits, so the branch of \<open>run\<close> that gives up on a full
  buffer is never taken; and the loop over the packets in the buffer always ends.
\<close>
theorem reads_always_fit:
  assumes "session_run grow (fresh_session grow i w m) cs s" "se_reader s \<noteq> Reader_returned"
    and "length bytes \<le> tcp_read_chunk_size"
  shows "(\<exists>buffer. ReceiveBuffer_append grow (se_receive_buffer s) bytes = Inr buffer
      \<and> length (rb_storage buffer) - rb_read_offset buffer \<le> max_session_buffer_size)
    \<and> (\<exists>s'. read_completed grow at_once (Read_bytes bytes) s = Some s')"
proof -
  have inv: "recv_inv s" "out_inv s" using reachable_inv [OF assms(1)] by (simp_all add: session_inv_def)
  obtain buffer b s1 where
    "ReceiveBuffer_append grow (se_receive_buffer s) bytes = Inr buffer"
    "read_completed grow at_once (Read_bytes bytes) s =
      Some (s1\<lparr>se_reader := if \<not> b then Reader_returned
                            else if se_socket_open s1 then Reading else Reading_closed\<rparr>)"
    by (rule read_bytes_effect [OF inv assms(2,3), of grow at_once]) blast
  moreover from this(1) inv(1) have "length (readable_bytes buffer) \<le> max_session_buffer_size"
    using rb.append_InrD [of "se_receive_buffer s" grow bytes buffer] rb.contents_limit [of buffer]
    by (auto simp: recv_inv_def ReceiveBuffer_max_size_def)
  ultimately show ?thesis by (simp add: readable_bytes_def)
qed

theorem reads_always_fit_witness:
  "\<exists>s. session_run exact_growth (fresh_session exact_growth 7 idle_worker None) [JoinCommand 7] s
    \<and> (\<exists>s'. read_completed exact_growth True (Read_bytes (replicate 4096 0)) s = Some s')"
proof -
  obtain s where run:
    "session_run exact_growth (fresh_session exact_growth 7 idle_worker None) [JoinCommand 7] s"
    and "se_reader s = Reading"
    by (rule joined_example)
  with reads_always_fit [OF run, of "replicate 4096 0" True] show ?thesis
    by (auto simp: tcp_read_chunk_size_def)
qed

text \<open>Successive reads, as long as the reader waits for bytes.\<close>

fun read_all :: "growth \<Rightarrow> bool \<Rightarrow> byte list list \<Rightarrow> Session \<Rightarrow> Session option" where
  "read_all grow at_once [] s = Some s"
| "read_all grow at_once (c # cs) s =
     (if se_reader s \<noteq> Reading then Some s
      else case read_completed grow at_once (Read_bytes c) s of
        None \<Rightarrow> None
      | Some s' \<Rightarrow> read_all grow at_once cs s')"

lemma read_all_returned: "se_reader s \<noteq> Reading \<Longrightarrow> read_all grow at_once cs s = Some s"
  by (cases cs) simp_all

lemma consume_stream_rest:
  "consume_stream at_once xs s = (True, rest, s') \<Longrightarrow> consume_stream at_once rest s' = (True, rest, s')"
  using consume_stream_append [of at_once xs "[]" s] by simp

lemma without_buffer_reader_same: "se_reader s = rd \<Longrightarrow> (without_buffer s)\<lparr>se_reader := rd\<rparr> = without_buffer s"
  by (simp add: without_buffer_def)

text \<open>One read that completes, against the specification on the byte stream.\<close>

lemma read_chunk_stream:
  assumes "session_inv s" "se_reader s = Reading" "\<not> se_stopped s" "length c \<le> tcp_read_chunk_size"
  obtains b s' rest where
    "consume_stream at_once (readable_bytes (se_receive_buffer s) @ c) (without_buffer s) =
      (b, rest, without_buffer s')"
    "b \<Longrightarrow> read_completed grow at_once (Read_bytes c) s = Some s' \<and> session_inv s'
      \<and> se_reader s' = Reading \<and> \<not> se_stopped s' \<and> readable_bytes (se_receive_buffer s') = rest"
    "\<not> b \<Longrightarrow> read_completed grow at_once (Read_bytes c) s = Some (s'\<lparr>se_reader := Reader_returned\<rparr>)"
proof -
  have inv: "recv_inv s" "out_inv s" "gauges_exact s" using assms(1) by (simp_all add: session_inv_def)
  have reading: "se_reader s \<noteq> Reader_returned" using assms(2) by simp
  obtain b s' rest where read:
    "read_completed grow at_once (Read_bytes c) s =
      Some (s'\<lparr>se_reader := if \<not> b then Reader_returned
                            else if se_socket_open s' then Reading else Reading_closed\<rparr>)"
    "consume_stream at_once (readable_bytes (se_receive_buffer s) @ c) (without_buffer s) =
      (b, rest, without_buffer s')"
    "b \<Longrightarrow> readable_bytes (se_receive_buffer s') = rest \<and> length rest < max_packet_size
      \<and> se_stopped s' = se_stopped s"
    "rb_inv (se_receive_buffer s')"
    "rb_max_buffered_bytes (se_receive_buffer s') = max_session_buffer_size"
    by (rule read_bytes_effect [OF inv(1,2) reading assms(4), of grow at_once]) blast
  note kept = consume_stream_session [OF read(2) inv(2,3)]
  have "se_socket_open s' \<and> se_reader s' = Reading \<and> \<not> se_stopped s' \<and> session_inv s'" if b
    using read(3) [OF that] read(4,5) kept assms(2,3)
    by (auto simp: session_inv_def recv_inv_def out_inv_def)
  with read(1,3) show thesis by (intro that [OF read(2)]) auto
qed

lemma read_all_stream:
  assumes "session_inv s" "se_reader s = Reading" "\<not> se_stopped s"
    and "\<forall>c\<in>set cs. length c \<le> tcp_read_chunk_size"
    and "consume_stream at_once (readable_bytes (se_receive_buffer s)) (without_buffer s) =
      (True, readable_bytes (se_receive_buffer s), without_buffer s)"
    and "consume_stream at_once (readable_bytes (se_receive_buffer s) @ concat cs) (without_buffer s) =
      (b, rest, st)"
  shows "\<exists>s'. read_all grow at_once cs s = Some s'
    \<and> without_buffer s' = st\<lparr>se_reader := if b then Reading else Reader_returned\<rparr>
    \<and> (b \<longrightarrow> readable_bytes (se_receive_buffer s') = rest)"
  using assms
proof (induction cs arbitrary: s b rest st)
  case Nil
  then have "b" "rest = readable_bytes (se_receive_buffer s)" "st = without_buffer s" by simp_all
  with without_buffer_reader_same [OF Nil.prems(2)] show ?case by simp
next
  case (Cons c cs)
  obtain b1 s1 rest1 where read:
    "consume_stream at_once (readable_bytes (se_receive_buffer s) @ c) (without_buffer s) =
      (b1, rest1, without_buffer s1)"
    "b1 \<Longrightarrow> read_completed grow at_once (Read_bytes c) s = Some s1 \<and> session_inv s1
      \<and> se_reader s1 = Reading \<and> \<not> se_stopped s1 \<and> readable_bytes (se_receive_buffer s1) = rest1"
    "\<not> b1 \<Longrightarrow> read_completed grow at_once (Read_bytes c) s = Some (s1\<lparr>se_reader := Reader_returned\<rparr>)"
    by (rule read_chunk_stream [OF Cons.prems(1-3), of c at_once grow]) (use Cons.prems(4) in auto)
  have split: "consume_stream at_once (readable_bytes (se_receive_buffer s) @ concat (c # cs)) (without_buffer s) =
      (if b1 then consume_stream at_once (rest1 @ concat cs) (without_buffer s1)
       else (False, rest1 @ concat cs, without_buffer s1))"
    using consume_stream_append [of at_once "readable_bytes (se_receive_buffer s) @ c" "concat cs"]
    by (simp add: read(1))
  show ?case
  proof (cases b1)
    case False
    with Cons.prems(2,6) split have "b = False" "st = without_buffer s1" by simp_all
    with False Cons.prems(2) show ?thesis by (simp add: read(3) read_all_returned without_buffer_reader)
  next
    case True
    note step = read(2) [OF True]
    have "consume_stream at_once (readable_bytes (se_receive_buffer s1)) (without_buffer s1) =
        (True, readable_bytes (se_receive_buffer s1), without_buffer s1)"
      using consume_stream_rest [OF read(1) [unfolded eqTrueI [OF True]]] step by simp
    moreover have "consume_stream at_once (readable_bytes (se_receive_buffer s1) @ concat cs) (without_buffer s1) =
        (b, rest, st)"
      using Cons.prems(6) split step True by simp
    ultimately have "\<exists>s'. read_all grow at_once cs s1 = Some s'
        \<and> without_buffer s' = st\<lparr>se_reader := if b then Reading else Reader_returned\<rparr>
        \<and> (b \<longrightarrow> readable_bytes (se_receive_buffer s') = rest)"
      using Cons.IH [of s1 b rest st] step Cons.prems(4) by simp
    then show ?thesis using Cons.prems(2) step by simp
  qed
qed

text \<open>
  C5: How TCP cuts the stream into reads makes no difference: two ways of cutting the same
  bytes leave the session in the same state in every respect but the layout of the receive
  buffer, with the same commands sent to the room and the same packets to be written; and
  while the session goes on reading, with the same bytes still unread.
\<close>
theorem chunking_irrelevant:
  assumes "session_run grow (fresh_session grow i w m) cmds s"
    and "se_reader s = Reading" "\<not> se_stopped s" "readable_bytes (se_receive_buffer s) = []"
    and "concat cs = concat ds"
    and "\<forall>c\<in>set cs \<union> set ds. length c \<le> tcp_read_chunk_size"
  shows "\<exists>s1 s2. read_all grow at_once cs s = Some s1 \<and> read_all grow at_once ds s = Some s2
    \<and> without_buffer s1 = without_buffer s2
    \<and> (se_reader s1 = Reading \<longrightarrow>
        readable_bytes (se_receive_buffer s1) = readable_bytes (se_receive_buffer s2))"
proof -
  have inv: "session_inv s" using reachable_inv [OF assms(1)] .
  have settled: "consume_stream at_once (readable_bytes (se_receive_buffer s)) (without_buffer s) =
      (True, readable_bytes (se_receive_buffer s), without_buffer s)"
    by (simp add: assms(4) consume_stream.simps [of at_once "[]"])
  obtain b rest st where
    stream: "consume_stream at_once (readable_bytes (se_receive_buffer s) @ concat ds) (without_buffer s) = (b, rest, st)"
    by (metis prod_cases3)
  obtain s1 where s1: "read_all grow at_once cs s = Some s1"
    "without_buffer s1 = st\<lparr>se_reader := if b then Reading else Reader_returned\<rparr>"
    "b \<longrightarrow> readable_bytes (se_receive_buffer s1) = rest"
    using read_all_stream [OF inv assms(2,3) _ settled, of cs b rest st grow] stream assms(5,6) by auto
  obtain s2 where s2: "read_all grow at_once ds s = Some s2"
    "without_buffer s2 = st\<lparr>se_reader := if b then Reading else Reader_returned\<rparr>"
    "b \<longrightarrow> readable_bytes (se_receive_buffer s2) = rest"
    using read_all_stream [OF inv assms(2,3) _ settled, of ds b rest st grow] stream assms(6) by auto
  have "se_reader s1 = (if b then Reading else Reader_returned)"
    using arg_cong [OF s1(2), of se_reader] by (simp add: without_buffer_def)
  with s1 s2 show ?thesis by (intro exI [of _ s1] exI [of _ s2]) auto
qed

theorem chunking_irrelevant_witness:
  "\<exists>s1 s2. read_all exact_growth True [[0, 0, 0], [0, 0, 2, 0, 0], [0, 0, 0, 5]]
      (fresh_session exact_growth 7 idle_worker None) = Some s1
    \<and> read_all exact_growth True [[0, 0, 0, 0, 0, 2, 0, 0, 0, 0, 0, 5]]
      (fresh_session exact_growth 7 idle_worker None) = Some s2
    \<and> without_buffer s1 = without_buffer s2"
  using chunking_irrelevant [OF run_start, of exact_growth 7 idle_worker None
      "[[0, 0, 0], [0, 0, 2, 0, 0], [0, 0, 0, 5]]" "[[0, 0, 0, 0, 0, 2, 0, 0, 0, 0, 0, 5]]" True]
  by (fastforce simp: tcp_read_chunk_size_def)

section \<open>The session and the room\<close>

text \<open>
  C4: What a session submits to the room is in order, in every run: only commands of its own
  id, a join first, moves and leaves only between a join and the next leave, never two joins
  or two leaves in a row. As long as the room worker accepts commands, \<open>joined_room_\<close> says
  whether the player is in the room.
\<close>
theorem session_commands_in_order:
  assumes "session_run grow (fresh_session grow i w m) cs s"
  shows "\<exists>joined. seat i cs False = Some joined \<and>
    (\<not> cq_closed (rw_commands (se_room_worker s)) \<longrightarrow> se_joined_room s = joined)"
  using session_run_seat [OF assms fresh_session_inv] by auto

theorem session_commands_in_order_witness:
  "\<exists>s. session_run exact_growth (fresh_session exact_growth 7 idle_worker None) [JoinCommand 7] s
    \<and> seat 7 [JoinCommand 7] False = Some (se_joined_room s)"
proof -
  obtain s where run:
    "session_run exact_growth (fresh_session exact_growth 7 idle_worker None) [JoinCommand 7] s"
    and "\<not> cq_closed (command_queue s)"
    by (rule joined_example)
  with session_commands_in_order [OF run] show ?thesis by auto
qed

text \<open>
  Stopping takes effect once and completely: the first call sends the one leave that a
  joined session owes the room, with the reason it was given, drops the waiting packets,
  refuses new ones and closes the socket; later calls, with whatever reason, change nothing.
\<close>
theorem stop_session_once:
  assumes "\<not> se_stopped s"
  shows "new_commands s (stop_session reason s) =
      (if se_joined_room s \<and> \<not> cq_closed (rw_commands (se_room_worker s))
       then [LeaveCommand (se_session_id s) reason] else [])
    \<and> se_stopped (stop_session reason s) \<and> \<not> se_joined_room (stop_session reason s)
    \<and> \<not> se_socket_open (stop_session reason s)
    \<and> oq_packets (se_outbound_queue (stop_session reason s)) = []
    \<and> OutboundQueue_push (se_outbound_queue (stop_session reason s)) packet = Inl OutboundQueueError.closed
    \<and> stop_session reason' (stop_session reason s) = stop_session reason s"
  using follows_new_commands [OF stop_session_follows [of s reason]] assms
  by (simp add: OutboundQueue_push_def stop_session_again)

theorem stop_session_once_witness:
  "new_commands ((fresh_session exact_growth 7 idle_worker None)\<lparr>se_joined_room := True\<rparr>)
     (stop_session client_closed ((fresh_session exact_growth 7 idle_worker None)\<lparr>se_joined_room := True\<rparr>)) =
    [LeaveCommand 7 client_closed]"
  using stop_session_once [of "(fresh_session exact_growth 7 idle_worker None)\<lparr>se_joined_room := True\<rparr>"
      client_closed] idle_worker_open
  by simp

lemma handle_packet_ends:
  assumes "handle_packet at_once v s = (Some b, s')" "\<not> se_stopped s"
  shows "\<not> se_joined_room s'"
proof -
  have sub: "\<not> se_stopped s1" if "submit_room_command c s = (b1, s1)" for c b1 s1
    using submitted_frame(7) [OF that] assms(2) by simp
  have enq: "\<not> se_joined_room s1" if "enqueue_outbound at_once p s0 = (False, s1)" "\<not> se_stopped s0" for p s0 s1
    using that by (auto simp: enqueue_outbound_def Let_def split: sum.splits if_splits)
  have con: "\<not> se_stopped (consume_packet v s)" using assms(2) by (simp add: consume_packet_def)
  show ?thesis
    using assms sub enq [OF _ con]
    by (auto simp: handle_packet_def handle_ping_def handle_join_def handle_move_def handle_leave_def
        reject_protocol_def Let_def split: PacketType.splits sum.splits prod.splits if_splits)
qed

lemma read_completed_left:
  assumes "session_inv s" "\<not> se_stopped s" "read_possible s result"
    and "read_completed grow at_once result s = Some s'" "se_stopped s'"
  shows "\<not> se_joined_room s'"
proof (cases result)
  case (Read_bytes bytes)
  have inv: "recv_inv s" "out_inv s" using assms(1) by (simp_all add: session_inv_def)
  have rd: "se_reader s \<noteq> Reader_returned" "length bytes \<le> tcp_read_chunk_size"
    using assms(3) Read_bytes by simp_all
  obtain b s1 rest where read:
    "read_completed grow at_once (Read_bytes bytes) s =
      Some (s1\<lparr>se_reader := if \<not> b then Reader_returned
                            else if se_socket_open s1 then Reading else Reading_closed\<rparr>)"
    "consume_stream at_once (readable_bytes (se_receive_buffer s) @ bytes) (without_buffer s) =
      (b, rest, without_buffer s1)"
    by (rule read_bytes_effect [OF inv rd, of grow at_once]) blast
  have wb: "se_stopped (without_buffer x) = se_stopped x"
    "se_joined_room (without_buffer x) = se_joined_room x" for x
    by (simp_all add: without_buffer_def)
  have "if b then \<not> se_stopped (without_buffer s1) else \<not> se_joined_room (without_buffer s1)"
    using read(2)
  proof (rule consume_stream_rule [where P = "\<lambda>s. \<not> se_stopped s \<and> out_inv s"])
    show "\<not> se_stopped (without_buffer s) \<and> out_inv (without_buffer s)" using assms(2) inv by (simp add: wb)
  next
    fix t p s s1
    assume "is_known t" "length p \<le> 65536" "handle_packet at_once (view_of t p) s = (None, s1)"
      "\<not> se_stopped s \<and> out_inv s"
    then show "\<not> se_stopped (without_buffer s1) \<and> out_inv (without_buffer s1)"
      using handle_packet_reader(2) handle_packet_out_inv by (simp add: wb)
  next
    fix t p s b s1
    assume "handle_packet at_once (view_of t p) s = (Some b, s1)" "\<not> se_stopped s \<and> out_inv s"
    then show "if b then \<not> se_stopped (without_buffer s1) else \<not> se_joined_room (without_buffer s1)"
      using handle_packet_ends [of at_once "view_of t p" s b s1]
        handle_packet_Some [of at_once "view_of t p" s b s1] by (auto simp: wb)
  qed simp_all
  with assms(4,5) read(1) Read_bytes show ?thesis by (auto simp: wb split: if_splits)
qed (use assms in \<open>auto simp: read_completed_def Let_def\<close>)

lemma session_handler_left:
  assumes "session_handler grow s s'" "session_inv s" "\<not> se_stopped s"
  shows "\<not> (se_stopped s' \<and> se_joined_room s')"
  using assms
proof (induction rule: session_handler.induct)
  case (handler_read s result at_once s')
  then show ?case using read_completed_left by blast
next
  case (handler_run_posted s at_once)
  then show ?case
    by (auto simp: run_posted_def enqueue_outbound_def Let_def split: list.splits sum.splits if_splits)
next
  case (handler_drop_posted s)
  then show ?case by (auto simp: drop_posted_def split: list.splits)
qed (auto simp: write_completed_def writer_threw_def Let_def split: if_splits writer_state.splits)

text \<open>
  C15: A session that stops is no longer in the room: every step that ends with a stopped
  session ends with one that has left, unless the session had stopped before and still
  submitted a command.
\<close>
theorem stopped_has_left:
  assumes "session_run grow (fresh_session grow i w m) cmds s" "session_step grow s cs s'"
    and "\<not> (se_stopped s \<and> se_joined_room s)" "\<not> se_stopped s \<or> cs = []"
  shows "\<not> (se_stopped s' \<and> se_joined_room s')"
proof (cases "se_stopped s")
  case True
  with assms(3,4) have "cs = []" "\<not> se_joined_room s" by simp_all
  with session_step_follows [OF assms(2) reachable_inv [OF assms(1)]] show ?thesis
    by (auto simp: follows_def split: if_splits)
next
  case False
  from assms(2) reachable_inv [OF assms(1)] False show ?thesis
  proof (induction rule: session_step.induct)
    case (step_handler s s')
    then show ?case using session_handler_left by blast
  next
    case (step_deliver event packet s)
    then show ?case by (auto simp: deliver_def Let_def split: prod.splits)
  qed simp_all
qed

theorem stopped_has_left_witness:
  "\<exists>s s'. session_run exact_growth (fresh_session exact_growth 7 idle_worker None) [JoinCommand 7] s
    \<and> session_step exact_growth s [LeaveCommand 7 client_closed] s' \<and> se_stopped s' \<and> \<not> se_joined_room s'"
proof -
  obtain s where run:
    "session_run exact_growth (fresh_session exact_growth 7 idle_worker None) [JoinCommand 7] s"
    and s: "se_reader s = Reading" "se_joined_room s" "\<not> se_stopped s" "\<not> cq_closed (command_queue s)"
    by (rule joined_example)
  define s' where "s' = (stop_session client_closed s)\<lparr>se_reader := Reader_returned\<rparr>"
  have "se_session_id s = 7" using session_run_seat [OF run fresh_session_inv] by simp
  then have "follows s [LeaveCommand 7 client_closed] s'"
    using stop_session_follows [of s client_closed] s by (simp add: s'_def)
  then have step: "session_step exact_growth s [LeaveCommand 7 client_closed] s'"
    using step_handler [OF handler_read, of s Read_eof exact_growth False s'] s(1) follows_new_commands
    by (simp add: read_completed_def s'_def)
  have "se_stopped s'" by (simp add: s'_def)
  with run step stopped_has_left [OF run step] s show ?thesis by blast
qed








text \<open>The packets that break the protocol, depending on whether the session has joined.\<close>

fun violates_protocol :: "PacketType \<Rightarrow> byte list \<Rightarrow> bool \<Rightarrow> bool" where
  "violates_protocol ping p joined = False"
| "violates_protocol join_room p joined = (p \<noteq> [] \<or> joined)"
| "violates_protocol move p joined = (length p \<noteq> 8 \<or> \<not> joined)"
| "violates_protocol leave_room p joined = (p \<noteq> [] \<or> \<not> joined)"
| "violates_protocol _ p joined = True"

text \<open>The command a packet stands for; a ping stands for none.\<close>

fun command_of :: "SessionId \<Rightarrow> PacketType \<Rightarrow> byte list \<Rightarrow> RoomCommand list" where
  "command_of i join_room p = [JoinCommand i]"
| "command_of i move p = (case decode_move_payload p of
     Inr m \<Rightarrow> [MoveCommand i \<lparr>grid_x = move_x m, grid_y = move_y m\<rparr>] | Inl e \<Rightarrow> [])"
| "command_of i leave_room p = [LeaveCommand i left_room]"
| "command_of i _ p = []"

text \<open>
  C28: What a session does with the packet at the front of the buffer, as long as the room worker
  takes commands: one that breaks the
  protocol (an attack, an event that only the server sends, a join or leave with a payload, a
  second join, a move or leave before the join, a move of the wrong size) stops the session
  with \<open>protocol_error\<close> and nothing else; any other join, move or leave is submitted to the
  room as the command it stands for, the packet is consumed and the loop goes on.
\<close>
theorem packet_reactions:
  assumes "readable_bytes (se_receive_buffer s) = frame t p @ rest" "is_known t" "length p \<le> 65536"
    and "rb_inv (se_receive_buffer s)" "\<not> cq_closed (rw_commands (se_room_worker s))"
    and "process_packet at_once s = (r, s')"
  shows "(violates_protocol t p (se_joined_room s) \<longrightarrow> r = Some False \<and> s' = stop_session protocol_error s)
    \<and> (\<not> violates_protocol t p (se_joined_room s) \<and> t \<noteq> ping \<longrightarrow>
        r = None \<and> new_commands s s' = command_of (se_session_id s) t p
        \<and> readable_bytes (se_receive_buffer s') = rest \<and> se_joined_room s' = (t \<noteq> leave_room)
        \<and> se_stopped s' = se_stopped s \<and> se_outbound_queue s' = se_outbound_queue s)"
proof -
  have handled: "handle_packet at_once (view_of t p) s = (r, s')"
    using assms(6) decode_one_frame [OF assms(2,3), of rest] by (simp add: process_packet_def assms(1))
  have len: "6 + length p \<le> length (readable_bytes (se_receive_buffer s))"
    by (simp add: assms(1) wire_header_size_def)
  note consumed = consume_facts(2) [OF assms(4) len, unfolded assms(1)]
  have sizes: "is_ok (decode_move_payload p) = (length p = 8)" by (rule decode_move_payload_ok_iff)
  show ?thesis
  proof (cases t)
    case move
    with handled assms(5) consumed sizes show ?thesis
      by (cases "decode_move_payload p")
        (auto simp: handle_packet_def handle_move_def reject_protocol_def submit_room_command_eq
          consume_packet_def new_commands_def wire_header_size_def split: if_splits)
  qed (use handled assms(2,5) consumed in \<open>auto simp: handle_packet_def handle_join_def handle_leave_def
      reject_protocol_def validate_empty_payload_def submit_room_command_eq leave_room_if_joined_def
      consume_packet_def new_commands_def wire_header_size_def split: if_splits\<close>)
qed

theorem packet_reactions_witness:
  "fst (process_packet True ((fresh_session exact_growth 7 idle_worker None)
     \<lparr>se_receive_buffer := \<lparr>rb_storage = [0, 0, 0, 0, 0, 4], rb_capacity = 6,
        rb_max_buffered_bytes = 6, rb_read_offset = 0\<rparr>\<rparr>)) = Some False"
proof -
  let ?b = "\<lparr>rb_storage = [0, 0, 0, 0, 0, 4], rb_capacity = 6, rb_max_buffered_bytes = 6, rb_read_offset = 0\<rparr>"
  let ?s = "(fresh_session exact_growth 7 idle_worker None)\<lparr>se_receive_buffer := ?b\<rparr>"
  obtain r s' where run: "process_packet True ?s = (r, s')" by fastforce
  have "[0, 0, 0, 0, 0, 4] = frame attack []"
    by (simp add: frame_def bytes_be_32 bytes_be_16)
  then have readable: "readable_bytes (se_receive_buffer ?s) = frame attack [] @ []"
    by (simp add: readable_bytes_def)
  have "rb_inv (se_receive_buffer ?s)" by (simp add: rb_inv_def)
  with packet_reactions [OF readable _ _ _ _ run] idle_worker_open show ?thesis by (simp add: run)
qed

section \<open>The outbound side\<close>

text \<open>
  C19: A session never holds more than its share of memory for a client that does not read: in
  every run the waiting packets count their bytes exactly and stay within 256 KiB, at most 64
  packets are being written at a time, and both together are at most 256 KiB and one packet of
  maximal size.
\<close>
theorem outbound_memory_bounded:
  assumes "session_run grow (fresh_session grow i w m) cs s"
  shows "oq_pending_bytes (se_outbound_queue s) = bytes_of (oq_packets (se_outbound_queue s))
    \<and> oq_pending_bytes (se_outbound_queue s) \<le> 256 * 1024
    \<and> length (in_flight (se_writer s)) \<le> 64
    \<and> bytes_of (in_flight (se_writer s)) + bytes_of (oq_packets (se_outbound_queue s))
        \<le> 256 * 1024 + (6 + 64 * 1024)"
  using reachable_inv [OF assms]
  by (simp add: session_inv_def out_inv_def oq_inv_def max_session_outbound_bytes_def
      max_outbound_batch_packets_def wire_header_size_def)

theorem outbound_memory_bounded_witness:
  "\<exists>s. session_run exact_growth (fresh_session exact_growth 7 idle_worker None) [JoinCommand 7] s
    \<and> oq_pending_bytes (se_outbound_queue s) \<le> 256 * 1024"
proof -
  obtain s where run:
    "session_run exact_growth (fresh_session exact_growth 7 idle_worker None) [JoinCommand 7] s"
    by (rule joined_example)
  with outbound_memory_bounded [OF run] show ?thesis by blast
qed

text \<open>
  C27: No packet waits in vain: in every run, packets in the queue have a writer that will take
  them; while the session runs there is one writer exactly when \<open>write_in_progress_\<close> is set;
  and a stopped session has a closed socket and a closed, empty queue.
\<close>
theorem waiting_packets_have_writer:
  assumes "session_run grow (fresh_session grow i w m) cs s"
  shows "(oq_packets (se_outbound_queue s) \<noteq> [] \<longrightarrow> se_writer s \<noteq> No_writer)
    \<and> (\<not> se_stopped s \<longrightarrow> (se_write_in_progress s \<longleftrightarrow> se_writer s \<noteq> No_writer)
         \<and> se_socket_open s \<and> \<not> oq_closed (se_outbound_queue s))
    \<and> (se_stopped s \<longrightarrow> \<not> se_socket_open s \<and> oq_closed (se_outbound_queue s)
         \<and> OutboundQueue_empty (se_outbound_queue s))"
  using reachable_inv [OF assms]
  by (auto simp: session_inv_def out_inv_def oq_inv_def OutboundQueue_empty_def)

lemma pinged_example:
  obtains s where "session_run exact_growth (fresh_session exact_growth 7 idle_worker m) [] s"
    "oq_packets (se_outbound_queue s) = [Some (frame ping [])]" "se_writer s = Writer_spawned"
    "\<not> se_stopped s"
  by (rule ping_step [OF fresh_session_inv, of exact_growth 7 idle_worker m exact_growth])
    (use that in \<open>auto intro: session_run_single\<close>)

theorem waiting_packets_have_writer_witness:
  "\<exists>s. session_run exact_growth (fresh_session exact_growth 7 idle_worker None) [] s
    \<and> oq_packets (se_outbound_queue s) \<noteq> [] \<and> se_writer s \<noteq> No_writer"
proof -
  obtain s where run: "session_run exact_growth (fresh_session exact_growth 7 idle_worker None) [] s"
    and packets: "oq_packets (se_outbound_queue s) = [Some (frame ping [])]"
    by (rule pinged_example)
  with waiting_packets_have_writer [OF run] show ?thesis by auto
qed

text \<open>
  C35: The gauges of a session tell the truth in every run: the queued packets and bytes are
  those of the queue, the packets and bytes in flight those handed to the socket, and the
  posted jobs and bytes those of the handlers that have not run yet.
\<close>
theorem session_gauges_exact:
  assumes "session_run grow (fresh_session grow i w m) cs s" "se_metrics s = Some (server, sm)"
  shows "queued_packets sm = of_nat (length (oq_packets (se_outbound_queue s)))
    \<and> queued_bytes sm = of_nat (bytes_of (oq_packets (se_outbound_queue s)))
    \<and> inflight_packets sm = of_nat (length (in_flight (se_writer s)))
    \<and> inflight_bytes sm = of_nat (bytes_of (in_flight (se_writer s)))
    \<and> posted_jobs sm = of_nat (length (se_posted s))
    \<and> posted_bytes sm = of_nat (bytes_of (map fst (se_posted s)))"
  using reachable_inv [OF assms(1)]
  by (simp add: session_inv_def gauges_exact_def assms(2) out_inv_def oq_inv_def)

theorem session_gauges_exact_witness:
  "\<exists>s server sm. session_run exact_growth (fresh_session exact_growth 7 idle_worker (Some ServerMetrics_new)) [] s
    \<and> se_metrics s = Some (server, sm) \<and> posted_jobs sm = 1 \<and> posted_bytes sm = 22"
proof -
  let ?s = "fresh_session exact_growth 7 idle_worker (Some ServerMetrics_new)"
  obtain packet where packet: "encode_room_event (PlayerJoinedEvent 7 origin) = Inr packet"
    "SharedPacket_size packet = 22"
    by (simp add: encode_room_event_eq wire_header_size_def)
  have run: "session_run exact_growth ?s [] (deliver packet ?s)"
    by (rule session_run_single) (rule step_deliver [OF packet(1)])
  obtain server sm where metrics: "se_metrics (deliver packet ?s) = Some (server, sm)"
    by (simp add: deliver_def fresh_session_def Session_new_def PendingDelivery_new_def)
  have "se_posted (deliver packet ?s) = [(packet, \<lparr>pd_metrics = True, pd_bytes = 22\<rparr>)]"
    by (simp add: deliver_def fresh_session_def Session_new_def PendingDelivery_new_def
        PendingDelivery_move_def packet(2))
  with session_gauges_exact [OF run metrics] run metrics packet(2) show ?thesis by auto
qed

text \<open>Everything accepted and not yet written, in order.\<close>

definition pipeline :: "Session \<Rightarrow> SharedPacket list" where
  "pipeline s = in_flight (se_writer s) @ oq_packets (se_outbound_queue s)"

lemma writer_resume_pipeline:
  assumes "out_inv s" "\<not> se_stopped s"
  shows "pipeline (writer_resume s) = oq_packets (se_outbound_queue s)"
proof -
  obtain n batch q where pop: "pop_batch (se_outbound_queue s) (replicate max_outbound_batch_packets None)
      max_outbound_batch_bytes = (n, batch, q)"
    by (metis prod_cases3)
  have inv: "oq_inv (se_outbound_queue s)" using assms(1) by (simp add: out_inv_def)
  note after = writer_resume_running [OF assms(2) pop]
  have "in_flight (se_writer (writer_resume s)) = take n batch"
    using after(3,4) by (cases "n = 0") auto
  then show ?thesis using pop_batch_facts(2) [OF inv pop] by (simp add: pipeline_def after(1))
qed

text \<open>A packet is accepted behind all others, or the session has stopped and nothing new is in flight.\<close>

lemma enqueue_outbound_pipeline:
  assumes "out_inv s" "SharedPacket_size p \<le> max_packet_size" "enqueue_outbound at_once p s = (b, s')"
  shows "b \<Longrightarrow> pipeline s' = pipeline s @ [p] \<and> \<not> se_stopped s \<and> \<not> se_stopped s'"
    "\<not> b \<Longrightarrow> se_stopped s' \<and> se_writer s' = se_writer s
      \<and> set (oq_packets (se_outbound_queue s')) \<subseteq> set (oq_packets (se_outbound_queue s))"
proof -
  show "se_stopped s' \<and> se_writer s' = se_writer s
      \<and> set (oq_packets (se_outbound_queue s')) \<subseteq> set (oq_packets (se_outbound_queue s))" if "\<not> b"
    using assms(3) that
    by (auto simp: enqueue_outbound_def Let_def OutboundQueue_close_def split: if_splits sum.splits)
  show "pipeline s' = pipeline s @ [p] \<and> \<not> se_stopped s \<and> \<not> se_stopped s'" if accepted: b
  proof -
    obtain q where running: "\<not> se_stopped s" and push: "OutboundQueue_push (se_outbound_queue s) p = Inr q"
      using assms(3) accepted by (auto simp: enqueue_outbound_def Let_def split: if_splits sum.splits)
    have q: "oq_packets q = oq_packets (se_outbound_queue s) @ [p]"
      using push_InrD(2) [OF _ push] assms(1) by (simp add: out_inv_def)
    define s1 where "s1 = (update_queue_metrics (s\<lparr>se_outbound_queue := q\<rparr>))
      \<lparr>se_write_in_progress := True, se_writer := Writer_spawned\<rparr>"
    show ?thesis
    proof (cases "se_write_in_progress s")
      case True
      with push running q assms(3) show ?thesis
        by (auto simp: enqueue_outbound_def Let_def pipeline_def)
    next
      case False
      have "snd (enqueue_outbound False p s) = s1"
        using push running False by (simp add: enqueue_outbound_def Let_def s1_def)
      with enqueue_outbound_out_inv [OF assms(1,2), of False] have "out_inv s1" by simp
      then have "pipeline (writer_resume s1) = oq_packets q"
        using writer_resume_pipeline [of s1] running by (simp add: s1_def)
      moreover have "in_flight (se_writer s) = []" using assms(1) False by (auto simp: out_inv_def)
      ultimately show ?thesis
        using push running False q assms(3)
        by (auto simp: enqueue_outbound_def Let_def pipeline_def s1_def split: if_splits)
    qed
  qed
qed

text \<open>
  C18: Packets go out in the order in which they were accepted: in every run of a session that
  has not been stopped, a packet of at most 65542 bytes, the size of the largest packet of the
  protocol, that \<open>enqueue_outbound\<close> accepts comes behind everything accepted before it, and one
  that it refuses stops the session; a completed write removes exactly its own packets from
  the front.
\<close>
theorem packets_leave_in_order:
  assumes "session_run grow (fresh_session grow i w m) cs s" "\<not> se_stopped s"
    and "SharedPacket_size packet \<le> 65542"
  shows "(case enqueue_outbound at_once packet s of
        (True, s') \<Rightarrow> pipeline s' = pipeline s @ [packet]
      | (False, s') \<Rightarrow> se_stopped s')
    \<and> (\<forall>packets batch. se_writer s = Writing packets batch \<longrightarrow>
        pipeline s = packets @ pipeline (write_completed transferred False s))"
proof (intro conjI allI impI)
  have inv: "out_inv s" using reachable_inv [OF assms(1)] by (simp add: session_inv_def)
  obtain b s' where push: "enqueue_outbound at_once packet s = (b, s')" by fastforce
  have "SharedPacket_size packet \<le> max_packet_size" using assms(3) by (simp add: wire_header_size_def)
  from enqueue_outbound_pipeline [OF inv this push]
  show "case enqueue_outbound at_once packet s of
        (True, s') \<Rightarrow> pipeline s' = pipeline s @ [packet] | (False, s') \<Rightarrow> se_stopped s'"
    by (simp add: push split: bool.split)
  fix packets batch
  assume writing: "se_writer s = Writing packets batch"
  let ?s = "s\<lparr>se_metrics := map_option
    (\<lambda>ms. snd (WriteBatch_complete transferred False batch ms)) (se_metrics s)\<rparr>"
  have "pipeline (writer_resume ?s) = oq_packets (se_outbound_queue s)"
    using writer_resume_pipeline [of ?s] inv assms(2) by simp
  then show "pipeline s = packets @ pipeline (write_completed transferred False s)"
    by (simp add: write_completed_def writing pipeline_def)
qed

theorem packets_leave_in_order_witness:
  "\<exists>s. session_run exact_growth (fresh_session exact_growth 7 idle_worker None) [] s
    \<and> (case enqueue_outbound True (Some [1, 2, 3]) s of
        (True, s') \<Rightarrow> pipeline s' = [Some (frame ping []), Some [1, 2, 3]] | (False, s') \<Rightarrow> se_stopped s')"
proof -
  obtain s where run: "session_run exact_growth (fresh_session exact_growth 7 idle_worker None) [] s"
    and s: "oq_packets (se_outbound_queue s) = [Some (frame ping [])]" "se_writer s = Writer_spawned"
      "\<not> se_stopped s"
    by (rule pinged_example)
  have "pipeline s = [Some (frame ping [])]" by (simp add: pipeline_def s)
  with packets_leave_in_order [OF run s(3), of "Some [1, 2, 3]" True 0] run show ?thesis
    by (intro exI [of _ s]) (simp split: prod.splits bool.splits)
qed

end
