(* ===== verification/Session_Registry.thy ===== *)
theory Session_Registry
  imports Room_Event_Encoder Server_Metrics
begin

text \<open>
  \<open>include/mcrs/network/session_registry.hpp\<close> and \<open>src/network/session_registry.cpp\<close>: the
  connected sessions, those of them in the room, and the broadcast of an event to the latter.

  The registry holds weak pointers to the endpoints: \<open>'ep\<close> names an endpoint, and \<open>alive\<close> says
  whether \<open>weak_ptr::lock\<close> still finds it. Every operation holds the registry's mutex, but for
  the deliveries at the end of \<open>publish\<close>, which are its result: each recipient with the packet.
  The metrics are \<open>None\<close> when the server runs without them.
\<close>

section \<open>Data\<close>

record 'ep SessionRegistry =
  reg_sessions :: "(SessionId, 'ep) hash_map"
  reg_room_members :: "SessionId list"

type_synonym metrics_ptr = "ServerMetrics option"

definition SessionRegistry_new :: "'ep SessionRegistry" where
  "SessionRegistry_new = \<lparr>reg_sessions = [], reg_room_members = []\<rparr>"

text \<open>\<open>std::unordered_set\<close> of the members: insertion and erasure by value.\<close>

definition set_insert :: "'a list \<Rightarrow> 'a \<Rightarrow> 'a list" where
  "set_insert xs x = (if x \<in> set xs then xs else x # xs)"

definition set_erase :: "'a list \<Rightarrow> 'a \<Rightarrow> 'a list" where
  "set_erase xs x = filter (\<lambda>y. y \<noteq> x) xs"

section \<open>Operations\<close>

definition register_session ::
  "'ep SessionRegistry \<Rightarrow> metrics_ptr \<Rightarrow> SessionId \<Rightarrow> 'ep
    \<Rightarrow> bool \<times> 'ep SessionRegistry \<times> metrics_ptr" where
  "register_session r metrics session_id endpoint =
     (let (sessions, inserted) = hm_try_emplace (reg_sessions r) session_id endpoint
      in (inserted, r\<lparr>reg_sessions := sessions\<rparr>,
          if inserted then map_option session_registered metrics else metrics))"

definition unregister_session ::
  "'ep SessionRegistry \<Rightarrow> metrics_ptr \<Rightarrow> SessionId \<Rightarrow> 'ep SessionRegistry \<times> metrics_ptr" where
  "unregister_session r metrics session_id =
     (let (sessions, erased) = hm_erase (reg_sessions r) session_id
      in (r\<lparr>reg_sessions := sessions, reg_room_members := set_erase (reg_room_members r) session_id\<rparr>,
          if erased \<noteq> 0 then map_option session_unregistered metrics else metrics))"

definition update_members :: "SessionId list \<Rightarrow> RoomEvent \<Rightarrow> SessionId list" where
  "update_members members event =
     (case event of
        PlayerJoinedEvent s _ \<Rightarrow> set_insert members s
      | PlayerMovedEvent _ _ \<Rightarrow> members
      | PlayerLeftEvent s _ \<Rightarrow> set_erase members s)"

text \<open>
  The loop over the members: one that is not connected any more is erased, one whose endpoint
  has expired is erased with its session, any other is a recipient.
\<close>

fun collect_recipients ::
  "('ep \<Rightarrow> bool) \<Rightarrow> SessionId list \<Rightarrow> (SessionId, 'ep) hash_map \<Rightarrow> metrics_ptr
    \<Rightarrow> SessionId list \<times> 'ep list \<times> (SessionId, 'ep) hash_map \<times> metrics_ptr" where
  "collect_recipients alive [] sessions metrics = ([], [], sessions, metrics)"
| "collect_recipients alive (member # members) sessions metrics =
     (case hm_find sessions member of
        None \<Rightarrow> collect_recipients alive members sessions metrics
      | Some endpoint \<Rightarrow>
          if \<not> alive endpoint
          then collect_recipients alive members (fst (hm_erase sessions member))
                 (map_option session_unregistered metrics)
          else
            let (kept, recipients, sessions', metrics') =
              collect_recipients alive members sessions metrics
            in (member # kept, endpoint # recipients, sessions', metrics'))"

definition publish ::
  "('ep \<Rightarrow> bool) \<Rightarrow> 'ep SessionRegistry \<Rightarrow> metrics_ptr \<Rightarrow> RoomEvent
    \<Rightarrow> ('ep \<times> SharedPacket) list \<times> 'ep SessionRegistry \<times> metrics_ptr" where
  "publish alive r metrics event =
     (case encode_room_event event of
        Inl e \<Rightarrow> ([], r, metrics)
      | Inr encoded \<Rightarrow>
          (let members = update_members (reg_room_members r) event;
               (kept, recipients, sessions, metrics1) =
                 collect_recipients alive members (reg_sessions r) metrics;
               metrics2 = map_option (fold (\<lambda>_ m. delivery_attempted m) recipients) metrics1
           in (map (\<lambda>recipient. (recipient, encoded)) recipients,
               r\<lparr>reg_sessions := sessions, reg_room_members := kept\<rparr>, metrics2)))"

definition connected_count :: "'ep SessionRegistry \<Rightarrow> size_t" where
  "connected_count r = length (reg_sessions r)"

definition room_member_count :: "'ep SessionRegistry \<Rightarrow> size_t" where
  "room_member_count r = length (reg_room_members r)"

text \<open>The destructor takes the sessions that are left out of the gauge.\<close>

definition SessionRegistry_destroy :: "'ep SessionRegistry \<Rightarrow> metrics_ptr \<Rightarrow> metrics_ptr" where
  "SessionRegistry_destroy r metrics =
     map_option (\<lambda>m. (session_unregistered ^^ length (reg_sessions r)) m) metrics"

section \<open>Invariant\<close>

definition reg_inv :: "'ep SessionRegistry \<Rightarrow> bool" where
  "reg_inv r \<longleftrightarrow> hm_inv (reg_sessions r) \<and> distinct (reg_room_members r)"

text \<open>The gauge of registered sessions is the size of the table.\<close>

fun gauge_exact :: "'ep SessionRegistry \<Rightarrow> metrics_ptr \<Rightarrow> bool" where
  "gauge_exact r None = True"
| "gauge_exact r (Some m) \<longleftrightarrow> registered_sessions m = of_nat (length (reg_sessions r))"

abbreviation connected :: "'ep SessionRegistry \<Rightarrow> SessionId \<Rightarrow> 'ep option" where
  "connected r \<equiv> map_of (reg_sessions r)"

lemma SessionRegistry_new_inv [inv_intros]: "reg_inv SessionRegistry_new"
  by (simp add: reg_inv_def SessionRegistry_new_def)

lemma register_session_inv [inv_intros]:
  "reg_inv r \<Longrightarrow> register_session r metrics s ep = (ins, r', metrics') \<Longrightarrow> reg_inv r'"
  using hm.emplace_invar [of "reg_sessions r" s ep]
  by (auto simp: reg_inv_def register_session_def split: prod.splits)

lemma unregister_session_inv [inv_intros]:
  "reg_inv r \<Longrightarrow> unregister_session r metrics s = (r', metrics') \<Longrightarrow> reg_inv r'"
  using hm.erase_invar [of "reg_sessions r" s]
  by (auto simp: reg_inv_def unregister_session_def set_erase_def split: prod.splits)

lemma update_members_set:
  "set (update_members members ev) =
    (case ev of PlayerJoinedEvent s _ \<Rightarrow> insert s (set members)
     | PlayerMovedEvent _ _ \<Rightarrow> set members
     | PlayerLeftEvent s _ \<Rightarrow> set members - {s})"
  by (auto simp: update_members_def set_insert_def set_erase_def split: RoomEvent.split)

lemma update_members_distinct: "distinct members \<Longrightarrow> distinct (update_members members ev)"
  by (auto simp: update_members_def set_insert_def set_erase_def split: RoomEvent.split)

text \<open>Who stays a member, who receives, and what the scan erases.\<close>

definition stays :: "('ep \<Rightarrow> bool) \<Rightarrow> (SessionId \<rightharpoonup> 'ep) \<Rightarrow> SessionId \<Rightarrow> bool" where
  "stays alive sessions s \<longleftrightarrow> (case sessions s of None \<Rightarrow> False | Some ep \<Rightarrow> alive ep)"

lemma stays_other: "x \<noteq> s \<Longrightarrow> stays alive (sessions(s := None)) x = stays alive sessions x"
  by (simp add: stays_def)

text \<open>A member whose endpoint is gone is dropped: what the walk finds without it is what it finds with it.\<close>

lemma collected_without_expired:
  assumes "\<not> stays alive m member" "member \<notin> set members"
    and "kept = filter (stays alive (m(member := None))) members
      \<and> map Some recipients = map (m(member := None)) kept
      \<and> (\<forall>s. m' s = (if s \<in> set members \<and> \<not> stays alive (m(member := None)) s then None
                    else (m(member := None)) s))"
  shows "kept = filter (stays alive m) (member # members)
      \<and> map Some recipients = map m kept
      \<and> (\<forall>s. m' s = (if s \<in> set (member # members) \<and> \<not> stays alive m s then None else m s))"
proof -
  have other: "stays alive (m(member := None)) x = stays alive m x" if "x \<in> set members" for x
    using that assms(2) by (intro stays_other) blast
  have kept: "kept = filter (stays alive m) (member # members)"
    using conjunct1 [OF assms(3)] assms(1) by (auto simp: other intro!: filter_cong)
  then have "member \<notin> set kept" using assms(1) by simp
  with assms kept other show ?thesis by auto
qed

lemma collect_recipients_facts:
  assumes "collect_recipients alive members sessions metrics = (kept, recipients, sessions', metrics')"
    and "hm_inv sessions" and "distinct members"
  shows "kept = filter (stays alive (map_of sessions)) members
    \<and> map Some recipients = map (map_of sessions) kept
    \<and> hm_inv sessions'
    \<and> (\<forall>s. map_of sessions' s =
        (if s \<in> set members \<and> \<not> stays alive (map_of sessions) s then None else map_of sessions s))"
  using assms
proof (induction alive members sessions metrics arbitrary: kept recipients
    rule: collect_recipients.induct)
  case (1 alive sessions metrics)
  then show ?case by simp
next
  case (2 alive member members sessions metrics)
  show ?case
  proof (cases "map_of sessions member")
    case None
    with 2 show ?thesis by (auto simp: hm_find_def stays_def)
  next
    case (Some ep)
    show ?thesis
    proof (cases "alive ep")
      case True
      then obtain kept1 recipients1 where
        rec: "collect_recipients alive members sessions metrics = (kept1, recipients1, sessions', metrics')"
        and eqs: "kept = member # kept1" "recipients = ep # recipients1"
        using "2.prems"(1) Some by (auto simp: hm_find_def split: prod.splits)
      have "stays alive (map_of sessions) member" using True Some by (simp add: stays_def)
      with "2.IH"(3) [OF _ _ rec] True Some "2.prems" eqs show ?thesis
        by (auto simp: hm_find_def)
    next
      case False
      let ?sessions = "fst (hm_erase sessions member)"
      have erased: "map_of ?sessions = (map_of sessions)(member := None)" "hm_inv ?sessions"
        using "2.prems"(2) by (simp_all add: hm.erase_lookup hm.erase_invar)
      have member: "\<not> stays alive (map_of sessions) member" "member \<notin> set members"
        using False Some "2.prems"(3) by (simp_all add: stays_def)
      have "collect_recipients alive members ?sessions (map_option session_unregistered metrics) =
          (kept, recipients, sessions', metrics')"
        using "2.prems"(1) Some False by (simp add: hm_find_def)
      from "2.IH"(2) [OF _ False this erased(2)] Some "2.prems"(3)
      have "kept = filter (stays alive (map_of ?sessions)) members
        \<and> map Some recipients = map (map_of ?sessions) kept \<and> hm_inv sessions'
        \<and> (\<forall>s. map_of sessions' s =
            (if s \<in> set members \<and> \<not> stays alive (map_of ?sessions) s then None
             else map_of ?sessions s))"
        by (simp add: hm_find_def)
      then show ?thesis
        using collected_without_expired [OF member, of kept recipients "map_of sessions'"]
        unfolding erased(1) by blast
    qed
  qed
qed

lemma collect_recipients_metrics:
  assumes "collect_recipients alive members sessions metrics = (kept, recipients, sessions', metrics')"
    and "hm_inv sessions"
  shows "\<exists>k. length sessions = length sessions' + k \<and>
    metrics' = map_option (session_unregistered ^^ k) metrics"
  using assms
proof (induction alive members sessions metrics arbitrary: kept recipients
    rule: collect_recipients.induct)
  case (1 alive sessions metrics)
  then show ?case by (auto intro!: exI [of _ 0] simp: option.map_id)
next
  case (2 alive member members sessions metrics)
  show ?case
  proof (cases "map_of sessions member")
    case None
    with 2 show ?thesis by (simp add: hm_find_def)
  next
    case (Some ep)
    show ?thesis
    proof (cases "alive ep")
      case True
      with 2 Some show ?thesis by (auto simp: hm_find_def split: prod.splits)
    next
      case False
      let ?sessions = "fst (hm_erase sessions member)"
      have shorter: "hm_inv ?sessions" "length sessions = Suc (length ?sessions)"
        using "2.prems"(2) Some hm.erase_size [of sessions member]
        by (cases sessions; simp add: hm.erase_invar hm.erase_count)+
      have "collect_recipients alive members ?sessions (map_option session_unregistered metrics) =
          (kept, recipients, sessions', metrics')"
        using "2.prems"(1) Some False by (simp add: hm_find_def)
      from "2.IH"(2) [OF _ _ this shorter(1)] Some False obtain k where
        "length ?sessions = length sessions' + k"
        "metrics' = map_option (session_unregistered ^^ k) (map_option session_unregistered metrics)"
        by (auto simp: hm_find_def)
      with shorter(2) show ?thesis
        by (intro exI [of _ "Suc k"]) (auto simp: option.map_comp funpow_swap1 intro!: option.map_cong)
    qed
  qed
qed

lemma registered_after_unregistered:
  "registered_sessions ((session_unregistered ^^ k) m) = registered_sessions m - of_nat k"
  by (induction k) (simp_all add: session_unregistered_def)

lemma attempts_fold:
  "fold (\<lambda>_ m. delivery_attempted m) xs m =
    m\<lparr>broadcast_delivery_attempts := broadcast_delivery_attempts m + of_nat (length xs)\<rparr>"
  by (induction xs arbitrary: m) (simp_all add: delivery_attempted_def algebra_simps)

text \<open>Encoding never fails, so \<open>publish\<close> always reaches its members.\<close>

lemma publish_facts:
  assumes "publish alive r metrics ev = (sent, r', metrics')" and "reg_inv r"
  shows "reg_inv r'"
    and "reg_room_members r' =
      filter (stays alive (connected r)) (update_members (reg_room_members r) ev)"
    and "map (Some \<circ> fst) sent = map (connected r) (reg_room_members r')"
    and "snd ` set sent \<subseteq> {Some (frame (event_type ev) (event_payload ev))}"
    and "connected r' s =
      (if s \<in> set (update_members (reg_room_members r) ev) \<and> \<not> stays alive (connected r) s
       then None else connected r s)"
    and "\<exists>k. length (reg_sessions r) = length (reg_sessions r') + k \<and> metrics' =
      map_option (fold (\<lambda>_ m. delivery_attempted m) sent \<circ> (session_unregistered ^^ k)) metrics"
proof -
  obtain kept recipients sessions metrics1 where
    scan: "collect_recipients alive (update_members (reg_room_members r) ev) (reg_sessions r) metrics
      = (kept, recipients, sessions, metrics1)"
    by (metis prod_cases4)
  then have result:
    "sent = map (\<lambda>ep. (ep, Some (frame (event_type ev) (event_payload ev)))) recipients"
    "r' = r\<lparr>reg_sessions := sessions, reg_room_members := kept\<rparr>"
    "metrics' = map_option (fold (\<lambda>_ m. delivery_attempted m) recipients) metrics1"
    using assms(1) by (auto simp: publish_def encode_room_event_eq Let_def)
  have inv: "hm_inv (reg_sessions r)" "distinct (update_members (reg_room_members r) ev)"
    using assms(2) by (simp_all add: reg_inv_def update_members_distinct)
  note facts = collect_recipients_facts [OF scan inv]
  show "reg_inv r'" using facts inv(2) by (simp add: reg_inv_def result)
  show "reg_room_members r' =
      filter (stays alive (connected r)) (update_members (reg_room_members r) ev)"
    using facts by (simp add: result)
  show "map (Some \<circ> fst) sent = map (connected r) (reg_room_members r')"
    using facts by (simp add: result comp_def)
  show "snd ` set sent \<subseteq> {Some (frame (event_type ev) (event_payload ev))}"
    by (auto simp: result)
  show "connected r' s =
      (if s \<in> set (update_members (reg_room_members r) ev) \<and> \<not> stays alive (connected r) s
       then None else connected r s)"
    using facts by (simp add: result)
  have same: "fold (\<lambda>_ m. delivery_attempted m) recipients = fold (\<lambda>_ m. delivery_attempted m) sent"
    by (simp add: result attempts_fold fun_eq_iff)
  show "\<exists>k. length (reg_sessions r) = length (reg_sessions r') + k \<and> metrics' =
      map_option (fold (\<lambda>_ m. delivery_attempted m) sent \<circ> (session_unregistered ^^ k)) metrics"
    using collect_recipients_metrics [OF scan inv(1)]
    by (auto simp: result(2,3) same option.map_comp)
qed

section \<open>Runs of the registry\<close>

text \<open>
  The operations of the server's threads in the order in which they take the mutex. A
  publication comes with the endpoints that have expired by then.
\<close>

datatype 'ep registry_op =
    Register SessionId 'ep
  | Unregister SessionId
  | Publish "'ep list" RoomEvent

definition living :: "'ep list \<Rightarrow> 'ep \<Rightarrow> bool" where
  "living expired ep \<longleftrightarrow> ep \<notin> set expired"

fun registry_step ::
  "'ep registry_op \<Rightarrow> 'ep SessionRegistry \<times> metrics_ptr \<Rightarrow> 'ep SessionRegistry \<times> metrics_ptr" where
  "registry_step (Register s ep) (r, metrics) = snd (register_session r metrics s ep)"
| "registry_step (Unregister s) (r, metrics) = unregister_session r metrics s"
| "registry_step (Publish expired ev) (r, metrics) = snd (publish (living expired) r metrics ev)"

lemma register_session_gauge:
  assumes "reg_inv r" "gauge_exact r metrics" "register_session r metrics s ep = (ins, r', metrics')"
  shows "gauge_exact r' metrics'"
proof -
  have "length (reg_sessions r') =
      (if ins then Suc (length (reg_sessions r)) else length (reg_sessions r))"
    using assms hm.emplace_size [of "reg_sessions r" s ep]
      hm.emplace_inserted [of "reg_sessions r" s ep]
    by (auto simp: reg_inv_def register_session_def split: prod.splits)
  with assms(2,3) show ?thesis
    by (cases metrics) (auto simp: register_session_def session_registered_def split: prod.splits)
qed

lemma unregister_session_gauge:
  assumes "reg_inv r" "gauge_exact r metrics" "unregister_session r metrics s = (r', metrics')"
  shows "gauge_exact r' metrics'"
proof -
  have inv: "hm_inv (reg_sessions r)" using assms(1) by (simp add: reg_inv_def)
  have nonempty: "map_of (reg_sessions r) s \<noteq> None \<Longrightarrow>
      of_nat (length (reg_sessions r) - Suc 0) = (of_nat (length (reg_sessions r)) - 1 :: uint64)"
    by (cases "reg_sessions r") auto
  show ?thesis
    using assms(2,3) nonempty hm.erase_size [OF inv, of s] hm.erase_count [OF inv, of s]
    by (cases metrics)
      (auto simp: unregister_session_def session_unregistered_def split: prod.splits if_splits)
qed

lemma publish_gauge:
  assumes "reg_inv r" "gauge_exact r metrics" "publish alive r metrics ev = (sent, r', metrics')"
  shows "gauge_exact r' metrics'"
proof -
  obtain k where "length (reg_sessions r) = length (reg_sessions r') + k"
    "metrics' = map_option (fold (\<lambda>_ m. delivery_attempted m) sent \<circ> (session_unregistered ^^ k)) metrics"
    using publish_facts(6) [OF assms(3,1)] by blast
  with assms(2) show ?thesis
    by (cases metrics) (auto simp: attempts_fold registered_after_unregistered)
qed

lemma registry_step_keeps:
  assumes "reg_inv r \<and> gauge_exact r metrics" and "registry_step op (r, metrics) = (r', metrics')"
  shows "reg_inv r' \<and> gauge_exact r' metrics'"
proof (cases op)
  case (Register s ep)
  with assms show ?thesis
    by (cases "register_session r metrics s ep")
      (auto dest: register_session_gauge intro: register_session_inv)
next
  case (Unregister s)
  with assms show ?thesis
    by (auto dest: unregister_session_gauge intro: unregister_session_inv)
next
  case (Publish expired ev)
  with assms show ?thesis
    by (cases "publish (living expired) r metrics ev")
      (auto dest: publish_gauge intro: publish_facts(1))
qed

lemma registry_run_keeps:
  assumes "reg_inv (fst st) \<and> gauge_exact (fst st) (snd st)"
  shows "reg_inv (fst (fold registry_step ops st))
    \<and> gauge_exact (fst (fold registry_step ops st)) (snd (fold registry_step ops st))"
  using assms
proof (induction ops arbitrary: st)
  case (Cons op ops)
  have "reg_inv (fst (registry_step op st))
      \<and> gauge_exact (fst (registry_step op st)) (snd (registry_step op st))"
    using registry_step_keeps [OF Cons.prems, of op] by (cases "registry_step op st") simp
  from Cons.IH [OF this] show ?case by simp
qed simp

text \<open>A sequence of publications with nothing else in between: the number of packets sent.\<close>

fun publish_all ::
  "('ep \<Rightarrow> bool) \<Rightarrow> RoomEvent list \<Rightarrow> 'ep SessionRegistry \<times> metrics_ptr
    \<Rightarrow> nat \<times> 'ep SessionRegistry \<times> metrics_ptr" where
  "publish_all alive [] st = (0, st)"
| "publish_all alive (ev # evs) (r, metrics) =
     (let (sent, r', metrics') = publish alive r metrics ev;
          (n, st) = publish_all alive evs (r', metrics')
      in (length sent + n, st))"

text \<open>Registered sessions whose endpoints live: what \<open>publish\<close> then does to the members.\<close>

definition all_live :: "('ep \<Rightarrow> bool) \<Rightarrow> 'ep SessionRegistry \<Rightarrow> SessionId list \<Rightarrow> bool" where
  "all_live alive r ss \<longleftrightarrow> reg_inv r \<and> (\<forall>s\<in>set ss. stays alive (connected r) s)"

lemma publish_all_live:
  assumes "publish alive r metrics ev = (sent, r', metrics')"
    and "all_live alive r ss" and "set (update_members (reg_room_members r) ev) \<subseteq> set ss"
  shows "all_live alive r' ss" "reg_room_members r' = update_members (reg_room_members r) ev"
    "length sent = length (reg_room_members r')"
proof -
  note facts = publish_facts [OF assms(1)]
  have inv: "reg_inv r" using assms(2) by (simp add: all_live_def)
  show members: "reg_room_members r' = update_members (reg_room_members r) ev"
    using facts(2) [OF inv] assms(2,3) by (auto simp: all_live_def filter_id_conv)
  have "connected r' s = connected r s" for s
    using facts(5) [OF inv, of s] assms(2,3) by (auto simp: all_live_def)
  then show "all_live alive r' ss"
    using assms(2) facts(1) [OF inv] by (simp add: all_live_def stays_def)
  show "length sent = length (reg_room_members r')"
    using arg_cong [OF facts(3) [OF inv], of length] by simp
qed

lemma joins_fan_out:
  assumes "all_live alive r (ss @ reg_room_members r)" "distinct (ss @ reg_room_members r)"
    and "publish_all alive (map (\<lambda>s. PlayerJoinedEvent s pos) ss) (r, metrics) = (n, r', metrics')"
  shows "2 * n = length ss * (length ss + 1 + 2 * length (reg_room_members r))
    \<and> all_live alive r' (reg_room_members r') \<and> reg_room_members r' = rev ss @ reg_room_members r"
  using assms
proof (induction ss arbitrary: r metrics n)
  case (Cons s ss)
  obtain sent r1 metrics1 where pub: "publish alive r metrics (PlayerJoinedEvent s pos) = (sent, r1, metrics1)"
    by (metis prod_cases3)
  obtain n1 where rec: "publish_all alive (map (\<lambda>s. PlayerJoinedEvent s pos) ss) (r1, metrics1) =
      (n1, r', metrics')" and n: "n = length sent + n1"
    using Cons.prems(3) pub by (auto simp: split: prod.splits)
  have members: "update_members (reg_room_members r) (PlayerJoinedEvent s pos) = s # reg_room_members r"
    using Cons.prems(2) by (simp add: update_members_def set_insert_def)
  have "set (s # reg_room_members r) \<subseteq> set ((s # ss) @ reg_room_members r)" by auto
  note step = publish_all_live [OF pub Cons.prems(1), unfolded members, OF this]
  have r1: "all_live alive r1 (ss @ reg_room_members r1)" "reg_room_members r1 = s # reg_room_members r"
    "length sent = Suc (length (reg_room_members r))"
    using step by (simp_all add: all_live_def)
  have "distinct (ss @ reg_room_members r1)" using Cons.prems(2) r1(2) by auto
  from Cons.IH [OF r1(1) this rec] r1(2,3) n show ?case by (auto simp: algebra_simps)
qed (simp add: all_live_def)

lemma leaves_fan_out:
  assumes "all_live alive r (reg_room_members r)" "reg_room_members r = ss @ rest" "distinct (ss @ rest)"
    and "publish_all alive (map (\<lambda>s. PlayerLeftEvent s reason) ss) (r, metrics) = (n, r', metrics')"
  shows "2 * n + length ss = length ss * (length ss + 2 * length rest)
    \<and> reg_room_members r' = rest"
  using assms
proof (induction ss arbitrary: r metrics n)
  case (Cons s ss)
  obtain sent r1 metrics1 where pub: "publish alive r metrics (PlayerLeftEvent s reason) = (sent, r1, metrics1)"
    by (metis prod_cases3)
  obtain n1 where rec: "publish_all alive (map (\<lambda>s. PlayerLeftEvent s reason) ss) (r1, metrics1) =
      (n1, r', metrics')" and n: "n = length sent + n1"
    using Cons.prems(4) pub by (auto simp: split: prod.splits)
  have "filter (\<lambda>y. y \<noteq> s) (ss @ rest) = ss @ rest"
    using Cons.prems(3) by (subst filter_id_conv) auto
  then have members: "update_members (reg_room_members r) (PlayerLeftEvent s reason) = ss @ rest"
    using Cons.prems(2) by (simp add: update_members_def set_erase_def)
  have "set (ss @ rest) \<subseteq> set (reg_room_members r)" using Cons.prems(2) by auto
  note step = publish_all_live [OF pub Cons.prems(1), unfolded members, OF this]
  have r1: "all_live alive r1 (reg_room_members r1)" "reg_room_members r1 = ss @ rest"
    "length sent = length (ss @ rest)"
    using step Cons.prems(2) by (auto simp: all_live_def)
  have "distinct (ss @ rest)" using Cons.prems(3) by auto
  from Cons.IH [OF r1(1,2) this rec] r1(3) n show ?case by (simp add: algebra_simps)
qed simp

section \<open>Properties\<close>

text \<open>
  C11: \<open>publish\<close> sends one packet, the encoding of the event, to each connected and living
  session that is in the room after the event and to nobody else: the joiner receives its own
  join, the leaver not its own leave. Exactly these sessions stay members, each once.
\<close>
theorem publish_reaches_members:
  assumes "publish alive r metrics ev = (sent, r', metrics')" and "reg_inv r"
  shows "(\<exists>packet. encode_room_event ev = Inr packet \<and>
      map (\<lambda>(ep, p). (Some ep, p)) sent =
      map (\<lambda>s. (hm_find (reg_sessions r) s, packet)) (reg_room_members r'))
    \<and> distinct (reg_room_members r')
    \<and> set (reg_room_members r') = {s.
        (case ev of PlayerJoinedEvent j _ \<Rightarrow> s = j \<or> s \<in> set (reg_room_members r)
         | PlayerMovedEvent _ _ \<Rightarrow> s \<in> set (reg_room_members r)
         | PlayerLeftEvent l _ \<Rightarrow> s \<noteq> l \<and> s \<in> set (reg_room_members r))
        \<and> (\<exists>ep. hm_find (reg_sessions r) s = Some ep \<and> alive ep)}"
proof (intro conjI)
  note facts = publish_facts [OF assms]
  let ?packet = "Some (frame (event_type ev) (event_payload ev))"
  have "map (\<lambda>(ep, p). (Some ep, p)) sent = map (\<lambda>e. (e, ?packet)) (map (Some \<circ> fst) sent)"
    using facts(4) by (auto simp: case_prod_beta image_subset_iff)
  then have "map (\<lambda>(ep, p). (Some ep, p)) sent =
      map (\<lambda>s. (hm_find (reg_sessions r) s, ?packet)) (reg_room_members r')"
    by (simp add: facts(3) hm_find_def [abs_def])
  then show "\<exists>packet. encode_room_event ev = Inr packet \<and>
      map (\<lambda>(ep, p). (Some ep, p)) sent =
      map (\<lambda>s. (hm_find (reg_sessions r) s, packet)) (reg_room_members r')"
    by (simp add: encode_room_event_eq)
  show "distinct (reg_room_members r')" using facts(1) by (simp add: reg_inv_def)
  show "set (reg_room_members r') = {s.
        (case ev of PlayerJoinedEvent j _ \<Rightarrow> s = j \<or> s \<in> set (reg_room_members r)
         | PlayerMovedEvent _ _ \<Rightarrow> s \<in> set (reg_room_members r)
         | PlayerLeftEvent l _ \<Rightarrow> s \<noteq> l \<and> s \<in> set (reg_room_members r))
        \<and> (\<exists>ep. hm_find (reg_sessions r) s = Some ep \<and> alive ep)}"
    unfolding facts(2)
    by (auto simp: update_members_set stays_def hm_find_def split: RoomEvent.splits option.splits)
qed

definition three_connected :: "nat SessionRegistry" where
  "three_connected = \<lparr>reg_sessions = [(1, 10), (2, 20), (3, 30)],
     reg_room_members = [1, 2]\<rparr>"

lemma three_connected_inv: "reg_inv three_connected"
  by (simp add: reg_inv_def three_connected_def)

theorem publish_reaches_members_witness:
  "set (reg_room_members (fst (snd (publish (living [20]) three_connected None
     (PlayerJoinedEvent 3 origin))))) = {1, 3}"
proof -
  obtain sent r' metrics' where run: "publish (living [20]) three_connected None
      (PlayerJoinedEvent 3 origin) = (sent, r', metrics')"
    by (metis prod_cases3)
  have "{s. (s = 3 \<or> s \<in> set (reg_room_members three_connected)) \<and>
      (\<exists>ep. hm_find (reg_sessions three_connected) s = Some ep \<and> living [20] ep)} =
    {1, 3}"
    by (auto simp: three_connected_def hm_find_def living_def split: if_splits)
  with publish_reaches_members [OF run three_connected_inv] show ?thesis
    by (simp add: run)
qed

text \<open>
  Whatever the order of registrations, removals and publications, and whichever endpoints
  have expired when, the gauge of registered sessions is the number of sessions in the table
  (as a 64-bit counter), and destroying the registry brings it back to zero.
\<close>
theorem registered_gauge_exact:
  assumes "fold registry_step ops (SessionRegistry_new, Some ServerMetrics_new) = (r, Some m)"
  shows "registered_sessions m = of_nat (connected_count r) \<and>
    map_option registered_sessions (SessionRegistry_destroy r (Some m)) = Some 0"
proof -
  have "gauge_exact SessionRegistry_new (Some ServerMetrics_new)"
    by (simp add: SessionRegistry_new_def ServerMetrics_new_def)
  with SessionRegistry_new_inv have "gauge_exact r (Some m)"
    using registry_run_keeps [of "(SessionRegistry_new, Some ServerMetrics_new)" ops]
    unfolding assms fst_conv snd_conv by blast
  then show ?thesis
    by (simp add: connected_count_def SessionRegistry_destroy_def registered_after_unregistered)
qed

theorem registered_gauge_exact_witness:
  "let (r, m) = fold registry_step
      [Register 1 (10 :: nat), Register 2 20, Register 1 30,
       Publish [] (PlayerJoinedEvent 1 origin),
       Publish [10] (PlayerJoinedEvent 2 origin)]
      (SessionRegistry_new, Some ServerMetrics_new)
   in map_option registered_sessions m = Some 1 \<and> connected_count r = 1"
proof -
  let ?ops = "[Register 1 (10 :: nat), Register 2 20, Register 1 30,
       Publish [] (PlayerJoinedEvent 1 origin),
       Publish [10] (PlayerJoinedEvent 2 origin)]"
  let ?r = "\<lparr>reg_sessions = [(2, 20 :: nat)], reg_room_members = [2]\<rparr>"
  note ops = register_session_def hm_try_emplace_def hm_erase_def publish_def encode_room_event_eq
    update_members_def set_insert_def hm_find_def living_def SessionRegistry_new_def
  obtain m where run: "fold registry_step ?ops (SessionRegistry_new, Some ServerMetrics_new) = (?r, Some m)"
    by (simp add: ops)
  from registered_gauge_exact [OF run] show ?thesis
    unfolding run by (simp add: connected_count_def)
qed

text \<open>
  The traffic of \<open>n\<close> players entering an empty room one after the other and leaving it in
  turn: with every session connected, the joins cause \<open>n (n + 1) / 2\<close> deliveries and the
  leaves \<open>n (n - 1) / 2\<close>, and the room is empty afterwards.
\<close>
theorem join_leave_fan_out:
  assumes "reg_inv r" "reg_room_members r = []" "distinct ss"
    and "\<forall>s\<in>set ss. \<exists>ep. hm_find (reg_sessions r) s = Some ep \<and> alive ep"
    and "publish_all alive (map (\<lambda>s. PlayerJoinedEvent s pos) ss) (r, metrics) = (joins, r1, metrics1)"
    and "publish_all alive (map (\<lambda>s. PlayerLeftEvent s reason) (rev ss)) (r1, metrics1) =
      (leaves, r2, metrics2)"
  shows "joins = length ss * (length ss + 1) div 2 \<and> leaves = length ss * (length ss - 1) div 2
    \<and> room_member_count r1 = length ss \<and> room_member_count r2 = 0"
proof -
  have live: "all_live alive r (ss @ reg_room_members r)"
    using assms(1,2,4) by (auto simp: all_live_def stays_def hm_find_def)
  have ins: "2 * joins = length ss * (length ss + 1)" "all_live alive r1 (reg_room_members r1)"
    "reg_room_members r1 = rev ss @ []"
    using joins_fan_out [OF live _ assms(5)] assms(2,3) by auto
  have "2 * leaves + length ss = length ss * length ss" "reg_room_members r2 = []"
    using leaves_fan_out [OF ins(2,3) _ assms(6)] assms(3) by simp_all
  moreover have "length ss * length ss = length ss * (length ss - 1) + length ss"
    by (cases ss) simp_all
  ultimately have outs: "2 * leaves = length ss * (length ss - 1)" "reg_room_members r2 = []"
    by linarith+
  show ?thesis
    unfolding ins(1) [symmetric] outs(1) [symmetric] by (simp add: ins(3) outs(2) room_member_count_def)
qed

definition eight_ids :: "SessionId list" where
  "eight_ids = map of_nat [1..<9]"

theorem join_leave_fan_out_witness:
  "let r = \<lparr>reg_sessions = map (\<lambda>s. (s, ())) eight_ids, reg_room_members = []\<rparr>;
       (joins, st) = publish_all (\<lambda>_. True) (map (\<lambda>s. PlayerJoinedEvent s origin) eight_ids) (r, None);
       (leaves, _) = publish_all (\<lambda>_. True) (map (\<lambda>s. PlayerLeftEvent s left_room) (rev eight_ids)) st
   in joins = 36 \<and> leaves = 28"
proof -
  let ?r = "\<lparr>reg_sessions = map (\<lambda>s. (s, ())) eight_ids, reg_room_members = []\<rparr>"
  have ids: "distinct eight_ids" "length eight_ids = 8"
    by (simp_all add: eight_ids_def upt_rec)
  have inv: "reg_inv ?r" using ids(1) by (simp add: reg_inv_def hm_inv_def comp_def)
  have conn: "\<forall>s\<in>set eight_ids. \<exists>ep. hm_find (reg_sessions ?r) s = Some ep \<and> True"
    by (auto simp: hm_find_def map_of_map_restrict restrict_map_def)
  obtain joins r1 metrics1 where
    joins: "publish_all (\<lambda>_. True) (map (\<lambda>s. PlayerJoinedEvent s origin) eight_ids) (?r, None) =
      (joins, r1, metrics1)"
    by (metis prod_cases3)
  obtain leaves r2 metrics2 where
    leaves: "publish_all (\<lambda>_. True) (map (\<lambda>s. PlayerLeftEvent s left_room) (rev eight_ids)) (r1, metrics1) =
      (leaves, r2, metrics2)"
    by (metis prod_cases3)
  from join_leave_fan_out [OF inv _ ids(1) conn joins leaves] ids(2) show ?thesis
    by (simp add: joins leaves)
qed

end
