(* ===== verification/Server.thy ===== *)
theory Server
  imports Session_Properties Session_Registry
begin

text \<open>
  \<open>src/network/server.cpp\<close>, \<open>run_session\<close> of \<open>src/network/session.cpp\<close> and the wiring of
  \<open>src/main.cpp\<close>: the accept loop gives every connection the next id and starts its session; the
  sessions share one room worker and one registry; the worker's event handler is the registry's
  \<open>publish\<close>, which delivers to the sessions.

  The session objects on the heap are a map from their ids; the registry's weak pointer to a
  session is its id. The worker and the server's metrics are shared: a handler of a session
  runs on the session with the current ones put in, and what it leaves of them is put back.
\<close>

section \<open>State\<close>

datatype run_server_state = Accepting | Run_server_returned | Run_server_threw

record Server =
  srv_acceptor :: run_server_state
  srv_next_session_id :: uint64
  srv_worker :: RoomWorker
  srv_registry :: "SessionId SessionRegistry"
  srv_metrics :: metrics_ptr
  srv_sessions :: "SessionId \<rightharpoonup> Session"

definition enter_session :: "Server \<Rightarrow> Session \<Rightarrow> Session" where
  "enter_session srv s = s\<lparr>se_room_worker := srv_worker srv,
     se_metrics := (case se_metrics s of None \<Rightarrow> None
       | Some (_, sm) \<Rightarrow> map_option (\<lambda>m. (m, sm)) (srv_metrics srv))\<rparr>"

definition write_back :: "SessionId \<Rightarrow> Session \<Rightarrow> Server \<Rightarrow> Server" where
  "write_back i s srv = srv\<lparr>srv_worker := se_room_worker s,
     srv_metrics := (case se_metrics s of None \<Rightarrow> srv_metrics srv | Some (m, _) \<Rightarrow> Some m),
     srv_sessions := (srv_sessions srv)(i \<mapsto> s)\<rparr>"

section \<open>Sessions\<close>

text \<open>The destruction of the session object and, with it, of its metrics.\<close>

definition end_session :: "Session \<Rightarrow> Server \<Rightarrow> Server" where
  "end_session s srv = srv\<lparr>srv_metrics :=
     (case se_metrics (Session_destroy (enter_session srv s)) of
        None \<Rightarrow> srv_metrics srv
      | Some (m, sm) \<Rightarrow> Some (SessionMetrics_destroy sm m))\<rparr>"

text \<open>\<open>run_session\<close> up to the first read: metrics (whose creation may throw), session, registration.\<close>

definition session_metrics ::
  "SessionId \<Rightarrow> metrics_ptr \<Rightarrow> (metrics_ptr \<times> metrics_pair option, metrics_error) expected" where
  "session_metrics session_id metrics =
     (case metrics of
        None \<Rightarrow> Inr (None, None)
      | Some m \<Rightarrow>
          (case create_session m session_id of
             Inl e \<Rightarrow> Inl e
           | Inr (m', sm) \<Rightarrow> Inr (Some m', Some (m', sm))))"

definition run_session :: "growth \<Rightarrow> SessionId \<Rightarrow> Server \<Rightarrow> Server" where
  "run_session grow session_id srv =
     (case session_metrics session_id (srv_metrics srv) of
        Inl e \<Rightarrow> srv
      | Inr (server_metrics, metrics) \<Rightarrow>
          (let session = Session_new grow session_id (srv_worker srv) metrics;
               (registered, registry, server_metrics) =
                 register_session (srv_registry srv) server_metrics session_id session_id;
               srv1 = srv\<lparr>srv_registry := registry, srv_metrics := server_metrics\<rparr>
           in if \<not> registered then end_session session srv1
              else srv1\<lparr>srv_sessions := (srv_sessions srv1)(session_id \<mapsto> session)\<rparr>))"

text \<open>\<open>run_session\<close> after \<open>run\<close> has returned or thrown.\<close>

definition run_session_end :: "SessionId \<Rightarrow> Server \<Rightarrow> Server" where
  "run_session_end session_id srv =
     (let (registry, metrics) = unregister_session (srv_registry srv) (srv_metrics srv) session_id
      in srv\<lparr>srv_registry := registry, srv_metrics := metrics\<rparr>)"

section \<open>The accept loop\<close>

datatype accept_result = Accepted | Accept_operation_aborted | Accept_error

definition accept_completed :: "growth \<Rightarrow> accept_result \<Rightarrow> Server \<Rightarrow> Server" where
  "accept_completed grow result srv =
     (case result of
        Accept_operation_aborted \<Rightarrow> srv\<lparr>srv_acceptor := Run_server_returned\<rparr>
      | Accept_error \<Rightarrow> srv\<lparr>srv_acceptor := Run_server_threw\<rparr>
      | Accepted \<Rightarrow>
          run_session grow (srv_next_session_id srv)
            (srv\<lparr>srv_next_session_id := srv_next_session_id srv + 1\<rparr>))"

section \<open>The event handler\<close>

definition deliver_to :: "SessionId \<times> SharedPacket \<Rightarrow> Server \<Rightarrow> Server" where
  "deliver_to recipient srv =
     (case srv_sessions srv (fst recipient) of
        None \<Rightarrow> srv
      | Some s \<Rightarrow> write_back (fst recipient) (deliver (snd recipient) (enter_session srv s)) srv)"

definition publish_event :: "Server event_handler" where
  "publish_event event srv =
     (let (sent, registry, metrics) =
        publish (\<lambda>i. srv_sessions srv i \<noteq> None) (srv_registry srv) (srv_metrics srv) event
      in (True, fold deliver_to sent (srv\<lparr>srv_registry := registry, srv_metrics := metrics\<rparr>)))"

definition touch_metrics :: "Server metrics_access" where
  "touch_metrics f srv = srv\<lparr>srv_metrics := map_option f (srv_metrics srv)\<rparr>"

section \<open>Construction and steps\<close>

definition Server_new :: "metrics_ptr \<Rightarrow> Server" where
  "Server_new metrics =
     (let srv = \<lparr>srv_acceptor = Accepting, srv_next_session_id = 1,
            srv_worker = fst (RoomWorker_new no_metrics ()), srv_registry = SessionRegistry_new,
            srv_metrics = metrics, srv_sessions = Map.empty\<rparr>;
          (worker, srv) = RoomWorker_new touch_metrics srv
      in srv\<lparr>srv_worker := worker\<rparr>)"

text \<open>
  What happens outside the handlers of the sessions, with the number of connections accepted:
  the accept loop, the end of a session's \<open>run\<close>, the destruction of a session nobody holds any
  more, and one round of the room worker.
\<close>

inductive background_step :: "growth \<Rightarrow> Server \<Rightarrow> nat \<Rightarrow> Server \<Rightarrow> bool" for grow where
  server_accepts: "srv_acceptor srv = Accepting \<Longrightarrow>
    background_step grow srv 1 (accept_completed grow Accepted srv)"
| server_ends: "srv_acceptor srv = Accepting \<Longrightarrow> result \<noteq> Accepted \<Longrightarrow>
    background_step grow srv 0 (accept_completed grow result srv)"
| session_unregisters: "srv_sessions srv i = Some s \<Longrightarrow> se_reader s = Reader_returned \<Longrightarrow>
    background_step grow srv 0 (run_session_end i srv)"
| session_destroyed: "srv_sessions srv i = Some s \<Longrightarrow> se_reader s = Reader_returned \<Longrightarrow>
    se_writer s = No_writer \<Longrightarrow> se_posted s = [] \<Longrightarrow> hm_find (reg_sessions (srv_registry srv)) i = None \<Longrightarrow>
    background_step grow srv 0 ((end_session s srv)\<lparr>srv_sessions := (srv_sessions srv)(i := None)\<rparr>)"
| worker_moves: "worker_iteration (Some publish_event) touch_metrics (srv_worker srv, srv) = Some (w, srv') \<Longrightarrow>
    background_step grow srv 0 (srv'\<lparr>srv_worker := w\<rparr>)"

text \<open>A step of the running server, with the connections accepted and the commands submitted in it.\<close>

inductive server_step :: "growth \<Rightarrow> Server \<Rightarrow> nat \<Rightarrow> RoomCommand list \<Rightarrow> Server \<Rightarrow> bool" for grow where
  session_moves: "srv_sessions srv i = Some s \<Longrightarrow> session_handler grow (enter_session srv s) s' \<Longrightarrow>
    server_step grow srv 0 (new_commands (enter_session srv s) s') (write_back i s' srv)"
| in_background: "background_step grow srv k srv' \<Longrightarrow> server_step grow srv k [] srv'"

inductive server_run :: "growth \<Rightarrow> Server \<Rightarrow> nat \<Rightarrow> RoomCommand list \<Rightarrow> Server \<Rightarrow> bool" for grow where
  server_start: "server_run grow srv 0 [] srv"
| server_more: "server_run grow srv n cs srv1 \<Longrightarrow> server_step grow srv1 k ds srv2 \<Longrightarrow>
    server_run grow srv (n + k) (cs @ ds) srv2"

section \<open>A room whose players keep the order\<close>

fun command_session :: "RoomCommand \<Rightarrow> SessionId" where
  "command_session (JoinCommand i) = i"
| "command_session (MoveCommand i _) = i"
| "command_session (LeaveCommand i _) = i"

definition commands_of :: "SessionId \<Rightarrow> RoomCommand list \<Rightarrow> RoomCommand list" where
  "commands_of i cs = filter (\<lambda>c. command_session c = i) cs"

lemma commands_of_append: "commands_of i (cs @ ds) = commands_of i cs @ commands_of i ds"
  by (simp add: commands_of_def)

definition all_in_order :: "RoomCommand list \<Rightarrow> bool" where
  "all_in_order cs \<longleftrightarrow> (\<forall>i. seat i (commands_of i cs) False \<noteq> None)"

lemma all_in_order_prefix: "all_in_order (cs @ ds) \<Longrightarrow> all_in_order cs"
  by (auto simp: all_in_order_def commands_of_append seat_append bind_eq_None_conv)

text \<open>Such a room refuses nothing, and holds exactly the players that are seated.\<close>

lemma room_accepts_in_order:
  assumes "all_in_order cs" "apply_commands Room_new cs = (evs, r)"
  shows "length evs = length cs \<and> room_inv r \<and>
    (\<forall>i. positions r i \<noteq> None \<longleftrightarrow> seat i (commands_of i cs) False = Some True)"
  using assms
proof (induction cs arbitrary: evs r rule: rev_induct)
  case Nil
  then show ?case by (auto simp: commands_of_def Room_new_def room_inv_def)
next
  case (snoc c cs)
  obtain evs1 r1 where before: "apply_commands Room_new cs = (evs1, r1)" by fastforce
  obtain res where app: "Room_apply r1 c = (res, r)"
    and evs: "evs = evs1 @ (case res of Inl _ \<Rightarrow> [] | Inr ev \<Rightarrow> [ev])"
    using snoc.prems(2) before
    by (cases "Room_apply r1 c") (auto simp: apply_commands_append split: sum.splits)
  note IH = snoc.IH [OF all_in_order_prefix [OF snoc.prems(1)] before]
  have inv: "room_inv r1" using IH by blast
  have spec: "spec_apply (positions r1) c = (res, positions r)"
    by (rule Room_apply_refines [OF inv app])
  have "room_inv r" using Room_apply_inv [OF inv, of c] app by simp
  moreover have others: "commands_of i (cs @ [c]) = commands_of i cs @ (if command_session c = i then [c] else [])" for i
    by (simp add: commands_of_def)
  have "seat (command_session c) (commands_of (command_session c) (cs @ [c])) False \<noteq> None"
    using snoc.prems(1) by (simp add: all_in_order_def)
  then obtain j where j: "seat (command_session c) (commands_of (command_session c) cs) False = Some j"
    "seat (command_session c) [c] j \<noteq> None"
    by (auto simp: others seat_append bind_eq_Some_conv)
  have here: "positions r1 (command_session c) \<noteq> None \<longleftrightarrow> j" using IH j(1) by simp
  have ok: "is_ok res"
    using spec j(2) here by (cases c) (auto simp: domIff split: if_splits)
  have after: "positions r (command_session c) \<noteq> None \<longleftrightarrow> seat (command_session c) [c] j = Some True"
    using spec j(2) here by (cases c) (auto simp: domIff split: if_splits dest!: sym [of _ "positions r"])
  have frame: "positions r i = positions r1 i" if "i \<noteq> command_session c" for i
    using spec that by (cases c) (auto split: if_splits dest!: sym [of _ "positions r"])
  have "positions r i \<noteq> None \<longleftrightarrow> seat i (commands_of i (cs @ [c])) False = Some True" for i
    using after frame [of i] IH j(1) by (cases "i = command_session c") (auto simp: others seat_append)
  moreover have "length evs = length (cs @ [c])" using ok IH evs by (cases res) simp_all
  ultimately show ?case by blast
qed

section \<open>The invariant\<close>

text \<open>
  After \<open>n\<close> accepted connections and the commands \<open>log\<close>: the rest of the program outside the
  worker is in order when the sessions are well formed, have ids up to \<open>n\<close>, and are seated in
  the log as they believe.
\<close>

definition env_ok :: "nat \<Rightarrow> RoomCommand list \<Rightarrow> Server \<Rightarrow> bool" where
  "env_ok n log srv \<longleftrightarrow>
     srv_next_session_id srv = of_nat (Suc n) \<and>
     reg_inv (srv_registry srv) \<and>
     (\<forall>i. connected (srv_registry srv) i \<noteq> None \<longrightarrow> unat i \<le> n) \<and>
     (\<forall>i s. srv_sessions srv i = Some s \<longrightarrow>
        session_inv s \<and> se_session_id s = i \<and> unat i \<le> n \<and>
        seat i (commands_of i log) False = Some (se_joined_room s))"

definition srv_inv :: "nat \<Rightarrow> RoomCommand list \<Rightarrow> Server \<Rightarrow> bool" where
  "srv_inv n log srv \<longleftrightarrow>
     env_ok n log srv \<and> worker_inv (srv_worker srv) log \<and>
     \<not> cq_closed (rw_commands (srv_worker srv)) \<and>
     all_in_order log \<and> (\<forall>c\<in>set log. unat (command_session c) \<le> n)"

lemma env_ok_metrics [simp]:
  "env_ok n log (srv\<lparr>srv_metrics := m\<rparr>) = env_ok n log srv"
  "env_ok n log (srv\<lparr>srv_worker := w\<rparr>) = env_ok n log srv"
  by (simp_all add: env_ok_def)

lemma enter_session_frame [simp]:
  "se_session_id (enter_session srv s) = se_session_id s"
  "se_joined_room (enter_session srv s) = se_joined_room s"
  "se_room_worker (enter_session srv s) = srv_worker srv"
  "se_writer (enter_session srv s) = se_writer s"
  "se_posted (enter_session srv s) = se_posted s"
  "se_stopped (enter_session srv s) = se_stopped s"
  by (simp_all add: enter_session_def)

lemma enter_session_inv:
  assumes "session_inv s" shows "session_inv (enter_session srv s)"
  using assms
  by (cases "se_metrics s"; cases "srv_metrics srv")
    (auto simp: enter_session_def session_inv_def recv_inv_def gauges_exact_def)

lemma write_back_env_ok:
  assumes "env_ok n log srv" "srv_sessions srv i = Some s"
    and "session_inv s'" "se_session_id s' = i"
    and "seat i (commands_of i log') False = Some (se_joined_room s')"
    and "\<And>j. j \<noteq> i \<Longrightarrow> commands_of j log' = commands_of j log"
  shows "env_ok n log' (write_back i s' srv)"
  using assms by (auto simp: env_ok_def write_back_def)

lemma deliver_to_env_ok:
  assumes "env_ok n log srv" "SharedPacket_size (snd recipient) \<le> max_packet_size"
  shows "env_ok n log (deliver_to recipient srv)"
proof (cases "srv_sessions srv (fst recipient)")
  case (Some s)
  have s: "session_inv s" "se_session_id s = fst recipient"
    "seat (fst recipient) (commands_of (fst recipient) log) False = Some (se_joined_room s)"
    using assms(1) Some by (auto simp: env_ok_def)
  show ?thesis
    unfolding deliver_to_def Some option.case
    by (rule write_back_env_ok [OF assms(1) Some])
      (use s deliver_inv [OF enter_session_inv [OF s(1)] assms(2)] in simp_all)
qed (simp add: deliver_to_def assms)

lemma publish_event_env_ok:
  assumes "env_ok n log srv"
  shows "env_ok n log (snd (publish_event ev srv))"
proof -
  obtain sent registry metrics where
    pub: "publish (\<lambda>i. srv_sessions srv i \<noteq> None) (srv_registry srv) (srv_metrics srv) ev =
      (sent, registry, metrics)"
    by (metis prod_cases3)
  have inv: "reg_inv (srv_registry srv)" using assms by (simp add: env_ok_def)
  note facts = publish_facts [OF pub inv]
  have packets: "SharedPacket_size (snd d) \<le> max_packet_size" if "d \<in> set sent" for d
  proof -
    have "snd d = Some (frame (event_type ev) (event_payload ev))" using facts(4) that by blast
    then show ?thesis using event_packet_size [of ev] by (simp add: wire_header_size_def)
  qed
  have start: "env_ok n log (srv\<lparr>srv_registry := registry, srv_metrics := metrics\<rparr>)"
    using assms facts(1,5) by (auto simp: env_ok_def split: if_splits)
  have "env_ok n log (fold deliver_to ds srv')"
    if "env_ok n log srv'" "set ds \<subseteq> set sent" for ds srv'
    using that
  proof (induction ds arbitrary: srv')
    case (Cons d ds)
    then have "env_ok n log (deliver_to d srv')" by (intro deliver_to_env_ok packets) simp_all
    with Cons show ?case by simp
  qed simp
  from this [OF start, of sent] show ?thesis unfolding publish_event_def pub by simp
qed

text \<open>What the metrics and the handler keep, a round of the worker keeps.\<close>

lemma worker_process_env:
  assumes "worker_process (Some h) touch c (w, env) = (w', env')" "E env"
    and "\<And>f env. E env \<Longrightarrow> E (touch f env)" "\<And>ev env. E env \<Longrightarrow> E (snd (h ev env))"
  shows "E env'"
proof -
  have "E (snd (h ev (touch f env)))" for ev f using assms(2-4) by blast
  with assms show ?thesis
    by (auto simp: worker_process_def Let_def split: prod.splits sum.splits if_splits)
      (metis snd_conv)+
qed

lemma worker_moves_inv:
  assumes "srv_inv n log srv"
    and "worker_iteration (Some publish_event) touch_metrics (srv_worker srv, srv) = Some (w, srv')"
  shows "srv_inv n log (srv'\<lparr>srv_worker := w\<rparr>)"
proof -
  have inv: "env_ok n log srv" "worker_inv (srv_worker srv) log"
    "\<not> cq_closed (rw_commands (srv_worker srv))"
    "all_in_order log" "\<forall>c\<in>set log. unat (command_session c) \<le> n"
    using assms(1) by (simp_all add: srv_inv_def)
  have worker: "worker_inv w log"
    using worker_step_inv [OF iterated [OF assms(2), of log]] inv(2) by simp
  obtain c cs where run: "worker_process (Some publish_event) touch_metrics c
      ((srv_worker srv)\<lparr>rw_commands := (rw_commands (srv_worker srv))\<lparr>cq_values := cs\<rparr>\<rparr>, srv) = (w, srv')"
    using worker_iteration_SomeD [OF assms(2)] by auto
  have "env_ok n log srv'"
    by (rule worker_process_env [where E = "env_ok n log", OF run inv(1)])
      (simp_all add: touch_metrics_def publish_event_env_ok)
  moreover have "\<not> cq_closed (rw_commands w)"
    using worker_process_frame(1) [of "Some publish_event" touch_metrics c
        "(srv_worker srv)\<lparr>rw_commands := (rw_commands (srv_worker srv))\<lparr>cq_values := cs\<rparr>\<rparr>" srv] run inv(3)
    by simp
  ultimately show ?thesis using worker inv by (simp add: srv_inv_def)
qed

lemma seat_owner:
  "seat i cs j \<noteq> None \<Longrightarrow> commands_of i cs = cs \<and> (\<forall>k. k \<noteq> i \<longrightarrow> commands_of k cs = [])"
proof (induction cs arbitrary: j)
  case (Cons c cs)
  then show ?case by (cases c) (auto simp: commands_of_def split: if_splits)
qed (simp add: commands_of_def)

lemma session_moves_inv:
  assumes "srv_inv n log srv" "srv_sessions srv i = Some s"
    and "session_handler grow (enter_session srv s) s'"
  defines "cs \<equiv> new_commands (enter_session srv s) s'"
  shows "srv_inv n (log @ cs) (write_back i s' srv)"
proof -
  have inv: "env_ok n log srv" "worker_inv (srv_worker srv) log"
    "\<not> cq_closed (rw_commands (srv_worker srv))"
    "all_in_order log" "\<forall>c\<in>set log. unat (command_session c) \<le> n"
    using assms(1) by (simp_all add: srv_inv_def)
  have s: "session_inv s" "se_session_id s = i" "unat i \<le> n"
    "seat i (commands_of i log) False = Some (se_joined_room s)"
    using inv(1) assms(2) by (auto simp: env_ok_def)
  note entered = enter_session_inv [OF s(1), of srv]
  have follows: "follows (enter_session srv s) cs s'"
    unfolding cs_def by (rule session_handler_follows [OF assms(3) entered])
  then have seat: "seat i cs (se_joined_room s) = Some (se_joined_room s')"
    and worker: "se_room_worker s' = (srv_worker srv)\<lparr>rw_commands := (rw_commands (srv_worker srv))
      \<lparr>cq_values := cq_values (rw_commands (srv_worker srv)) @ cs\<rparr>\<rparr>" and id: "se_session_id s' = i"
    using inv(3) s(2) by (simp_all add: follows_def)
  have mine: "commands_of i cs = cs" "\<And>k. k \<noteq> i \<Longrightarrow> commands_of k cs = []"
    using seat_owner [of i cs "se_joined_room s"] seat by auto
  have ids: "command_session c = i" if "c \<in> set cs" for c
    using mine(1) that by (metis (mono_tags, lifting) commands_of_def filter_eq_Cons_iff filter_id_conv)
  have seat': "seat i (commands_of i (log @ cs)) False = Some (se_joined_room s')"
    using s(4) seat by (simp add: commands_of_append mine(1) seat_append)
  have others: "commands_of k (log @ cs) = commands_of k log" if "k \<noteq> i" for k
    using mine(2) [OF that] by (simp add: commands_of_append)
  have "env_ok n (log @ cs) (write_back i s' srv)"
    by (rule write_back_env_ok [OF inv(1) assms(2) session_handler_inv [OF assms(3) entered] id seat' others])
  moreover have "worker_inv (se_room_worker s') (log @ cs)"
    using inv(2) by (auto simp: worker_inv_def worker)
  moreover have "all_in_order (log @ cs)"
    unfolding all_in_order_def
  proof
    fix k show "seat k (commands_of k (log @ cs)) False \<noteq> None"
      using seat' others [of k] inv(4) by (cases "k = i") (simp_all add: all_in_order_def)
  qed
  moreover have "\<forall>c\<in>set (log @ cs). unat (command_session c) \<le> n" using inv(5) ids s(3) by auto
  ultimately show ?thesis using inv(3) worker by (simp add: srv_inv_def write_back_def)
qed

lemma unat_next_id: "Suc n < 2 ^ 64 \<Longrightarrow> unat (of_nat (Suc n) :: uint64) = Suc n"
  by (subst unat_of_nat) simp

lemma add_session_env_ok:
  assumes "env_ok n log srv" "session_inv s" "se_session_id s = i" "unat i \<le> n" "commands_of i log = []"
    and "\<not> se_joined_room s"
  shows "env_ok n log (srv\<lparr>srv_sessions := (srv_sessions srv)(i \<mapsto> s)\<rparr>)"
  using assms by (simp add: env_ok_def)

lemma register_env_ok:
  assumes "env_ok n log srv" "unat i \<le> n"
    and "register_session (srv_registry srv) metrics i i = (registered, registry, metrics')"
  shows "env_ok n log (srv\<lparr>srv_registry := registry, srv_metrics := m\<rparr>)"
proof -
  have "reg_inv registry" using assms(1,3) by (auto simp: env_ok_def intro: register_session_inv)
  moreover have "reg_sessions registry = fst (hm_try_emplace (reg_sessions (srv_registry srv)) i i)"
    using assms(3) by (auto simp: register_session_def split: prod.splits)
  then have "connected registry k \<noteq> None \<Longrightarrow> k = i \<or> connected (srv_registry srv) k \<noteq> None" for k
    by (auto simp: hm.emplace_lookup split: if_splits)
  then have "connected registry k \<noteq> None \<Longrightarrow> unat k \<le> n" for k
    using assms(1,2) by (auto simp: env_ok_def)
  ultimately show ?thesis using assms(1) by (simp add: env_ok_def)
qed

text \<open>A session that starts under an id without commands.\<close>

lemma run_session_env_ok:
  assumes "env_ok n log srv" "unat i \<le> n" "commands_of i log = []"
  shows "env_ok n log (run_session grow i srv)" "srv_worker (run_session grow i srv) = srv_worker srv"
proof -
  have "env_ok n log (run_session grow i srv) \<and> srv_worker (run_session grow i srv) = srv_worker srv"
  proof (cases "session_metrics i (srv_metrics srv)")
    case (Inl e)
    with assms(1) show ?thesis by (simp add: run_session_def)
  next
    case (Inr ms)
    obtain server_metrics metrics where ms: "ms = (server_metrics, metrics)" by fastforce
    obtain registered registry server_metrics' where reg:
      "register_session (srv_registry srv) server_metrics i i = (registered, registry, server_metrics')"
      by (metis prod_cases3)
    let ?s = "Session_new grow i (srv_worker srv) metrics"
    let ?srv1 = "srv\<lparr>srv_registry := registry, srv_metrics := server_metrics'\<rparr>"
    have base: "env_ok n log (srv\<lparr>srv_registry := registry, srv_metrics := m\<rparr>)" for m
      by (rule register_env_ok [OF assms(1,2) reg])
    have "metrics = map_option (\<lambda>m. (m, (SessionMetrics_new i)\<lparr>sm_tracked := True\<rparr>)) (map_option fst metrics)"
      using Inr ms by (auto simp: session_metrics_def create_session_def Let_def
          split: option.splits sum.splits prod.splits if_splits)
    then have session: "session_inv ?s" using Session_new_fresh_inv by metis
    have result: "run_session grow i srv = (if \<not> registered then end_session ?s ?srv1
        else ?srv1\<lparr>srv_sessions := (srv_sessions ?srv1)(i \<mapsto> ?s)\<rparr>)"
      by (simp add: run_session_def Inr ms reg)
    have "env_ok n log (?srv1\<lparr>srv_sessions := (srv_sessions ?srv1)(i \<mapsto> ?s)\<rparr>)"
      by (rule add_session_env_ok [OF base session _ assms(2,3)]) (simp_all add: Session_new_def)
    then show ?thesis using base [of server_metrics'] by (simp add: result end_session_def)
  qed
  then show "env_ok n log (run_session grow i srv)" "srv_worker (run_session grow i srv) = srv_worker srv" by blast+
qed

text \<open>A new connection gets an id that no session or command has had.\<close>

lemma accept_inv:
  assumes "srv_inv n log srv" "Suc n < 2 ^ 64"
  shows "srv_inv (Suc n) log (accept_completed grow Accepted srv)"
proof -
  let ?i = "srv_next_session_id srv"
  let ?srv = "srv\<lparr>srv_next_session_id := ?i + 1\<rparr>"
  have inv: "env_ok n log srv" "worker_inv (srv_worker srv) log"
    "\<not> cq_closed (rw_commands (srv_worker srv))"
    "all_in_order log" "\<forall>c\<in>set log. unat (command_session c) \<le> n"
    using assms(1) by (simp_all add: srv_inv_def)
  have i: "unat ?i = Suc n" using inv(1) unat_next_id [OF assms(2)] by (simp add: env_ok_def)
  have "command_session c \<noteq> ?i" if "c \<in> set log" for c
    using inv(5) that i by (metis Suc_n_not_le_n)
  then have fresh: "commands_of ?i log = []" by (auto simp: commands_of_def filter_empty_conv)
  have "env_ok (Suc n) log ?srv"
    using inv(1) i by (auto simp: env_ok_def le_SucI algebra_simps)
  from run_session_env_ok [OF this _ fresh, of grow] i inv show ?thesis
    by (auto simp: srv_inv_def accept_completed_def le_SucI)
qed

lemma background_step_inv:
  assumes "background_step grow srv k srv'" "srv_inv n log srv" "n + k < 2 ^ 64"
  shows "srv_inv (n + k) log srv'"
  using assms
proof (induction rule: background_step.induct)
  case (server_accepts srv)
  then show ?case using accept_inv [of n log srv grow] by simp
next
  case (server_ends srv result)
  then show ?case by (cases result) (simp_all add: accept_completed_def srv_inv_def env_ok_def)
next
  case (session_unregisters srv i s)
  obtain registry metrics where un:
    "unregister_session (srv_registry srv) (srv_metrics srv) i = (registry, metrics)" by fastforce
  have "reg_inv registry" using un session_unregisters by (auto simp: srv_inv_def env_ok_def intro: unregister_session_inv)
  moreover have "connected registry k \<noteq> None \<Longrightarrow> connected (srv_registry srv) k \<noteq> None" for k
    using un by (auto simp: unregister_session_def hm.erase_lookup hm_erase_def map_of_filter_fst split: if_splits)
  ultimately show ?case
    using session_unregisters un by (simp add: srv_inv_def env_ok_def run_session_end_def)
next
  case (session_destroyed srv i s)
  then show ?case by (simp add: srv_inv_def env_ok_def end_session_def)
next
  case (worker_moves srv w srv')
  then show ?case using worker_moves_inv by simp
qed

lemma server_step_inv:
  assumes "server_step grow srv k cs srv'" "srv_inv n log srv" "n + k < 2 ^ 64"
  shows "srv_inv (n + k) (log @ cs) srv'"
  using assms
  by (induction rule: server_step.induct) (simp_all add: session_moves_inv background_step_inv)

lemma Server_new_inv: "srv_inv 0 [] (Server_new metrics)"
  using worker_inv_new [of touch_metrics]
  by (simp add: Server_new_def srv_inv_def env_ok_def RoomWorker_new_def touch_metrics_def worker_inv_def
      CloseableQueue_new_def SessionRegistry_new_inv SessionRegistry_new_def all_in_order_def commands_of_def
      reg_inv_def)

lemma server_run_inv:
  "server_run grow srv n log srv' \<Longrightarrow> srv_inv 0 [] srv \<Longrightarrow> n < 2 ^ 64 \<Longrightarrow> srv_inv n log srv'"
proof (induction rule: server_run.induct)
  case (server_more srv n cs srv1 k ds srv2)
  then have "srv_inv n cs srv1" by (meson add_lessD1)
  from server_step_inv [OF server_more(2) this server_more(5)] show ?case .
qed simp

section \<open>An example run\<close>

lemma submitting_step_is_handler:
  "session_step grow s cs s' \<Longrightarrow> cs \<noteq> [] \<Longrightarrow> session_handler grow s s' \<and> cs = new_commands s s'"
  by (induction rule: session_step.induct) simp_all

text \<open>One client connects and joins.\<close>

lemma first_client:
  obtains srv1 s s' where "srv1 = accept_completed exact_growth Accepted (Server_new None)"
    "background_step exact_growth (Server_new None) 1 srv1"
    "srv_worker srv1 = srv_worker (Server_new None)" "srv_sessions srv1 1 = Some s"
    "session_handler exact_growth (enter_session srv1 s) s'"
    "new_commands (enter_session srv1 s) s' = [JoinCommand 1]"
    "\<not> se_stopped s'" "se_writer s = No_writer" "se_posted s = []"
proof -
  let ?srv = "Server_new None"
  define srv1 where "srv1 = accept_completed exact_growth Accepted ?srv"
  define s where "s = Session_new exact_growth 1 (srv_worker ?srv) None"
  have new: "srv_acceptor ?srv = Accepting" "srv_next_session_id ?srv = 1" "srv_metrics ?srv = None"
    "srv_registry ?srv = SessionRegistry_new" "\<not> cq_closed (rw_commands (srv_worker ?srv))"
    by (simp_all add: Server_new_def RoomWorker_new_def touch_metrics_def CloseableQueue_new_def)
  have srv1: "srv_sessions srv1 1 = Some s" "srv_worker srv1 = srv_worker ?srv"
    using new by (simp_all add: srv1_def accept_completed_def run_session_def session_metrics_def
        register_session_def SessionRegistry_new_def hm_try_emplace_def s_def)
  have entered: "enter_session srv1 s = s" by (simp add: enter_session_def s_def Session_new_def srv1)
  have inv: "session_inv s" unfolding s_def using Session_new_fresh_inv [where m = None] by simp
  obtain s' where step: "session_step exact_growth s [JoinCommand (se_session_id s)] s'" "se_stopped s' = se_stopped s"
    by (rule join_step [OF inv, of exact_growth]) (use new in \<open>simp_all add: s_def Session_new_def\<close>)
  have fields: "se_session_id s = 1" "\<not> se_stopped s" "se_writer s = No_writer" "se_posted s = []"
    by (simp_all add: s_def Session_new_def)
  have "background_step exact_growth ?srv 1 srv1" unfolding srv1_def by (intro server_accepts new)
  then show thesis
    by (rule that [OF srv1_def _ srv1(2,1)]) (use submitting_step_is_handler [OF step(1)] step(2) fields in \<open>simp_all add: entered\<close>)
qed

lemma one_client_joins:
  obtains srv where "server_run exact_growth (Server_new None) 1 [JoinCommand 1] srv"
proof -
  obtain srv1 s s' where first: "background_step exact_growth (Server_new None) 1 srv1"
    "srv_sessions srv1 1 = Some s" "session_handler exact_growth (enter_session srv1 s) s'"
    "new_commands (enter_session srv1 s) s' = [JoinCommand 1]"
    by (rule first_client) blast
  from server_more [OF server_more [OF server_start in_background [OF first(1)]] session_moves [OF first(2,3)]] first(4)
  have "server_run exact_growth (Server_new None) 1 [JoinCommand 1] (write_back 1 s' srv1)" by simp
  then show thesis by (rule that)
qed

end
