(* ===== verification/Decimal_Text.thy ===== *)
theory Decimal_Text
  imports Mcrs_Prelude
begin

text \<open>
  Decimal numbers as text, as the program's two standard library calls see them:
  \<open>std::from_chars\<close> for an unsigned type (no sign, no white space, the longest run of digits; the
  destination is left alone on failure) and \<open>std::ostream\<close>'s output of an unsigned integer.
\<close>

section \<open>Digits\<close>

definition is_digit :: "char \<Rightarrow> bool" where
  "is_digit c \<longleftrightarrow> 48 \<le> (of_char c :: nat) \<and> (of_char c :: nat) \<le> 57"

definition digit_value :: "char \<Rightarrow> nat" where
  "digit_value c = of_char c - 48"

definition digit_char :: "nat \<Rightarrow> char" where
  "digit_char d = char_of (48 + d)"

lemma of_char_digit_char: "d < 10 \<Longrightarrow> (of_char (digit_char d) :: nat) = 48 + d"
  by (simp add: digit_char_def of_char_of)

lemma digit_value_char [simp]: "d < 10 \<Longrightarrow> digit_value (digit_char d) = d"
  by (simp add: digit_value_def of_char_digit_char)

lemma is_digit_char [simp]: "d < 10 \<Longrightarrow> is_digit (digit_char d)"
  by (simp add: is_digit_def of_char_digit_char)

lemma digit_char_value: "is_digit c \<Longrightarrow> digit_char (digit_value c) = c"
  by (simp add: is_digit_def digit_value_def digit_char_def)

lemma digit_value_bound: "is_digit c \<Longrightarrow> digit_value c < 10"
  unfolding is_digit_def digit_value_def by linarith

section \<open>Writing and reading\<close>

fun show_decimal :: "nat \<Rightarrow> string" where
  "show_decimal n =
     (if n < 10 then [digit_char n] else show_decimal (n div 10) @ [digit_char (n mod 10)])"

declare show_decimal.simps [simp del]

definition decimal_value :: "string \<Rightarrow> nat" where
  "decimal_value str = foldl (\<lambda>v c. 10 * v + digit_value c) 0 str"

datatype errc = errc_none | errc_invalid_argument | errc_result_out_of_range

text \<open>
  \<open>from_chars limit str old\<close> is the number of characters up to the returned pointer, the error
  code and the value left in the destination, which held \<open>old\<close>.
\<close>

definition from_chars :: "nat \<Rightarrow> string \<Rightarrow> nat \<Rightarrow> size_t \<times> errc \<times> nat" where
  "from_chars limit str old =
     (let digits = takeWhile is_digit str
      in if digits = [] then (0, errc_invalid_argument, old)
         else if limit < decimal_value digits then (length digits, errc_result_out_of_range, old)
         else (length digits, errc_none, decimal_value digits))"

section \<open>Round trip\<close>

lemma decimal_value_snoc: "decimal_value (str @ [c]) = 10 * decimal_value str + digit_value c"
  by (simp add: decimal_value_def)

lemma decimal_value_show [simp]: "decimal_value (show_decimal n) = n"
proof (induction n rule: show_decimal.induct)
  case (1 n)
  then show ?case
    by (subst show_decimal.simps) (simp add: decimal_value_snoc, simp add: decimal_value_def)
qed

lemma show_decimal_digits: "c \<in> set (show_decimal n) \<Longrightarrow> is_digit c"
proof (induction n rule: show_decimal.induct)
  case (1 n)
  then show ?case by (subst (asm) show_decimal.simps) (auto split: if_splits)
qed

lemma show_decimal_nonempty [simp]: "show_decimal n \<noteq> []"
  by (subst show_decimal.simps) simp

lemma hd_show_decimal: "is_digit (hd (show_decimal n))"
  by (rule show_decimal_digits [OF hd_in_set]) simp

lemma show_decimal_span:
  assumes "rest = [] \<or> \<not> is_digit (hd rest)"
  shows "takeWhile is_digit (show_decimal n @ rest) = show_decimal n"
    "dropWhile is_digit (show_decimal n @ rest) = rest"
  using assms show_decimal_digits [of _ n]
  by (cases rest; simp add: takeWhile_append2 dropWhile_append2)+

lemma show_decimal_inj: "show_decimal m = show_decimal n \<Longrightarrow> m = n"
  using decimal_value_show by metis

text \<open>No leading zero is ever written, and a text without one is what would be written.\<close>

lemma show_decimal_value:
  assumes "\<forall>c\<in>set str. is_digit c" "str \<noteq> []" "str = [c] \<or> digit_value (hd str) \<noteq> 0"
  shows "show_decimal (decimal_value str) = str"
  using assms
proof (induction str arbitrary: c rule: rev_induct)
  case (snoc d str)
  have d: "is_digit d" "digit_value d < 10" using snoc.prems(1) digit_value_bound by auto
  show ?case
  proof (cases str)
    case Nil
    then show ?thesis
      using d by (subst show_decimal.simps) (simp add: decimal_value_def digit_char_value)
  next
    case (Cons a t)
    with snoc.prems have hd: "digit_value (hd str) \<noteq> 0" by auto
    then have IH: "show_decimal (decimal_value str) = str" using snoc Cons by simp
    have "decimal_value str \<noteq> 0"
    proof
      assume "decimal_value str = 0"
      with IH have "str = [digit_char 0]" by (subst (asm) show_decimal.simps) simp
      with hd show False by simp
    qed
    with d IH show ?thesis
      by (subst show_decimal.simps) (simp add: decimal_value_snoc digit_char_value)
  qed
qed simp

text \<open>The calls of the program test that the whole text was taken.\<close>

lemma from_chars_whole:
  "from_chars limit str old = (length str, errc_none, v) \<longleftrightarrow>
     str \<noteq> [] \<and> (\<forall>c\<in>set str. is_digit c) \<and> decimal_value str \<le> limit \<and> v = decimal_value str"
proof (cases "\<forall>c\<in>set str. is_digit c")
  case True
  then have "takeWhile is_digit str = str" by (simp add: takeWhile_eq_all_conv)
  with True show ?thesis by (auto simp: from_chars_def Let_def simp del: takeWhile_eq_all_conv)
next
  case False
  then have "takeWhile is_digit str \<noteq> str" by (simp add: takeWhile_eq_all_conv)
  then have "length (takeWhile is_digit str) \<noteq> length str"
    by (metis takeWhile_eq_take take_all order_refl)
  with False show ?thesis by (auto simp: from_chars_def Let_def)
qed

end
