(* ===== verification/Command_Line.thy ===== *)
theory Command_Line
  imports Decimal_Text
begin

text \<open>
  The arguments of the server, \<open>src/main.cpp\<close>. An output parameter is passed in and
  returned. \<open>argv\<close> is the list of the arguments with the program name first, \<open>argc\<close> its length.
\<close>

section \<open>Operations\<close>

definition default_port :: uint16 where
  "default_port = 7777"

definition uint32_max :: nat where
  "uint32_max = 2 ^ 32 - 1"

definition parse_port :: "string \<Rightarrow> uint16 \<Rightarrow> bool \<times> uint16" where
  "parse_port str output =
     (let (stop, error, v) = from_chars uint32_max str 0
      in if error \<noteq> errc_none \<or> stop \<noteq> length str \<or> v = 0 \<or> v > 65535 then (False, output)
         else (True, of_nat v))"

definition parse_interval :: "string \<Rightarrow> uint32 \<Rightarrow> bool \<times> uint32" where
  "parse_interval str output =
     (let (stop, error, v) = from_chars uint32_max str (unat output)
      in (error = errc_none \<and> stop = length str \<and> v \<le> 60000, of_nat v))"

definition server_arguments :: "string list \<Rightarrow> (uint16 \<times> uint32) option" where
  "server_arguments argv =
     (let argc = length argv
      in if argc > 3 then None
         else
           let (port_ok, port) =
             (if argc \<ge> 2 then parse_port (argv ! 1) default_port else (True, default_port))
           in if \<not> port_ok then None
              else
                let (interval_ok, metrics_interval_ms) =
                  (if argc = 3 then parse_interval (argv ! 2) 0 else (True, 0))
                in if \<not> interval_ok then None else Some (port, metrics_interval_ms))"

section \<open>What is accepted\<close>

text \<open>A text that is a number from \<open>low\<close> to \<open>high\<close>: digits only, leading zeros allowed.\<close>

definition number_in :: "nat \<Rightarrow> nat \<Rightarrow> string \<Rightarrow> bool" where
  "number_in low high str \<longleftrightarrow>
     str \<noteq> [] \<and> (\<forall>c\<in>set str. is_digit c) \<and> low \<le> decimal_value str \<and> decimal_value str \<le> high"

lemma from_chars_cases:
  assumes "from_chars limit str old = (stop, error, v)"
  shows "error = errc_none \<and> stop = length str \<longleftrightarrow>
    str \<noteq> [] \<and> (\<forall>c\<in>set str. is_digit c) \<and> decimal_value str \<le> limit"
    and "error = errc_none \<and> stop = length str \<Longrightarrow> v = decimal_value str"
  using assms from_chars_whole [of limit str old v]
    from_chars_whole [of limit str old "decimal_value str"] by auto

lemma parse_port_iff:
  "parse_port str output = (True, port) \<longleftrightarrow> number_in 1 65535 str \<and> unat port = decimal_value str"
proof -
  obtain stop error v where call: "from_chars uint32_max str 0 = (stop, error, v)"
    by (metis prod_cases3)
  have "parse_port str output = (True, port) \<longleftrightarrow>
      (error = errc_none \<and> stop = length str) \<and> 1 \<le> v \<and> v \<le> 65535 \<and> of_nat v = port"
    by (auto simp: parse_port_def call)
  also have "\<dots> \<longleftrightarrow> (error = errc_none \<and> stop = length str) \<and> 1 \<le> v \<and> v \<le> 65535 \<and> unat port = v"
    by (auto simp: unat_of_nat)
  also have "\<dots> \<longleftrightarrow> number_in 1 65535 str \<and> unat port = decimal_value str"
    using from_chars_cases [OF call] by (auto simp: number_in_def uint32_max_def)
  finally show ?thesis .
qed

lemma parse_interval_iff:
  "parse_interval str output = (True, interval) \<longleftrightarrow>
    number_in 0 60000 str \<and> unat interval = decimal_value str"
proof -
  obtain stop error v where call: "from_chars uint32_max str (unat output) = (stop, error, v)"
    by (metis prod_cases3)
  have "parse_interval str output = (True, interval) \<longleftrightarrow>
      (error = errc_none \<and> stop = length str) \<and> v \<le> 60000 \<and> of_nat v = interval"
    by (auto simp: parse_interval_def call)
  also have "\<dots> \<longleftrightarrow> (error = errc_none \<and> stop = length str) \<and> v \<le> 60000 \<and> unat interval = v"
    by (auto simp: unat_of_nat)
  also have "\<dots> \<longleftrightarrow> number_in 0 60000 str \<and> unat interval = decimal_value str"
    using from_chars_cases [OF call] by (auto simp: number_in_def uint32_max_def)
  finally show ?thesis .
qed

section \<open>Properties\<close>

text \<open>
  C39: The server starts exactly on the command lines its usage message describes: at most two
  arguments, a port from 1 to 65535 (7777 when absent) and an interval from 0 to 60000 (0 when
  absent), each written in digits only; and it then runs with exactly those numbers. Signs,
  blanks, trailing characters and numbers too large for the machine type are all refused.
\<close>
theorem server_arguments_accepted:
  "server_arguments argv = Some (port, interval) \<longleftrightarrow>
     length argv \<le> 3
     \<and> (if length argv \<ge> 2
        then number_in 1 65535 (argv ! 1) \<and> unat port = decimal_value (argv ! 1) else port = 7777)
     \<and> (if length argv = 3
        then number_in 0 60000 (argv ! 2) \<and> unat interval = decimal_value (argv ! 2) else interval = 0)"
proof -
  define ports where
    "ports = (if length argv \<ge> 2 then parse_port (argv ! 1) default_port else (True, default_port))"
  define intervals where
    "intervals = (if length argv = 3 then parse_interval (argv ! 2) 0 else (True, 0))"
  have "server_arguments argv = Some (port, interval) \<longleftrightarrow>
      length argv \<le> 3 \<and> ports = (True, port) \<and> intervals = (True, interval)"
    unfolding server_arguments_def Let_def ports_def [symmetric] intervals_def [symmetric]
    by (cases ports; cases intervals) auto
  then show ?thesis
    by (auto simp: ports_def intervals_def parse_port_iff parse_interval_iff default_port_def)
qed

end
