(* ===== verification/Json_Text.thy ===== *)
theory Json_Text
  imports Decimal_Text
begin

text \<open>
  The fragment of JSON that the server writes (objects, arrays, natural numbers and strings
  without escapes), as a datatype with its text, and a reader for it. The reader is strict: no
  white space, no leading zero, no trailing comma, no quote, backslash or control character
  inside a string. It is the reference the output of \<open>write_json\<close> is compared with.
\<close>

section \<open>Documents and their text\<close>

datatype json = JNum nat | JStr string | JObj "(string \<times> json) list" | JArr "json list"

abbreviation quote :: char where "quote \<equiv> CHR 0x22"

definition plain :: "char \<Rightarrow> bool" where
  "plain c \<longleftrightarrow> c \<noteq> quote \<and> c \<noteq> CHR 0x5C \<and> 32 \<le> (of_char c :: nat)"

definition quoted :: "string \<Rightarrow> string" where
  "quoted s = [quote] @ s @ [quote]"

fun commas :: "string list \<Rightarrow> string" where
  "commas [] = []"
| "commas [s] = s"
| "commas (s # t # ts) = s @ '','' @ commas (t # ts)"

fun render :: "json \<Rightarrow> string" where
  "render (JNum n) = show_decimal n"
| "render (JStr s) = quoted s"
| "render (JObj kvs) = ''{'' @ commas (map (\<lambda>(k, v). quoted k @ '':'' @ render v) kvs) @ ''}''"
| "render (JArr vs) = ''['' @ commas (map render vs) @ '']''"

fun plain_json :: "json \<Rightarrow> bool" where
  "plain_json (JNum n) = True"
| "plain_json (JStr s) = list_all plain s"
| "plain_json (JObj kvs) = list_all (\<lambda>(k, v). list_all plain k \<and> plain_json v) kvs"
| "plain_json (JArr vs) = list_all plain_json vs"

section \<open>The reader\<close>

definition read_number :: "string \<Rightarrow> (nat \<times> string) option" where
  "read_number s =
     (let digits = takeWhile is_digit s; n = decimal_value digits
      in if show_decimal n = digits then Some (n, dropWhile is_digit s) else None)"

definition read_quoted :: "string \<Rightarrow> (string \<times> string) option" where
  "read_quoted s =
     (case s of [] \<Rightarrow> None
      | c # r \<Rightarrow>
          (if c \<noteq> quote then None
           else case dropWhile plain r of [] \<Rightarrow> None
             | d # r' \<Rightarrow> if d = quote then Some (takeWhile plain r, r') else None))"

definition expect :: "char \<Rightarrow> string \<Rightarrow> string option" where
  "expect c s = (case s of [] \<Rightarrow> None | d # r \<Rightarrow> if d = c then Some r else None)"

fun read_value :: "nat \<Rightarrow> string \<Rightarrow> (json \<times> string) option"
  and read_elements :: "nat \<Rightarrow> string \<Rightarrow> (json list \<times> string) option"
  and read_members :: "nat \<Rightarrow> string \<Rightarrow> ((string \<times> json) list \<times> string) option" where
  "read_value 0 s = None"
| "read_value (Suc fuel) [] = None"
| "read_value (Suc fuel) (c # r) =
     (if is_digit c then map_option (map_prod JNum id) (read_number (c # r))
      else if c = quote then map_option (map_prod JStr id) (read_quoted (c # r))
      else if c = CHR ''['' then
        (case expect (CHR '']'') r of Some r' \<Rightarrow> Some (JArr [], r')
         | None \<Rightarrow> map_option (map_prod JArr id) (read_elements fuel r))
      else if c = CHR ''{'' then
        (case expect (CHR ''}'') r of Some r' \<Rightarrow> Some (JObj [], r')
         | None \<Rightarrow> map_option (map_prod JObj id) (read_members fuel r))
      else None)"
| "read_elements 0 s = None"
| "read_elements (Suc fuel) s =
     (case read_value fuel s of None \<Rightarrow> None
      | Some (v, r) \<Rightarrow>
          (case expect (CHR '','') r of
             Some r' \<Rightarrow> map_option (map_prod (\<lambda>vs. v # vs) id) (read_elements fuel r')
           | None \<Rightarrow> map_option (\<lambda>r'. ([v], r')) (expect (CHR '']'') r)))"
| "read_members 0 s = None"
| "read_members (Suc fuel) s =
     (case read_quoted s of None \<Rightarrow> None
      | Some (k, r) \<Rightarrow>
          (case expect (CHR '':'') r of None \<Rightarrow> None
           | Some r1 \<Rightarrow>
               (case read_value fuel r1 of None \<Rightarrow> None
                | Some (v, r2) \<Rightarrow>
                    (case expect (CHR '','') r2 of
                       Some r3 \<Rightarrow> map_option (map_prod (\<lambda>kvs. (k, v) # kvs) id) (read_members fuel r3)
                     | None \<Rightarrow> map_option (\<lambda>r3. ([(k, v)], r3)) (expect (CHR ''}'') r2)))))"

text \<open>A document is a value with nothing behind it. Two calls per character are enough fuel.\<close>

definition read_json :: "string \<Rightarrow> json option" where
  "read_json s =
     (case read_value (2 * length s) s of None \<Rightarrow> None
      | Some (v, r) \<Rightarrow> if r = [] then Some v else None)"

section \<open>Reading what is written\<close>

definition ends_number :: "string \<Rightarrow> bool" where
  "ends_number rest \<longleftrightarrow> rest = [] \<or> \<not> is_digit (hd rest)"

lemma ends_number_simps [simp]:
  "ends_number []" "ends_number (CHR '','' # r)" "ends_number (CHR '']'' # r)" "ends_number (CHR ''}'' # r)"
  by (simp_all add: ends_number_def is_digit_def)

lemma expect_simps [simp]:
  "expect c (c # r) = Some r" "expect c [] = None" "c \<noteq> d \<Longrightarrow> expect c (d # r) = None"
  by (simp_all add: expect_def)

lemma read_number_show:
  "ends_number rest \<Longrightarrow> read_number (show_decimal n @ rest) = Some (n, rest)"
  using show_decimal_span [of rest n] by (simp add: read_number_def ends_number_def Let_def)

lemma read_quoted_quoted:
  assumes "list_all plain s"
  shows "read_quoted (quoted s @ rest) = Some (s, rest)"
proof -
  have "\<not> plain quote" by (simp add: plain_def)
  with assms have "takeWhile plain (s @ quote # rest) = s" "dropWhile plain (s @ quote # rest) = quote # rest"
    by (simp_all add: list_all_iff takeWhile_append2 dropWhile_append2)
  then show ?thesis by (simp add: read_quoted_def quoted_def)
qed

lemma render_nonempty [simp]: "render v \<noteq> []"
  by (cases v) (simp_all add: quoted_def)

lemma render_starts: "hd (render v) \<noteq> CHR '']''"
proof -
  have "\<not> is_digit (CHR '']'')" by (simp add: is_digit_def)
  then have "hd (show_decimal n) \<noteq> CHR '']''" for n using hd_show_decimal [of n] by auto
  then show ?thesis by (cases v) (simp_all add: quoted_def)
qed

lemma commas_Cons: "commas (s # ts) = s @ (if ts = [] then [] else '','' @ commas ts)"
  by (cases ts) simp_all

lemma expect_skips: "xs \<noteq> [] \<Longrightarrow> hd xs \<noteq> c \<Longrightarrow> expect c (xs @ ys) = None"
  by (cases xs) simp_all

definition reads_back :: "json \<Rightarrow> bool" where
  "reads_back v \<longleftrightarrow> (\<forall>fuel rest. 2 * length (render v) \<le> fuel \<longrightarrow> ends_number rest \<longrightarrow>
     read_value fuel (render v @ rest) = Some (v, rest))"

lemma reads_backD:
  "reads_back v \<Longrightarrow> 2 * length (render v) \<le> fuel \<Longrightarrow> ends_number rest \<Longrightarrow>
    read_value fuel (render v @ rest) = Some (v, rest)"
  by (simp add: reads_back_def)

lemma read_elements_commas:
  assumes "vs \<noteq> []" "\<forall>v\<in>set vs. reads_back v" "2 * length (commas (map render vs)) < fuel"
  shows "read_elements fuel (commas (map render vs) @ CHR '']'' # rest) = Some (vs, rest)"
  using assms
proof (induction vs arbitrary: fuel)
  case (Cons v vs)
  then obtain f where fuel: "fuel = Suc f" by (cases fuel) auto
  show ?case
  proof (cases vs)
    case Nil
    with Cons.prems fuel reads_backD [of v f "CHR '']'' # rest"] show ?thesis by simp
  next
    case (Cons w ws)
    have "2 * length (render v) \<le> f" "2 * length (commas (map render vs)) < f"
      using Cons.prems(3) by (simp_all add: Cons fuel)
    with Cons.IH [of f] Cons.prems(2) reads_backD [of v f "CHR '','' # commas (map render vs) @ CHR '']'' # rest"]
    show ?thesis by (simp add: Cons fuel)
  qed
qed simp

abbreviation render_member :: "string \<times> json \<Rightarrow> string" where
  "render_member \<equiv> \<lambda>(k, v). quoted k @ '':'' @ render v"

lemma read_members_commas:
  assumes "kvs \<noteq> []" "\<forall>(k, v)\<in>set kvs. list_all plain k \<and> reads_back v"
    and "2 * length (commas (map render_member kvs)) < fuel"
  shows "read_members fuel (commas (map render_member kvs) @ CHR ''}'' # rest) = Some (kvs, rest)"
  using assms
proof (induction kvs arbitrary: fuel)
  case (Cons kv kvs)
  obtain k v where kv: "kv = (k, v)" by fastforce
  with Cons.prems have v: "list_all plain k" "reads_back v" by simp_all
  obtain f where fuel: "fuel = Suc f" using Cons.prems(3) by (cases fuel) auto
  show ?case
  proof (cases kvs)
    case Nil
    with Cons.prems(3) have "2 * length (render v) \<le> f" by (simp add: kv fuel)
    with v Nil reads_backD [of v f "CHR ''}'' # rest"] read_quoted_quoted [OF v(1)] show ?thesis
      by (simp add: fuel kv)
  next
    case (Cons w ws)
    have "2 * length (render v) \<le> f" "2 * length (commas (map render_member kvs)) < f"
      using Cons.prems(3) by (simp_all add: Cons fuel kv)
    with Cons.IH [of f] Cons.prems(2) v read_quoted_quoted [OF v(1)]
      reads_backD [of v f "CHR '','' # commas (map render_member kvs) @ CHR ''}'' # rest"]
    show ?thesis by (simp add: Cons fuel kv)
  qed
qed simp

lemma digits_only:
  "\<not> is_digit quote" "\<not> is_digit (CHR ''['')" "\<not> is_digit (CHR ''{'')"
  by (simp_all add: is_digit_def)

lemma reads_backI:
  assumes "\<And>fuel rest. 2 * length (render v) \<le> Suc fuel \<Longrightarrow> ends_number rest \<Longrightarrow>
    read_value (Suc fuel) (render v @ rest) = Some (v, rest)"
  shows "reads_back v"
  unfolding reads_back_def
proof (intro allI impI)
  fix fuel rest assume fuel: "2 * length (render v) \<le> fuel" and rest: "ends_number rest"
  obtain f where "fuel = Suc f" using fuel by (cases fuel) simp_all
  with assms fuel rest show "read_value fuel (render v @ rest) = Some (v, rest)" by simp
qed

lemma number_reads_back: "reads_back (JNum n)"
proof (rule reads_backI)
  fix fuel rest assume rest: "ends_number rest"
  obtain c r where text_eq: "show_decimal n = c # r" by (cases "show_decimal n") simp_all
  with hd_show_decimal [of n] have "is_digit c" by simp
  with read_number_show [OF rest, of n] show "read_value (Suc fuel) (render (JNum n) @ rest) = Some (JNum n, rest)"
    by (simp add: text_eq)
qed

lemma string_reads_back: "list_all plain s \<Longrightarrow> reads_back (JStr s)"
proof (rule reads_backI)
  fix fuel rest assume "list_all plain s"
  from read_quoted_quoted [OF this, of rest]
  show "read_value (Suc fuel) (render (JStr s) @ rest) = Some (JStr s, rest)"
    by (simp add: quoted_def digits_only)
qed

lemma object_reads_back:
  assumes "\<forall>(k, v)\<in>set kvs. list_all plain k \<and> reads_back v"
  shows "reads_back (JObj kvs)"
proof (rule reads_backI)
  fix f rest assume "2 * length (render (JObj kvs)) \<le> Suc f"
  then have f: "2 * length (commas (map render_member kvs)) < f" by (simp add: case_prod_beta)
  show "read_value (Suc f) (render (JObj kvs) @ rest) = Some (JObj kvs, rest)"
  proof (cases kvs)
    case (Cons kv kvs')
    then have "expect (CHR ''}'') (commas (map render_member kvs) @ CHR ''}'' # rest) = None"
      by (simp add: commas_Cons quoted_def case_prod_beta)
    with read_members_commas [OF _ assms f, of rest] Cons show ?thesis by (simp add: digits_only)
  qed (simp add: digits_only)
qed

lemma array_reads_back:
  assumes "\<forall>v\<in>set vs. reads_back v"
  shows "reads_back (JArr vs)"
proof (rule reads_backI)
  fix f rest assume "2 * length (render (JArr vs)) \<le> Suc f"
  then have f: "2 * length (commas (map render vs)) < f" by simp
  show "read_value (Suc f) (render (JArr vs) @ rest) = Some (JArr vs, rest)"
  proof (cases vs)
    case (Cons v vs')
    then have "expect (CHR '']'') (commas (map render vs) @ CHR '']'' # rest) = None"
      using render_starts [of v] by (simp add: commas_Cons expect_skips)
    with read_elements_commas [OF _ assms f, of rest] Cons show ?thesis by (simp add: digits_only)
  qed (simp add: digits_only)
qed

lemma plain_reads_back: "plain_json v \<Longrightarrow> reads_back v"
proof (induction v)
  case (JObj kvs)
  then show ?case by (intro object_reads_back) (fastforce simp: list_all_iff)
qed (auto simp: number_reads_back string_reads_back list_all_iff intro: array_reads_back)

lemma read_json_render: "plain_json v \<Longrightarrow> read_json (render v) = Some v"
  using reads_backD [OF plain_reads_back, of v "2 * length (render v)" "[]"]
  by (simp add: read_json_def)

text \<open>The text has no control character, so in particular no line break.\<close>

definition printable :: "char \<Rightarrow> bool" where
  "printable c \<longleftrightarrow> 32 \<le> (of_char c :: nat)"

lemma printable_simps [simp]:
  "printable quote" "printable (CHR ''{'')" "printable (CHR ''}'')" "printable (CHR ''['')"
  "printable (CHR '']'')" "printable (CHR '','')" "printable (CHR '':'')" "\<not> printable (CHR 0x0A)"
  "plain c \<Longrightarrow> printable c" "is_digit c \<Longrightarrow> printable c"
  by (simp_all add: printable_def plain_def is_digit_def)

lemma commas_all: "list_all (list_all P) ss \<Longrightarrow> P (CHR '','') \<Longrightarrow> list_all P (commas ss)"
  by (induction ss rule: commas.induct) simp_all

lemma quoted_printable: "list_all plain s \<Longrightarrow> list_all printable (quoted s)"
  by (simp add: quoted_def list_all_iff)

lemma render_printable: "plain_json v \<Longrightarrow> list_all printable (render v)"
proof (induction v)
  case (JNum n)
  then show ?case by (simp add: list_all_iff show_decimal_digits)
next
  case (JStr s)
  then show ?case by (simp add: quoted_printable)
next
  case (JObj kvs)
  then have "list_all (list_all printable) (map render_member kvs)"
    by (fastforce simp: list_all_iff [of _ kvs] list_all_iff [of _ "map _ _"] quoted_printable)
  then show ?case using commas_all [of printable "map render_member kvs"] by simp
next
  case (JArr vs)
  then have "list_all (list_all printable) (map render vs)"
    by (auto simp: list_all_iff [of _ vs] list_all_iff [of _ "map _ _"])
  then show ?case using commas_all [of printable "map render vs"] by simp
qed

end
