(* ===== verification/Metrics_Json.thy ===== *)
theory Metrics_Json
  imports Server_Metrics Json_Text
begin

text \<open>
  The metrics as the server prints them: \<open>write_session\<close> and \<open>write_json\<close> of
  \<open>src/observability/server_metrics.cpp\<close> and the reporter of \<open>src/main.cpp\<close>. An output stream is
  the text written to it; a \<open>uint64_t\<close> is written in decimal.
\<close>

section \<open>Writing\<close>

definition write_number :: "uint64 \<Rightarrow> string" where
  "write_number n = show_decimal (unat n)"

definition write_session :: "SessionSnapshot \<Rightarrow> string" where
  \<open>write_session s =
     ''{"session_id":'' @ write_number (ss_session_id s)
     @ '',"posted_jobs":'' @ write_number (ss_posted_jobs s)
     @ '',"posted_bytes":'' @ write_number (ss_posted_bytes s)
     @ '',"queued_packets":'' @ write_number (ss_queued_packets s)
     @ '',"queued_bytes":'' @ write_number (ss_queued_bytes s)
     @ '',"inflight_packets":'' @ write_number (ss_inflight_packets s)
     @ '',"inflight_bytes":'' @ write_number (ss_inflight_bytes s)
     @ '',"posted_peak_bytes":'' @ write_number (ss_posted_peak_bytes s)
     @ '',"queue_peak_bytes":'' @ write_number (ss_queue_peak_bytes s)
     @ '',"inflight_peak_bytes":'' @ write_number (ss_inflight_peak_bytes s)
     @ ''}''\<close>

fun write_sessions :: "bool \<Rightarrow> SessionSnapshot list \<Rightarrow> string" where
  "write_sessions first [] = []"
| "write_sessions first (s # ss) = (if \<not> first then '','' else []) @ write_session s @ write_sessions False ss"

definition write_json :: "ServerSnapshot \<Rightarrow> string" where
  \<open>write_json s =
     ''{"type":"server_metrics","scope":"process_lifetime"''
     @ '',"uptime_ms":'' @ write_number (sv_uptime_ms s)
     @ '',"room_commands_processed":'' @ write_number (sv_room_commands_processed s)
     @ '',"room_commands_rejected":'' @ write_number (sv_room_commands_rejected s)
     @ '',"event_delivery_failures":'' @ write_number (sv_event_delivery_failures s)
     @ '',"broadcast_delivery_attempts":'' @ write_number (sv_broadcast_delivery_attempts s)
     @ '',"write_batches_started":'' @ write_number (sv_write_batches_started s)
     @ '',"write_batches_completed":'' @ write_number (sv_write_batches_completed s)
     @ '',"write_batches_failed":'' @ write_number (sv_write_batches_failed s)
     @ '',"write_batches_abandoned":'' @ write_number (sv_write_batches_abandoned s)
     @ '',"packets_batched":'' @ write_number (sv_packets_batched s)
     @ '',"max_batch_packets":'' @ write_number (sv_max_batch_packets s)
     @ '',"bytes_requested":'' @ write_number (sv_bytes_requested s)
     @ '',"bytes_transferred":'' @ write_number (sv_bytes_transferred s)
     @ '',"post_handlers_abandoned":'' @ write_number (sv_post_handlers_abandoned s)
     @ '',"outbound_overflow_closes":'' @ write_number (sv_outbound_overflow_closes s)
     @ '',"registered_sessions":'' @ write_number (sv_registered_sessions s)
     @ '',"active_rooms":'' @ write_number (sv_active_rooms s)
     @ '',"session_queue_peak_bytes":'' @ write_number (sv_session_queue_peak_bytes s)
     @ '',"closed_history_overwritten":'' @ write_number (sv_closed_history_overwritten s)
     @ '',"sessions":['' @ write_sessions True (sv_sessions s)
     @ ''],"recent_closed_sessions":['' @ write_sessions True (sv_recent_closed_sessions s)
     @ '']}''\<close>

section \<open>The reporter\<close>

datatype timer_result = Timer_expired | Timer_operation_aborted | Timer_error

datatype reporter_state = Reporting | Reporter_returned | Reporter_threw

text \<open>One round of \<open>report_metrics\<close>: the timer's result, and the snapshot it takes when it goes on.\<close>

definition report_metrics :: "timer_result \<Rightarrow> ServerSnapshot \<Rightarrow> string \<Rightarrow> reporter_state \<times> string" where
  "report_metrics result snapshot output =
     (case result of
        Timer_operation_aborted \<Rightarrow> (Reporter_returned, output)
      | Timer_error \<Rightarrow> (Reporter_threw, output)
      | Timer_expired \<Rightarrow> (Reporting, output @ write_json snapshot @ [CHR 0x0A]))"

fun report_rounds :: "(timer_result \<times> ServerSnapshot) list \<Rightarrow> string \<Rightarrow> reporter_state \<times> string" where
  "report_rounds [] output = (Reporting, output)"
| "report_rounds ((result, snapshot) # rounds) output =
     (case report_metrics result snapshot output of
        (Reporting, output') \<Rightarrow> report_rounds rounds output'
      | stopped \<Rightarrow> stopped)"

section \<open>The document\<close>

definition json_of_session :: "SessionSnapshot \<Rightarrow> json" where
  "json_of_session s = JObj
     [(''session_id'', JNum (unat (ss_session_id s))),
      (''posted_jobs'', JNum (unat (ss_posted_jobs s))),
      (''posted_bytes'', JNum (unat (ss_posted_bytes s))),
      (''queued_packets'', JNum (unat (ss_queued_packets s))),
      (''queued_bytes'', JNum (unat (ss_queued_bytes s))),
      (''inflight_packets'', JNum (unat (ss_inflight_packets s))),
      (''inflight_bytes'', JNum (unat (ss_inflight_bytes s))),
      (''posted_peak_bytes'', JNum (unat (ss_posted_peak_bytes s))),
      (''queue_peak_bytes'', JNum (unat (ss_queue_peak_bytes s))),
      (''inflight_peak_bytes'', JNum (unat (ss_inflight_peak_bytes s)))]"

definition json_of_snapshot :: "ServerSnapshot \<Rightarrow> json" where
  "json_of_snapshot s = JObj
     [(''type'', JStr ''server_metrics''), (''scope'', JStr ''process_lifetime''),
      (''uptime_ms'', JNum (unat (sv_uptime_ms s))),
      (''room_commands_processed'', JNum (unat (sv_room_commands_processed s))),
      (''room_commands_rejected'', JNum (unat (sv_room_commands_rejected s))),
      (''event_delivery_failures'', JNum (unat (sv_event_delivery_failures s))),
      (''broadcast_delivery_attempts'', JNum (unat (sv_broadcast_delivery_attempts s))),
      (''write_batches_started'', JNum (unat (sv_write_batches_started s))),
      (''write_batches_completed'', JNum (unat (sv_write_batches_completed s))),
      (''write_batches_failed'', JNum (unat (sv_write_batches_failed s))),
      (''write_batches_abandoned'', JNum (unat (sv_write_batches_abandoned s))),
      (''packets_batched'', JNum (unat (sv_packets_batched s))),
      (''max_batch_packets'', JNum (unat (sv_max_batch_packets s))),
      (''bytes_requested'', JNum (unat (sv_bytes_requested s))),
      (''bytes_transferred'', JNum (unat (sv_bytes_transferred s))),
      (''post_handlers_abandoned'', JNum (unat (sv_post_handlers_abandoned s))),
      (''outbound_overflow_closes'', JNum (unat (sv_outbound_overflow_closes s))),
      (''registered_sessions'', JNum (unat (sv_registered_sessions s))),
      (''active_rooms'', JNum (unat (sv_active_rooms s))),
      (''session_queue_peak_bytes'', JNum (unat (sv_session_queue_peak_bytes s))),
      (''closed_history_overwritten'', JNum (unat (sv_closed_history_overwritten s))),
      (''sessions'', JArr (map json_of_session (sv_sessions s))),
      (''recent_closed_sessions'', JArr (map json_of_session (sv_recent_closed_sessions s)))]"

lemma write_session_renders: "write_session s = render (json_of_session s)"
  by (simp add: write_session_def json_of_session_def quoted_def write_number_def)

lemma write_sessions_False: "write_sessions False ss = concat (map (\<lambda>s. '','' @ write_session s) ss)"
  by (induction ss) simp_all

lemma write_sessions_renders: "write_sessions True ss = commas (map (\<lambda>s. render (json_of_session s)) ss)"
proof (cases ss)
  case (Cons s ss')
  have "commas (t # ts) = t @ concat (map (\<lambda>u. '','' @ u) ts)" for t ts
    by (induction ts arbitrary: t) simp_all
  then show ?thesis
    by (simp add: Cons write_sessions_False write_session_renders comp_def)
qed simp

lemma write_json_renders: "write_json s = render (json_of_snapshot s)"
  by (simp add: write_json_def json_of_snapshot_def quoted_def write_number_def
      write_sessions_renders comp_def)

lemma plain_session: "plain_json (json_of_session s)"
  by (simp add: json_of_session_def plain_def)

lemma plain_snapshot: "plain_json (json_of_snapshot s)"
  by (simp add: json_of_snapshot_def plain_def list_all_iff [of _ "map _ _"] plain_session)

lemma json_of_session_inj: "json_of_session s = json_of_session t \<Longrightarrow> s = t"
  by (rule SessionSnapshot.equality) (simp_all add: json_of_session_def flip: word_unat_eq_iff)

lemma json_of_snapshot_inj: "json_of_snapshot s = json_of_snapshot t \<Longrightarrow> s = t"
proof (rule ServerSnapshot.equality)
  assume eq: "json_of_snapshot s = json_of_snapshot t"
  have inj: "inj json_of_session" by (rule injI) (rule json_of_session_inj)
  show "sv_sessions s = sv_sessions t" "sv_recent_closed_sessions s = sv_recent_closed_sessions t"
    using eq by (simp_all add: json_of_snapshot_def inj_map_eq_map [OF inj])
qed (simp_all add: json_of_snapshot_def flip: word_unat_eq_iff)

section \<open>Lines\<close>

fun lines_of :: "string \<Rightarrow> string \<Rightarrow> string list" where
  "lines_of line [] = (if line = [] then [] else [line])"
| "lines_of line (c # s) = (if c = CHR 0x0A then line # lines_of [] s else lines_of (line @ [c]) s)"

lemma lines_of_line: "list_all printable line \<Longrightarrow> lines_of start (line @ CHR 0x0A # s) = (start @ line) # lines_of [] s"
  by (induction line arbitrary: start) auto

lemma report_rounds_state:
  "fst (report_rounds rounds out) = Reporting \<longleftrightarrow> list_all (\<lambda>r. fst r = Timer_expired) rounds"
proof (induction rounds arbitrary: out)
  case (Cons r rounds)
  then show ?case by (cases r; cases "fst r") (simp_all add: report_metrics_def)
qed simp

lemma report_rounds_stops:
  "fst (report_rounds rounds out) =
     (case dropWhile (\<lambda>r. fst r = Timer_expired) rounds of
        [] \<Rightarrow> Reporting
      | r # _ \<Rightarrow> if fst r = Timer_operation_aborted then Reporter_returned else Reporter_threw)"
proof (induction rounds arbitrary: out)
  case (Cons r rounds)
  then show ?case by (cases r; cases "fst r") (simp_all add: report_metrics_def)
qed simp

lemma report_rounds_output:
  "snd (report_rounds rounds out) =
     out @ concat (map (\<lambda>r. write_json (snd r) @ [CHR 0x0A]) (takeWhile (\<lambda>r. fst r = Timer_expired) rounds))"
proof (induction rounds arbitrary: out)
  case (Cons r rounds)
  then show ?case by (cases r; cases "fst r") (simp_all add: report_metrics_def)
qed simp

section \<open>Properties\<close>

text \<open>
  C36: What the server prints about itself can be read back: every line of the reporter's
  output is a JSON document, and reading it gives the snapshot taken in that round with every
  counter at its value and every session in order, until the timer is cancelled (the reporter
  returns) or fails (it throws). Different snapshots are printed differently.
\<close>
theorem metrics_report_roundtrip:
  "map read_json (lines_of [] (snd (report_rounds rounds []))) =
     map (\<lambda>r. Some (json_of_snapshot (snd r))) (takeWhile (\<lambda>r. fst r = Timer_expired) rounds)
   \<and> (fst (report_rounds rounds []) = Reporting \<longleftrightarrow> list_all (\<lambda>r. fst r = Timer_expired) rounds)
   \<and> fst (report_rounds rounds []) =
       (case dropWhile (\<lambda>r. fst r = Timer_expired) rounds of
          [] \<Rightarrow> Reporting
        | r # _ \<Rightarrow> if fst r = Timer_operation_aborted then Reporter_returned else Reporter_threw)
   \<and> (write_json s = write_json t \<longleftrightarrow> s = t)"
proof (intro conjI)
  let ?line = "\<lambda>r. write_json (snd r) @ [CHR 0x0A]"
  have read: "map read_json (lines_of [] (concat (map ?line rs))) = map (\<lambda>r. Some (json_of_snapshot (snd r))) rs"
    for rs :: "(timer_result \<times> ServerSnapshot) list"
    by (induction rs) (simp_all add: lines_of_line write_json_renders render_printable plain_snapshot read_json_render)
  then show "map read_json (lines_of [] (snd (report_rounds rounds []))) =
     map (\<lambda>r. Some (json_of_snapshot (snd r))) (takeWhile (\<lambda>r. fst r = Timer_expired) rounds)"
    by (simp add: report_rounds_output)
  show "fst (report_rounds rounds []) = Reporting \<longleftrightarrow> list_all (\<lambda>r. fst r = Timer_expired) rounds"
    by (rule report_rounds_state)
  show "fst (report_rounds rounds []) =
       (case dropWhile (\<lambda>r. fst r = Timer_expired) rounds of
          [] \<Rightarrow> Reporting
        | r # _ \<Rightarrow> if fst r = Timer_operation_aborted then Reporter_returned else Reporter_threw)"
    by (rule report_rounds_stops)
  show "write_json s = write_json t \<longleftrightarrow> s = t"
    using read_json_render [OF plain_snapshot] json_of_snapshot_inj
    by (metis option.inject write_json_renders)
qed

end
