(* ===== verification/Main_Program.thy ===== *)
theory Main_Program
  imports Server Command_Line Metrics_Json
begin

text \<open>
  \<open>main\<close> of \<open>src/main.cpp\<close> and \<open>run_server\<close> of \<open>src/network/server.cpp\<close>: from the command line to
  the objects of the server, the coroutines on the I/O context (the accept loop, the sessions,
  the metrics reporter) with their completion handlers, and from the end of \<open>context.run()\<close> to
  the exit code. The text on \<open>std::cout\<close> and \<open>std::cerr\<close> is kept as far as \<open>main\<close> and the
  completion handlers write it.
\<close>

section \<open>State\<close>

datatype run_server_phase = Run_server_spawned | Run_server_running | Run_server_completed

text \<open>
  Where the reporter stands: not there, spawned, waiting for its timer, with the completion of
  its wait queued (which a cancellation of the timer does not undo), or ended.
\<close>

datatype reporter_phase =
    No_reporter
  | Reporter_spawned
  | Reporter_waiting
  | Reporter_ready timer_result
  | Reporter_ended

record Process =
  pr_port :: uint16
  pr_server :: Server
  pr_run_server :: run_server_phase
  pr_reporter :: reporter_phase
  pr_server_failed :: bool
  pr_cout :: string
  pr_cerr :: string

abbreviation newline :: string where
  "newline \<equiv> [CHR 0x0A]"

section \<open>Completion handlers\<close>

definition report_session_completion :: "cpp_exception option \<Rightarrow> string" where
  "report_session_completion exception =
     (case exception of
        None \<Rightarrow> []
      | Some (Std_exception what) \<Rightarrow> ''session stopped by exception: '' @ what @ newline
      | Some Other_exception \<Rightarrow> ''session stopped by an unknown exception'' @ newline)"

definition reporter_message :: string where
  "reporter_message = ''metrics reporter stopped by exception'' @ newline"

definition reporter_completed :: "cpp_exception option \<Rightarrow> Process \<Rightarrow> Process" where
  "reporter_completed exception p =
     p\<lparr>pr_reporter := Reporter_ended,
       pr_cerr := pr_cerr p @
         (if exception \<noteq> None then reporter_message else [])\<rparr>"

text \<open>Cancelling the timer ends a wait that is pending, and nothing else.\<close>

definition cancel_timer :: "reporter_phase \<Rightarrow> reporter_phase" where
  "cancel_timer phase =
     (case phase of Reporter_waiting \<Rightarrow> Reporter_ready Timer_operation_aborted | _ \<Rightarrow> phase)"

definition server_completed :: "cpp_exception option \<Rightarrow> Process \<Rightarrow> Process" where
  "server_completed exception p =
     (let p1 = p\<lparr>pr_run_server := Run_server_completed, pr_reporter := cancel_timer (pr_reporter p)\<rparr>
      in case exception of
           None \<Rightarrow> p1
         | Some e \<Rightarrow>
             p1\<lparr>pr_server_failed := True,
                pr_cerr := pr_cerr p @
                  (case e of
                     Std_exception what \<Rightarrow> ''server stopped by exception: '' @ what @ newline
                   | Other_exception \<Rightarrow> ''server stopped by an unknown exception'' @ newline)\<rparr>)"

section \<open>Coroutines\<close>

text \<open>
  \<open>run_server\<close> up to its first \<open>async_accept\<close>: the acceptor binds the port, or its constructor
  throws.
\<close>

definition run_server_start :: "cpp_exception option \<Rightarrow> Process \<Rightarrow> Process" where
  "run_server_start bind_error p =
     (case bind_error of
        Some e \<Rightarrow>
          server_completed (Some e) (p\<lparr>pr_server := (pr_server p)\<lparr>srv_acceptor := Run_server_threw\<rparr>\<rparr>)
      | None \<Rightarrow>
          p\<lparr>pr_run_server := Run_server_running,
            pr_cout := pr_cout p @ ''mcrs_server listening on 0.0.0.0:'' @ show_decimal (unat (pr_port p)) @ newline\<rparr>)"

text \<open>
  An \<open>async_accept\<close> has completed. A connection starts a session; the session's coroutine ends
  at once when its metrics cannot be created. Otherwise the accept loop ends.
\<close>

definition accept_handler :: "growth \<Rightarrow> accept_result \<Rightarrow> string \<Rightarrow> Process \<Rightarrow> Process" where
  "accept_handler grow result what p =
     (let srv = pr_server p; p1 = p\<lparr>pr_server := accept_completed grow result srv\<rparr>
      in case result of
           Accepted \<Rightarrow>
             p1\<lparr>pr_cerr := pr_cerr p @ report_session_completion
                 (case session_metrics (srv_next_session_id srv) (srv_metrics srv) of
                    Inl duplicate_metrics_session_id \<Rightarrow> Some (Std_exception ''duplicate metrics session id'')
                  | Inr _ \<Rightarrow> None)\<rparr>
         | Accept_operation_aborted \<Rightarrow> server_completed None p1
         | Accept_error \<Rightarrow> server_completed (Some (Std_exception what)) p1)"

text \<open>The metrics the snapshot finds: those of the sessions that exist.\<close>

definition server_snapshot :: "uint64 \<Rightarrow> Server \<Rightarrow> ServerSnapshot" where
  "server_snapshot uptime_ms srv =
     ServerMetrics_snapshot uptime_ms
       (\<lambda>i. case srv_sessions srv i of None \<Rightarrow> None | Some s \<Rightarrow> map_option snd (se_metrics s))
       (case srv_metrics srv of None \<Rightarrow> ServerMetrics_new | Some m \<Rightarrow> m)"

definition reporter_resume :: "uint64 \<Rightarrow> string \<Rightarrow> timer_result \<Rightarrow> Process \<Rightarrow> Process" where
  "reporter_resume uptime_ms what result p =
     (let (state, output) = report_metrics result (server_snapshot uptime_ms (pr_server p)) (pr_cout p);
          p1 = p\<lparr>pr_cout := output\<rparr>
      in case state of
           Reporting \<Rightarrow> p1\<lparr>pr_reporter := Reporter_waiting\<rparr>
         | Reporter_returned \<Rightarrow> reporter_completed None p1
         | Reporter_threw \<Rightarrow> reporter_completed (Some (Std_exception what)) p1)"

section \<open>The program\<close>

definition usage :: string where
  "usage = ''usage: mcrs_server [port] [metrics_interval_ms: 0..60000; 0 disables]'' @ newline"

text \<open>\<open>main\<close> up to \<open>context.run()\<close>: the process, or the exit code and the message.\<close>

definition main_start :: "string list \<Rightarrow> (Process, nat \<times> string) expected" where
  "main_start argv =
     (case server_arguments argv of
        None \<Rightarrow> Inl (1, usage)
      | Some (port, metrics_interval_ms) \<Rightarrow>
          (let metrics = (if metrics_interval_ms = 0 then None else Some ServerMetrics_new)
           in Inr \<lparr>pr_port = port, pr_server = Server_new metrics,
                   pr_run_server = Run_server_spawned,
                   pr_reporter = (if metrics = None then No_reporter else Reporter_spawned),
                   pr_server_failed = False, pr_cout = [], pr_cerr = []\<rparr>))"

text \<open>
  The steps of the process while \<open>context.run()\<close> runs, with the connections accepted and the
  commands submitted in them. The two coroutines start in the order in which they are spawned.
\<close>

inductive process_step :: "growth \<Rightarrow> Process \<Rightarrow> nat \<Rightarrow> RoomCommand list \<Rightarrow> Process \<Rightarrow> bool" for grow where
  reporter_starts: "pr_reporter p = Reporter_spawned \<Longrightarrow>
    process_step grow p 0 [] (p\<lparr>pr_reporter := Reporter_waiting\<rparr>)"
| timer_completes: "pr_reporter p = Reporter_waiting \<Longrightarrow> result \<noteq> Timer_operation_aborted \<Longrightarrow>
    process_step grow p 0 [] (p\<lparr>pr_reporter := Reporter_ready result\<rparr>)"
| reporter_resumes: "pr_reporter p = Reporter_ready result \<Longrightarrow>
    process_step grow p 0 [] (reporter_resume uptime_ms what result p)"
| run_server_starts: "pr_run_server p = Run_server_spawned \<Longrightarrow> pr_reporter p \<noteq> Reporter_spawned \<Longrightarrow>
    process_step grow p 0 [] (run_server_start bind_error p)"
| accept_completes: "pr_run_server p = Run_server_running \<Longrightarrow>
    process_step grow p (if result = Accepted then 1 else 0) [] (accept_handler grow result what p)"
| others_move: "server_step grow (pr_server p) 0 cs srv \<Longrightarrow> srv_acceptor srv = srv_acceptor (pr_server p) \<Longrightarrow>
    process_step grow p 0 cs (p\<lparr>pr_server := srv\<rparr>)"

inductive process_run :: "growth \<Rightarrow> Process \<Rightarrow> nat \<Rightarrow> RoomCommand list \<Rightarrow> Process \<Rightarrow> bool" for grow where
  process_begins: "process_run grow p 0 [] p"
| process_goes_on: "process_run grow p n cs p1 \<Longrightarrow> process_step grow p1 k ds p2 \<Longrightarrow>
    process_run grow p (n + k) (cs @ ds) p2"


definition main_end :: "Process \<Rightarrow> nat \<times> RoomWorkerSummary \<times> Process" where
  "main_end p =
     (let srv = pr_server p;
          (summary, worker, srv') = RoomWorker_stop (Some publish_event) touch_metrics (srv_worker srv, srv)
      in (if pr_server_failed p then 1 else 0, summary, p\<lparr>pr_server := srv'\<lparr>srv_worker := worker\<rparr>\<rparr>))"

section \<open>What the steps keep\<close>

lemma main_startD:
  assumes "main_start argv = Inr p"
  shows "\<exists>interval. server_arguments argv = Some (pr_port p, interval)
      \<and> pr_server p = Server_new (if interval = 0 then None else Some ServerMetrics_new)
      \<and> (pr_reporter p = No_reporter \<longleftrightarrow> interval = 0)"
    "pr_run_server p = Run_server_spawned" "\<not> pr_server_failed p" "srv_acceptor (pr_server p) = Accepting"
  using assms
  by (auto simp: main_start_def Let_def Server_new_def RoomWorker_new_def touch_metrics_def
      split: option.splits if_splits)

lemma server_completed_simps [simp]:
  "pr_server (server_completed e p) = pr_server p"
  "pr_run_server (server_completed e p) = Run_server_completed"
  "pr_reporter (server_completed e p) = cancel_timer (pr_reporter p)"
  "pr_server_failed (server_completed e p) = (e \<noteq> None \<or> pr_server_failed p)"
  by (simp_all add: server_completed_def Let_def split: option.split)

lemma reporter_resume_simps [simp]:
  "pr_server (reporter_resume uptime_ms what result p) = pr_server p"
  "pr_run_server (reporter_resume uptime_ms what result p) = pr_run_server p"
  "pr_server_failed (reporter_resume uptime_ms what result p) = pr_server_failed p"
  by (simp_all add: reporter_resume_def reporter_completed_def report_metrics_def split: timer_result.split)

text \<open>A step of the process is a step of the server, or none at all.\<close>

lemma process_step_server:
  assumes "process_step grow p k cs p'" "pr_run_server p \<noteq> Run_server_completed \<longrightarrow> srv_acceptor (pr_server p) = Accepting"
  shows "server_step grow (pr_server p) k cs (pr_server p') \<or> k = 0 \<and> cs = [] \<and> pr_server p' = pr_server p"
  using assms
proof (induction rule: process_step.induct)
  case (run_server_starts p bind_error)
  have "server_step grow (pr_server p) 0 [] ((pr_server p)\<lparr>srv_acceptor := Run_server_threw\<rparr>)"
    using in_background [OF server_ends, of "pr_server p" Accept_error grow] run_server_starts
    by (simp add: accept_completed_def)
  then show ?case by (cases bind_error) (simp_all add: run_server_start_def)
next
  case (accept_completes p result what)
  then show ?case
    using in_background [OF server_accepts, of "pr_server p" grow] in_background [OF server_ends, of "pr_server p" result grow]
    by (cases result) (simp_all add: accept_handler_def Let_def)
qed simp_all

text \<open>What \<open>main\<close> knows of the accept loop is how it ended.\<close>

definition process_inv :: "Process \<Rightarrow> bool" where
  "process_inv p \<longleftrightarrow>
     (pr_run_server p \<noteq> Run_server_completed \<longrightarrow> srv_acceptor (pr_server p) = Accepting \<and> \<not> pr_server_failed p) \<and>
     (pr_run_server p = Run_server_completed \<longrightarrow>
        srv_acceptor (pr_server p) = (if pr_server_failed p then Run_server_threw else Run_server_returned)) \<and>
     (pr_run_server p \<noteq> Run_server_spawned \<longrightarrow> pr_reporter p \<noteq> Reporter_spawned)"

lemma run_session_acceptor [simp]: "srv_acceptor (run_session grow i srv) = srv_acceptor srv"
  by (simp add: run_session_def end_session_def Let_def split: sum.split prod.split)

lemma process_step_inv: "process_step grow p k cs p' \<Longrightarrow> process_inv p \<Longrightarrow> process_inv p'"
proof (induction rule: process_step.induct)
  case (reporter_resumes p result uptime_ms what)
  then show ?case
    by (auto simp: process_inv_def) (auto simp: reporter_resume_def reporter_completed_def report_metrics_def split: timer_result.splits)
next
  case (run_server_starts p bind_error)
  then show ?case
    by (cases bind_error) (auto simp: run_server_start_def process_inv_def cancel_timer_def split: reporter_phase.splits)
next
  case (accept_completes p result what)
  then show ?case
    by (cases result) (auto simp: accept_handler_def process_inv_def Let_def accept_completed_def
        cancel_timer_def split: reporter_phase.splits)
qed (auto simp: process_inv_def)

lemma process_run_server:
  assumes "process_run grow p n log p'" "process_inv p"
  shows "process_inv p' \<and> server_run grow (pr_server p) n log (pr_server p')"
  using assms
proof (induction rule: process_run.induct)
  case (process_goes_on p n cs p1 k ds p2)
  then have "process_inv p1" and run: "server_run grow (pr_server p) n cs (pr_server p1)" by simp_all
  then have "pr_run_server p1 \<noteq> Run_server_completed \<longrightarrow> srv_acceptor (pr_server p1) = Accepting"
    by (simp add: process_inv_def)
  from process_step_server [OF process_goes_on.hyps(2) this] server_more [OF run] run
    process_step_inv [OF process_goes_on.hyps(2) \<open>process_inv p1\<close>]
  show ?case by auto
qed (simp add: server_start)

lemma main_start_inv: "main_start argv = Inr p \<Longrightarrow> process_inv p"
  using main_startD(2-4) by (simp add: process_inv_def)

text \<open>The process without metrics, one client connected and joined.\<close>

lemma process_with_client:
  obtains p0 p where "main_start [''mcrs_server''] = Inr p0" "process_run exact_growth p0 1 [JoinCommand 1] p"
proof -
  obtain p0 where start: "main_start [''mcrs_server''] = Inr p0" and p0: "pr_server p0 = Server_new None"
    "pr_reporter p0 = No_reporter" "pr_run_server p0 = Run_server_spawned"
    by (simp add: main_start_def server_arguments_def)
  obtain srv1 s s' where first: "srv1 = accept_completed exact_growth Accepted (Server_new None)"
    "srv_sessions srv1 1 = Some s" "session_handler exact_growth (enter_session srv1 s) s'"
    "new_commands (enter_session srv1 s) s' = [JoinCommand 1]"
    by (rule first_client) blast
  define p1 where "p1 = run_server_start None p0"
  define p2 where "p2 = accept_handler exact_growth Accepted [] p1"
  have "process_step exact_growth p0 0 [] p1" unfolding p1_def by (rule run_server_starts) (simp_all add: p0)
  moreover have "process_step exact_growth p1 1 [] p2"
    using accept_completes [of p1 exact_growth Accepted "[]"] by (simp add: p1_def p2_def run_server_start_def)
  moreover have srv1: "pr_server p2 = srv1"
    by (simp add: p2_def p1_def accept_handler_def run_server_start_def Let_def p0 first(1))
  have "process_step exact_growth p2 0 [JoinCommand 1] (p2\<lparr>pr_server := write_back 1 s' srv1\<rparr>)"
    by (rule others_move) (use session_moves [OF first(2,3)] first(4) in \<open>simp_all add: srv1 write_back_def\<close>)
  ultimately have "process_run exact_growth p0 1 [JoinCommand 1] (p2\<lparr>pr_server := write_back 1 s' srv1\<rparr>)"
    using process_goes_on [OF process_goes_on [OF process_goes_on [OF process_begins]]] by fastforce
  with start show thesis by (rule that)
qed

section \<open>The reporter after the server\<close>







end
