(* ===== verification/Session_Output.thy ===== *)
theory Session_Output
  imports Session_Properties "HOL-Library.Sublist"
begin

text \<open>
  What a session puts on its socket. The handlers of a session are named, so that a step can
  say which one ran and which bytes it left on the wire; the packets a session holds, in the
  order in which they will be written, are its stream. The handlers take packets from the
  front of the stream to the wire and put nothing but answers to pings into it, anywhere.
\<close>

section \<open>The handlers by name\<close>

datatype handler =
    On_read read_result bool
  | Writer_starts
  | On_write uint64 bool
  | Writer_throws
  | Posted_runs bool

text \<open>
  The handler on a session, \<open>None\<close> when the executor has no such handler to run. Posted handlers
  are dropped only when the executor is destroyed, after the last handler has run.
\<close>

definition run_handler :: "growth \<Rightarrow> handler \<Rightarrow> Session \<Rightarrow> Session option" where
  "run_handler grow h s =
     (case h of
        On_read result at_once \<Rightarrow>
          if read_possible s result then read_completed grow at_once result s else None
      | Writer_starts \<Rightarrow> if se_writer s = Writer_spawned then Some (writer_resume s) else None
      | On_write transferred write_error \<Rightarrow>
          (case se_writer s of
             Writing _ _ \<Rightarrow> Some (write_completed transferred write_error s)
           | _ \<Rightarrow> None)
      | Writer_throws \<Rightarrow> if se_writer s \<noteq> No_writer then Some (writer_threw s) else None
      | Posted_runs at_once \<Rightarrow> if se_posted s \<noteq> [] then Some (run_posted at_once s) else None)"

lemma run_handler_is_handler: "run_handler grow h s = Some s' \<Longrightarrow> session_handler grow s s'"
  by (auto simp: run_handler_def intro: session_handler.intros
      split: handler.splits if_splits writer_state.splits)

text \<open>
  The packets a handler has seen written: those of the batch, when its write completed. A write
  that fails, or is abandoned with the coroutine, has sent some part of the batch.
\<close>

definition written :: "handler \<Rightarrow> Session \<Rightarrow> SharedPacket list" where
  "written h s = (case h of On_write _ False \<Rightarrow> in_flight (se_writer s) | _ \<Rightarrow> [])"

definition wire :: "SharedPacket list \<Rightarrow> byte list" where
  "wire packets = concat (map (\<lambda>p. case p of None \<Rightarrow> [] | Some bytes \<Rightarrow> bytes) packets)"

definition carries :: "handler \<Rightarrow> Session \<Rightarrow> byte list \<Rightarrow> bool" where
  "carries h s bytes =
     (case h of
        On_write _ False \<Rightarrow> bytes = wire (in_flight (se_writer s))
      | On_write _ True \<Rightarrow> prefix bytes (wire (in_flight (se_writer s)))
      | Writer_throws \<Rightarrow> prefix bytes (wire (in_flight (se_writer s)))
      | _ \<Rightarrow> bytes = [])"

lemma wire_simps [simp]:
  "wire [] = []" "wire (Some bytes # ps) = bytes @ wire ps" "wire (ps @ qs) = wire ps @ wire qs"
  by (simp_all add: wire_def)

section \<open>Packets\<close>

text \<open>An answer to a ping: one whole packet of that type.\<close>

definition is_pong :: "SharedPacket \<Rightarrow> bool" where
  "is_pong p =
     (case p of
        None \<Rightarrow> False
      | Some bytes \<Rightarrow>
          (case decode_one bytes of
             Inl _ \<Rightarrow> False
           | Inr decoded \<Rightarrow> packet_type (header decoded) = ping \<and> consumed_bytes decoded = length bytes))"

abbreviation no_pongs :: "SharedPacket list \<Rightarrow> SharedPacket list" where
  "no_pongs \<equiv> filter (\<lambda>p. \<not> is_pong p)"

abbreviation event_packet :: "RoomEvent \<Rightarrow> SharedPacket" where
  "event_packet ev \<equiv> Some (frame (event_type ev) (event_payload ev))"

lemma pong_is_pong: "length bytes \<le> 65536 \<Longrightarrow> is_pong (Some (frame ping bytes))"
  using decode_one_frame [of ping bytes "[]"]
  by (simp add: is_pong_def wire_header_size_def)

lemma event_is_no_pong: "\<not> is_pong (event_packet ev)"
  using decode_one_event [of ev "[]"] by (cases ev) (simp_all add: is_pong_def)

text \<open>What a session holds for its client, from the batch being written to the posted deliveries.\<close>

definition stream :: "Session \<Rightarrow> SharedPacket list" where
  "stream s = pipeline s @ map fst (se_posted s)"


section \<open>How packets flow\<close>

text \<open>
  \<open>flows s ws s'\<close>: from \<open>s\<close> to \<open>s'\<close> the packets \<open>ws\<close> have been written. While the session runs, what
  was written and what is left make up what was there, but for answers to pings; when it has
  stopped, what was written and what is still being written comes from the front of it.
\<close>

definition flows :: "Session \<Rightarrow> SharedPacket list \<Rightarrow> Session \<Rightarrow> bool" where
  "flows s ws s' \<longleftrightarrow>
     (se_stopped s \<longrightarrow> se_stopped s' \<and> prefix (ws @ in_flight (se_writer s')) (in_flight (se_writer s))) \<and>
     (\<not> se_stopped s' \<longrightarrow> no_pongs (ws @ stream s') = no_pongs (stream s)) \<and>
     prefix (no_pongs (ws @ in_flight (se_writer s'))) (no_pongs (stream s)) \<and>
     set ws \<union> set (stream s') \<subseteq> set (stream s) \<union> {p. is_pong p} \<and>
     (se_reader s' = Reader_returned \<longrightarrow> se_reader s = Reader_returned \<or> se_stopped s')"

lemma prefix_in_flight: "prefix (no_pongs (in_flight (se_writer s))) (no_pongs (stream s))"
  by (simp add: stream_def pipeline_def)

lemma flows_trans:
  assumes "flows s ws s1" "flows s1 vs s2"
  shows "flows s (ws @ vs) s2"
proof -
  let ?after = "(ws @ vs) @ in_flight (se_writer s2)"
  have stopped: "se_stopped s1 \<Longrightarrow> prefix ?after (ws @ in_flight (se_writer s1))"
    using assms(2) by (simp add: flows_def)
  have "prefix (no_pongs ?after) (no_pongs (stream s))" if "se_stopped s1"
    by (rule prefix_order.trans [OF filter_mono_prefix [OF stopped [OF that]]])
      (use assms(1) in \<open>simp add: flows_def\<close>)
  moreover have "prefix (no_pongs ?after) (no_pongs (stream s))" if "\<not> se_stopped s1"
  proof -
    have "no_pongs (stream s) = no_pongs ws @ no_pongs (stream s1)" using assms(1) that by (simp add: flows_def)
    then show ?thesis using assms(2) by (simp add: flows_def)
  qed
  moreover have "prefix ?after (in_flight (se_writer s)) \<and> se_stopped s2" if "se_stopped s"
    using that assms prefix_order.trans [OF stopped] by (simp add: flows_def)
  moreover have "\<not> se_stopped s2 \<Longrightarrow> no_pongs ((ws @ vs) @ stream s2) = no_pongs (stream s)"
    using assms by (auto simp: flows_def)
  ultimately show ?thesis using assms unfolding flows_def by auto
qed

text \<open>A change that does not touch the packets, and one that only stops the session.\<close>

lemma flows_quiet:
  assumes "se_writer s' = se_writer s" "oq_packets (se_outbound_queue s') = oq_packets (se_outbound_queue s)"
    "se_posted s' = se_posted s" "se_stopped s \<Longrightarrow> se_stopped s'"
    "se_reader s' = Reader_returned \<Longrightarrow> se_reader s = Reader_returned \<or> se_stopped s'"
  shows "flows s [] s'"
  using assms prefix_in_flight [of s] by (auto simp: flows_def stream_def pipeline_def)

lemma flows_stop:
  assumes "in_flight (se_writer s1) = [] \<or> se_writer s1 = se_writer s" "se_posted s1 = se_posted s"
    "oq_packets (se_outbound_queue s1) = oq_packets (se_outbound_queue s)" "se_reader s1 = se_reader s"
  shows "flows s [] (stop_session r s1)"
  using assms prefix_in_flight [of s]
  by (auto simp: flows_def stream_def pipeline_def OutboundQueue_close_def)

lemma writer_resume_flows:
  assumes "out_inv s"
  shows "flows s (in_flight (se_writer s)) (writer_resume s)"
proof (cases "se_stopped s")
  case True
  then have "se_writer (writer_resume s) = No_writer" "se_outbound_queue (writer_resume s) = se_outbound_queue s"
    by (simp_all add: writer_resume_def)
  with True prefix_in_flight [of s] show ?thesis
    by (auto simp: flows_def stream_def pipeline_def)
next
  case False
  note after = writer_resume_pipeline [OF assms False]
  then have "stream s = in_flight (se_writer s) @ stream (writer_resume s)"
    by (simp add: stream_def pipeline_def)
  with False show ?thesis
    using prefix_in_flight [of "writer_resume s"] by (auto simp: flows_def)
qed

lemma enqueue_outbound_flows:
  assumes "out_inv s" "SharedPacket_size p \<le> max_packet_size" "enqueue_outbound at_once p s = (b, s')"
  shows "is_pong p \<Longrightarrow> flows s [] s'"
    "s = s0\<lparr>se_posted := posted, se_metrics := ms\<rparr> \<Longrightarrow> se_posted s0 = (p, d) # posted \<Longrightarrow> flows s0 [] s'"
proof -
  note effect = enqueue_outbound_pipeline [OF assms]
  have posted: "se_posted s' = se_posted s" and reader: "se_reader s' = se_reader s"
    using enqueue_outbound_frame(3,4) [of at_once p s] assms(3) by simp_all
  have refused: "set (stream s') \<subseteq> set (stream s)" "no_pongs (in_flight (se_writer s')) = no_pongs (in_flight (se_writer s))"
    if "\<not> b"
    using effect(2) [OF that] posted by (auto simp: stream_def pipeline_def)
  show "flows s [] s'" if pong: "is_pong p"
  proof (cases b)
    case True
    with effect(1) posted have "stream s' = pipeline s @ [p] @ map fst (se_posted s)" by (simp add: stream_def)
    with True effect(1) pong reader prefix_in_flight [of s'] show ?thesis
      by (auto simp: flows_def stream_def)
  next
    case False
    with effect(2) refused reader prefix_in_flight [of s] show ?thesis by (auto simp: flows_def)
  qed
  show "flows s0 [] s'"
    if s: "s = s0\<lparr>se_posted := posted, se_metrics := ms\<rparr>" "se_posted s0 = (p, d) # posted"
  proof (cases b)
    case True
    with effect(1) posted s have "stream s' = stream s0" by (simp add: stream_def pipeline_def)
    with True effect(1) s reader prefix_in_flight [of s'] show ?thesis by (auto simp: flows_def)
  next
    case False
    moreover have "set (stream s) \<subseteq> set (stream s0)" using s by (auto simp: stream_def pipeline_def)
    ultimately show ?thesis
      using effect(2) refused reader prefix_in_flight [of s0] s by (auto simp: flows_def)
  qed
qed

lemma submitted_quiet:
  "submit_room_command c s = (b, s1) \<Longrightarrow> se_writer s1 = se_writer s \<and> se_posted s1 = se_posted s
    \<and> se_outbound_queue s1 = se_outbound_queue s \<and> se_stopped s1 = se_stopped s \<and> se_reader s1 = se_reader s"
  by (auto simp: submit_room_command_eq split: if_splits)

lemma handle_packet_flows:
  assumes "handle_packet at_once (view_of t p) s = (r, s')" "out_inv s" "length p \<le> 65536"
  shows "flows s [] s'"
proof -
  have stop: "flows s [] (stop_session reason s)" for reason by (rule flows_stop) simp_all
  have shut: "flows s [] (stop_session reason s1)" if "submit_room_command c s = (b, s1)" for c b s1 reason
    using submitted_quiet [OF that] by (intro flows_stop) simp_all
  have quiet: "flows s [] (consume_packet v (s1\<lparr>se_joined_room := j\<rparr>))" "flows s [] (consume_packet v s1)"
    if "submit_room_command c s = (b, s1)" for c b s1 j v
    using submitted_quiet [OF that] by (auto intro!: flows_quiet simp: consume_packet_def)
  show ?thesis
  proof (cases t)
    case ping
    let ?s = "consume_packet (view_of t p) s"
    have start: "flows s [] ?s" "out_inv ?s" using assms(2) by (auto intro!: flows_quiet simp: consume_packet_def)
    have "flows ?s [] (snd (enqueue_outbound at_once (Some (frame PacketType.ping p)) ?s))"
      by (rule enqueue_outbound_flows(1) [OF start(2) _ _ pong_is_pong [OF assms(3)], of at_once
            "fst (enqueue_outbound at_once (Some (frame PacketType.ping p)) ?s)"])
        (use assms(3) in \<open>simp_all add: wire_header_size_def\<close>)
    with flows_trans [OF start(1)] ping assms(1,3) stop show ?thesis
      by (auto simp: handle_packet_def handle_ping_def encode_packet_cases make_shared_packet_def
          case_prod_beta Let_def split: if_splits)
  next
    case join_room
    with assms(1) stop shut quiet show ?thesis
      by (auto simp: handle_packet_def handle_join_def reject_protocol_def split: if_splits prod.splits)
  next
    case move
    with assms(1) stop shut quiet show ?thesis
      by (auto simp: handle_packet_def handle_move_def reject_protocol_def
          split: if_splits prod.splits sum.splits)
  next
    case leave_room
    have "flows s [] (consume_packet v (leave_room_if_joined reason s))" for v reason
      by (rule flows_quiet) (simp_all add: consume_packet_def)
    with leave_room assms(1) stop show ?thesis
      by (auto simp: handle_packet_def handle_leave_def reject_protocol_def split: if_splits)
  next
    case (unlisted c)
    with assms(1) show ?thesis by (auto simp: handle_packet_def intro: flows_quiet)
  qed (use assms(1) stop in \<open>auto simp: handle_packet_def reject_protocol_def\<close>)
qed

lemma without_buffer_flows:
  "flows (without_buffer s) ws s' = flows s ws s'" "flows s ws (without_buffer s') = flows s ws s'"
  by (simp_all add: flows_def stream_def pipeline_def without_buffer_def)

lemma consume_stream_flows:
  assumes "consume_stream at_once bytes (without_buffer s) = (b, rest, without_buffer s1)" "out_inv s"
  shows "flows s [] s1"
proof -
  have "flows s [] (without_buffer s1) \<and> out_inv (without_buffer s1)"
    using assms(1)
  proof (rule consume_stream_keeps)
    show "flows s [] (without_buffer s) \<and> out_inv (without_buffer s)"
      using assms(2) by (simp add: without_buffer_flows flows_quiet)
  next
    fix s' assume "flows s [] s' \<and> out_inv s'"
    moreover have "flows s' [] (stop_session protocol_error s')" by (rule flows_stop) simp_all
    ultimately show "flows s [] (stop_session protocol_error s') \<and> out_inv (stop_session protocol_error s')"
      using flows_trans [of s "[]" s' "[]"] out_inv_stop by simp
  next
    fix t p s' r s2
    assume "is_known t" "length p \<le> 65536" "handle_packet at_once (view_of t p) s' = (r, s2)"
      "flows s [] s' \<and> out_inv s'"
    then show "flows s [] (without_buffer s2) \<and> out_inv (without_buffer s2)"
      using flows_trans [of s "[]" s' "[]"] handle_packet_flows handle_packet_out_inv
      by (simp add: without_buffer_flows)
  qed
  then show ?thesis by (simp add: without_buffer_flows)
qed

lemma reader_flows:
  "flows s ws s' \<Longrightarrow> rd \<noteq> Reader_returned \<or> se_stopped s' \<Longrightarrow> flows s ws (s'\<lparr>se_reader := rd\<rparr>)"
  by (simp add: flows_def stream_def pipeline_def)

lemma read_completed_flows:
  assumes "session_inv s" "read_possible s result" "read_completed grow at_once result s = Some s'"
  shows "flows s [] s'"
proof -
  have stop: "flows s [] ((stop_session reason s)\<lparr>se_reader := Reader_returned\<rparr>)" for reason
    by (intro reader_flows flows_stop) simp_all
  have quiet: "flows s [] (s\<lparr>se_reader := Reader_returned\<rparr>)" if "se_stopped s"
    using that by (intro reader_flows flows_quiet) simp_all
  show ?thesis
  proof (cases result)
    case (Read_bytes bytes)
    have inv: "recv_inv s" "out_inv s" using assms(1) by (simp_all add: session_inv_def)
    have rd: "se_reader s \<noteq> Reader_returned" "length bytes \<le> tcp_read_chunk_size"
      using assms(2) Read_bytes by auto
    obtain b s1 rest where read:
      "read_completed grow at_once (Read_bytes bytes) s =
        Some (s1\<lparr>se_reader := if \<not> b then Reader_returned
                              else if se_socket_open s1 then Reading else Reading_closed\<rparr>)"
      "consume_stream at_once (readable_bytes (se_receive_buffer s) @ bytes) (without_buffer s) =
        (b, rest, without_buffer s1)" "\<not> b \<Longrightarrow> se_stopped s1"
      by (rule read_bytes_effect [OF inv rd, of grow at_once]) blast
    note reader = reader_flows [OF consume_stream_flows [OF read(2) inv(2)]]
    show ?thesis using read(1,3) assms(3) by (auto simp: Read_bytes reader)
  qed (use assms(3) stop quiet in \<open>auto simp: read_completed_def Let_def split: if_splits\<close>)
qed

lemma run_posted_flows:
  assumes "session_inv s" "se_posted s \<noteq> []"
  shows "flows s [] (run_posted at_once s)"
proof -
  obtain p d posted where posted: "se_posted s = (p, d) # posted" using assms(2) by (metis list.exhaust prod.exhaust)
  let ?ms = "map_option (\<lambda>ms. snd (PendingDelivery_begin d ms)) (se_metrics s)"
  let ?s = "s\<lparr>se_posted := posted, se_metrics := ?ms\<rparr>"
  note unposted = unpost_inv [OF assms(1) posted disjI1 [OF refl]]
  obtain b s' where push: "enqueue_outbound at_once p ?s = (b, s')" by fastforce
  have "flows s [] s'"
    by (rule enqueue_outbound_flows(2) [OF _ unposted(2) push _ posted])
      (use unposted(1) in \<open>simp_all add: session_inv_def\<close>)
  then show ?thesis by (simp add: run_posted_def posted push)
qed

lemma run_handler_flows:
  assumes "run_handler grow h s = Some s'" "session_inv s"
  shows "flows s (written h s) s'"
proof (cases h)
  case (On_read result at_once)
  with assms show ?thesis
    by (auto simp: run_handler_def written_def intro: read_completed_flows split: if_splits)
next
  case Writer_starts
  with assms writer_resume_flows [of s] show ?thesis
    by (auto simp: run_handler_def written_def session_inv_def split: if_splits)
next
  case (On_write transferred write_error)
  then obtain packets batch where writing: "se_writer s = Writing packets batch"
    and s': "s' = write_completed transferred write_error s"
    using assms(1) by (auto simp: run_handler_def split: writer_state.splits)
  let ?s = "s\<lparr>se_metrics := map_option
    (\<lambda>ms. snd (WriteBatch_complete transferred write_error batch ms)) (se_metrics s)\<rparr>"
  have "flows s [] ?s" by (rule flows_quiet) simp_all
  from flows_trans [OF this writer_resume_flows [of ?s]] assms(2)
  have "flows s packets (writer_resume ?s)" by (simp add: session_inv_def writing)
  moreover have "flows s [] (stop_session io_error (?s\<lparr>se_write_in_progress := False, se_writer := No_writer\<rparr>))"
    by (rule flows_stop) simp_all
  ultimately show ?thesis
    by (cases write_error) (simp_all add: s' On_write written_def write_completed_def writing)
next
  case Writer_throws
  have "flows s [] (writer_threw s)"
    unfolding writer_threw_def by (rule flows_stop) (simp_all split: writer_state.split)
  with Writer_throws assms show ?thesis by (auto simp: run_handler_def written_def split: if_splits)
next
  case (Posted_runs at_once)
  with assms run_posted_flows show ?thesis
    by (auto simp: run_handler_def written_def split: if_splits)
qed

end
