(* ===== verification/Load_Reader.thy ===== *)
theory Load_Reader
  imports Packet_Codec Gameplay_Payload Receive_Buffer Room_Event_Encoder
begin

text \<open>
  The reading side of a bot of the load client, \<open>src/benchmark/load_client.cpp\<close>: the loop that
  takes the next event of the server out of the receive buffer, and the loops that wait for a
  particular event. Each loop ends with a result, with an exception (its message is the value),
  or where the coroutine suspends for more bytes.
\<close>

section \<open>Data\<close>

definition read_chunk_size :: size_t where
  "read_chunk_size = 4 * 1024"

definition max_receive_buffer_size :: size_t where
  "max_receive_buffer_size = wire_header_size + unat max_payload_size + read_chunk_size"

record ServerEvent =
  ev_type :: PacketType
  ev_player_state :: "PlayerStatePayload option"

datatype 'a fetched = Fetched 'a | More_bytes | Reader_threw string

section \<open>The next event\<close>

text \<open>What the reader makes of one packet; a packet of another type is skipped.\<close>

definition server_packet :: "PacketView \<Rightarrow> (ServerEvent option, string) expected" where
  "server_packet decoded =
     (let type = packet_type (header decoded)
      in if type = player_joined \<or> type = player_moved then
           (case decode_player_state_payload (payload decoded) of
              Inl e \<Rightarrow> Inl (''decode player state: '' @ GameplayPayloadError_to_string e)
            | Inr player \<Rightarrow> Inr (Some \<lparr>ev_type = type, ev_player_state = Some player\<rparr>))
         else if type = player_left then
           (case decode_player_left_payload (payload decoded) of
              Inl e \<Rightarrow> Inl (''decode player left: '' @ GameplayPayloadError_to_string e)
            | Inr player \<Rightarrow> Inr (Some \<lparr>ev_type = type, ev_player_state = None\<rparr>))
         else Inr None)"

text \<open>The inner loop; \<open>None\<close> would be a loop that never ends, and is shown not to occur.\<close>

partial_function (option) read_next_server_event ::
  "ReceiveBuffer \<Rightarrow> (ServerEvent fetched \<times> ReceiveBuffer) option" where
  "read_next_server_event b =
     (if ReceiveBuffer_empty b then Some (More_bytes, b)
      else
        case decode_one (readable_bytes b) of
          Inl e \<Rightarrow>
            if is_incomplete e then Some (More_bytes, b)
            else Some (Reader_threw (''decode packet: '' @ DecodeError_to_string e), b)
        | Inr decoded \<Rightarrow>
            (case server_packet decoded of
               Inl message \<Rightarrow> Some (Reader_threw message, b)
             | Inr (Some event) \<Rightarrow>
                 Some (Fetched event, ReceiveBuffer_consume b (consumed_bytes decoded))
             | Inr None \<Rightarrow>
                 read_next_server_event (ReceiveBuffer_consume b (consumed_bytes decoded))))"

section \<open>The waiting loops\<close>

text \<open>The two loops that read events until one fits share their shape.\<close>

partial_function (option) wait_for ::
  "('b \<Rightarrow> ('ev fetched \<times> 'b) option) \<Rightarrow> ('ev \<Rightarrow> bool) \<Rightarrow> 'b \<Rightarrow> (unit fetched \<times> 'b) option" where
  "wait_for fetch fits b =
     (case fetch b of
        None \<Rightarrow> None
      | Some (Fetched event, b') \<Rightarrow> if fits event then Some (Fetched (), b') else wait_for fetch fits b'
      | Some (More_bytes, b') \<Rightarrow> Some (More_bytes, b')
      | Some (Reader_threw message, b') \<Rightarrow> Some (Reader_threw message, b'))"

definition is_room_entry :: "ServerEvent \<Rightarrow> bool" where
  "is_room_entry event \<longleftrightarrow> ev_type event = player_joined"

definition is_move_event :: "int32 \<Rightarrow> int32 \<Rightarrow> ServerEvent \<Rightarrow> bool" where
  "is_move_event x y event \<longleftrightarrow>
     ev_type event = player_moved \<and>
     (case ev_player_state event of None \<Rightarrow> False | Some p \<Rightarrow> state_x p = x \<and> state_y p = y)"

definition wait_for_room_entry :: "ReceiveBuffer \<Rightarrow> (unit fetched \<times> ReceiveBuffer) option" where
  "wait_for_room_entry b = wait_for read_next_server_event is_room_entry b"

definition wait_for_move_event ::
  "int32 \<Rightarrow> int32 \<Rightarrow> ReceiveBuffer \<Rightarrow> (unit fetched \<times> ReceiveBuffer) option" where
  "wait_for_move_event x y b = wait_for read_next_server_event (is_move_event x y) b"

text \<open>The loop at the end of \<open>run_bot\<close>, with the number of leaves it has observed.\<close>

partial_function (option) count_events ::
  "('b \<Rightarrow> ('ev fetched \<times> 'b) option) \<Rightarrow> ('ev \<Rightarrow> bool) \<Rightarrow> size_t \<Rightarrow> size_t \<Rightarrow> 'b
    \<Rightarrow> (unit fetched \<times> size_t \<times> 'b) option" where
  "count_events fetch fits wanted observed b =
     (if observed < wanted then
        (case fetch b of
           None \<Rightarrow> None
         | Some (Fetched event, b') \<Rightarrow>
             count_events fetch fits wanted (if fits event then size_add observed 1 else observed) b'
         | Some (More_bytes, b') \<Rightarrow> Some (More_bytes, observed, b')
         | Some (Reader_threw message, b') \<Rightarrow> Some (Reader_threw message, observed, b'))
      else Some (Fetched (), observed, b))"

definition is_leave :: "ServerEvent \<Rightarrow> bool" where
  "is_leave event \<longleftrightarrow> ev_type event = player_left"

definition observe_leaves ::
  "size_t \<Rightarrow> size_t \<Rightarrow> ReceiveBuffer \<Rightarrow> (unit fetched \<times> size_t \<times> ReceiveBuffer) option" where
  "observe_leaves client_index observed b =
     count_events read_next_server_event is_leave client_index observed b"

section \<open>The interface: a source of events\<close>

text \<open>
  What the waiting loops rely on: fetching ends, keeps the invariant, gives up an event only
  against bytes, and suspends only when what is left is settled.
\<close>

locale event_source =
  fixes fetch :: "'b \<Rightarrow> ('ev fetched \<times> 'b) option"
    and invar :: "'b \<Rightarrow> bool"
    and settled :: "'b \<Rightarrow> bool"
    and pending :: "'b \<Rightarrow> nat"
  assumes fetch_ends: "invar b \<Longrightarrow> \<exists>r b'. fetch b = Some (r, b')"
    and fetch_invar: "invar b \<Longrightarrow> fetch b = Some (r, b') \<Longrightarrow> invar b'"
    and fetch_takes: "invar b \<Longrightarrow> fetch b = Some (Fetched e, b') \<Longrightarrow> pending b' < pending b"
    and fetch_settles: "invar b \<Longrightarrow> fetch b = Some (More_bytes, b') \<Longrightarrow> settled b'"
begin

lemma wait_for_ends:
  "invar b \<Longrightarrow> \<exists>r b'. wait_for fetch fits b = Some (r, b') \<and> invar b' \<and> (r = More_bytes \<longrightarrow> settled b')"
proof (induction "pending b" arbitrary: b rule: less_induct)
  case less
  obtain r b' where step: "fetch b = Some (r, b')" using fetch_ends [OF less.prems] by blast
  note facts = fetch_invar [OF less.prems step]
  show ?case
  proof (cases r)
    case (Fetched e)
    with fetch_takes [OF less.prems] step have "pending b' < pending b" by blast
    from less.hyps [OF this facts] facts show ?thesis
      by (subst wait_for.simps) (simp add: step Fetched)
  next
    case More_bytes
    with fetch_settles [OF less.prems] step facts show ?thesis
      by (subst wait_for.simps) simp
  next
    case (Reader_threw m)
    with facts step show ?thesis by (subst wait_for.simps) simp
  qed
qed

lemma count_events_ends:
  "invar b \<Longrightarrow> \<exists>r n b'. count_events fetch fits wanted observed b = Some (r, n, b') \<and> invar b'
    \<and> (r = More_bytes \<longrightarrow> settled b')"
proof (induction "pending b" arbitrary: b observed rule: less_induct)
  case less
  obtain r b' where step: "fetch b = Some (r, b')" using fetch_ends [OF less.prems] by blast
  note facts = fetch_invar [OF less.prems step]
  show ?case
  proof (cases "observed < wanted")
    case False
    with less.prems show ?thesis by (subst count_events.simps) simp
  next
    case True
    show ?thesis
    proof (cases r)
      case (Fetched e)
      with fetch_takes [OF less.prems] step have "pending b' < pending b" by blast
      from less.hyps [OF this facts] show ?thesis
        using True by (subst count_events.simps) (simp add: step Fetched)
    next
      case More_bytes
      with fetch_settles [OF less.prems] step facts True show ?thesis
        by (subst count_events.simps) simp
    next
      case (Reader_threw m)
      with facts step True show ?thesis by (subst count_events.simps) simp
    qed
  qed
qed

end

section \<open>The reader on a stream of bytes\<close>

text \<open>The same reader on the list of the bytes it has not consumed, as a total function.\<close>

function first_event :: "byte list \<Rightarrow> ServerEvent fetched \<times> byte list" where
  "first_event bytes =
     (if bytes = [] then (More_bytes, [])
      else
        case decode_one bytes of
          Inl e \<Rightarrow>
            if is_incomplete e then (More_bytes, bytes)
            else (Reader_threw (''decode packet: '' @ DecodeError_to_string e), bytes)
        | Inr decoded \<Rightarrow>
            (case server_packet decoded of
               Inl message \<Rightarrow> (Reader_threw message, bytes)
             | Inr (Some event) \<Rightarrow> (Fetched event, drop (consumed_bytes decoded) bytes)
             | Inr None \<Rightarrow> first_event (drop (consumed_bytes decoded) bytes)))"
  by pat_completeness auto
termination
  by (relation "measure length") (auto elim!: decode_one_InrE simp: wire_header_size_def)

declare first_event.simps [simp del]

lemma decode_one_consumes:
  assumes "decode_one bytes = Inr decoded"
  shows "0 < consumed_bytes decoded" "consumed_bytes decoded \<le> length bytes"
  using assms by (auto elim!: decode_one_InrE simp: wire_header_size_def)

lemma first_event_facts:
  "first_event bytes = (r, rest) \<Longrightarrow>
    length rest \<le> length bytes \<and> (\<forall>e. r = Fetched e \<longrightarrow> length rest < length bytes)
    \<and> (r = More_bytes \<longrightarrow> length rest < 65542)"
proof (induction bytes rule: first_event.induct)
  case (1 bytes)
  show ?case
  proof (cases "bytes = []")
    case True
    with 1(2) show ?thesis by (simp add: first_event.simps)
  next
    case nonempty: False
    show ?thesis
    proof (cases "decode_one bytes")
      case (Inl e)
      with 1(2) nonempty incomplete_length [OF Inl] show ?thesis
        by (subst (asm) first_event.simps) (auto split: if_splits)
    next
      case (Inr decoded)
      note consumed = decode_one_consumes [OF Inr]
      show ?thesis
      proof (cases "server_packet decoded = Inr None")
        case True
        then have "first_event bytes = first_event (drop (consumed_bytes decoded) bytes)"
          using nonempty Inr by (subst first_event.simps) simp
        with 1(1) [OF nonempty Inr True] 1(2) consumed show ?thesis by fastforce
      next
        case False
        with 1(2) nonempty Inr consumed show ?thesis
          by (subst (asm) first_event.simps) (auto split: sum.splits option.splits)
      qed
    qed
  qed
qed

lemma read_next_server_event_refines:
  "rb_inv b \<Longrightarrow> \<exists>b'. read_next_server_event b = Some (fst (first_event (readable_bytes b)), b')
    \<and> rb_inv b' \<and> readable_bytes b' = snd (first_event (readable_bytes b))
    \<and> rb_max_buffered_bytes b' = rb_max_buffered_bytes b"
proof (induction "length (readable_bytes b)" arbitrary: b rule: less_induct)
  case less
  let ?bytes = "readable_bytes b"
  show ?case
  proof (cases "?bytes = []")
    case True
    with less.prems show ?thesis
      by (subst read_next_server_event.simps, subst first_event.simps, subst first_event.simps)
        (simp add: ReceiveBuffer_empty_readable)
  next
    case nonempty: False
    show ?thesis
    proof (cases "decode_one ?bytes")
      case (Inl e)
      with less.prems nonempty show ?thesis
        by (subst read_next_server_event.simps) (simp add: first_event.simps ReceiveBuffer_empty_readable)
    next
      case (Inr decoded)
      note consumed = decode_one_consumes [OF Inr]
      note after = consume_facts [OF less.prems consumed(2)]
      show ?thesis
      proof (cases "server_packet decoded = Inr None")
        case True
        have step: "read_next_server_event b = read_next_server_event (ReceiveBuffer_consume b (consumed_bytes decoded))"
          using nonempty Inr True less.prems
          by (subst read_next_server_event.simps) (simp add: ReceiveBuffer_empty_readable)
        have stream: "first_event ?bytes = first_event (drop (consumed_bytes decoded) ?bytes)"
          using nonempty Inr True by (subst first_event.simps) simp
        have "length (readable_bytes (ReceiveBuffer_consume b (consumed_bytes decoded))) < length ?bytes"
          using consumed nonempty by (simp add: after(2))
        from less.hyps [OF this after(1)] show ?thesis unfolding step stream after(2,3) .
      next
        case False
        with less.prems nonempty Inr after show ?thesis
          by (subst read_next_server_event.simps)
            (auto simp: first_event.simps [of ?bytes] ReceiveBuffer_empty_readable split: sum.split option.split)
      qed
    qed
  qed
qed

text \<open>Where the stream is cut is immaterial.\<close>

lemma first_event_append:
  "first_event (xs @ ys) =
    (case first_event xs of (More_bytes, rest) \<Rightarrow> first_event (rest @ ys) | (r, rest) \<Rightarrow> (r, rest @ ys))"
proof (induction xs rule: first_event.induct)
  case (1 xs)
  show ?case
  proof (cases "xs = []")
    case True
    then show ?thesis by (simp add: first_event.simps [of "[]"])
  next
    case nonempty: False
    show ?thesis
    proof (cases "\<exists>e. decode_one xs = Inl e \<and> is_incomplete e")
      case True
      then have "first_event xs = (More_bytes, xs)"
        using nonempty by (subst first_event.simps) auto
      then show ?thesis by simp
    next
      case final: False
      then have same: "decode_one (xs @ ys) = decode_one xs" using decode_one_append [of xs ys] by blast
      show ?thesis
      proof (cases "decode_one xs")
        case (Inl e)
        with final same nonempty show ?thesis by (simp add: first_event.simps)
      next
        case (Inr decoded)
        note consumed = decode_one_consumes [OF Inr]
        show ?thesis
        proof (cases "server_packet decoded = Inr None")
          case True
          have "first_event (xs @ ys) = first_event (drop (consumed_bytes decoded) xs @ ys)"
            using nonempty same Inr True consumed by (subst first_event.simps) simp
          moreover have "first_event xs = first_event (drop (consumed_bytes decoded) xs)"
            using nonempty Inr True by (subst first_event.simps) simp
          ultimately show ?thesis using 1 [OF nonempty Inr True] by simp
        next
          case False
          with nonempty same Inr consumed show ?thesis
            by (auto simp: first_event.simps [of "xs @ ys"] first_event.simps [of xs] split: sum.split option.split)
        qed
      qed
    qed
  qed
qed

section \<open>The receive buffer is a source of events\<close>

definition reader_inv :: "ReceiveBuffer \<Rightarrow> bool" where
  "reader_inv b \<longleftrightarrow> rb_inv b \<and> rb_max_buffered_bytes b = max_receive_buffer_size"

definition reader_settled :: "ReceiveBuffer \<Rightarrow> bool" where
  "reader_settled b \<longleftrightarrow> length (readable_bytes b) < wire_header_size + unat max_payload_size"

interpretation bot_reader: event_source read_next_server_event reader_inv reader_settled
  "\<lambda>b. length (readable_bytes b)"
proof unfold_locales
  fix b assume b: "reader_inv b"
  then obtain b' where step: "read_next_server_event b = Some (fst (first_event (readable_bytes b)), b')"
    and after: "reader_inv b'" "readable_bytes b' = snd (first_event (readable_bytes b))"
    using read_next_server_event_refines [of b] by (auto simp: reader_inv_def)
  show "\<exists>r b'. read_next_server_event b = Some (r, b')" using step by blast
  fix r b2 assume r: "read_next_server_event b = Some (r, b2)"
  then have b2: "b2 = b'" "r = fst (first_event (readable_bytes b))" using step by simp_all
  show "reader_inv b2" using b2 after by simp
next
  fix b e b2 assume "reader_inv b" "read_next_server_event b = Some (Fetched e, b2)"
  then show "length (readable_bytes b2) < length (readable_bytes b)"
    using read_next_server_event_refines [of b] first_event_facts [of "readable_bytes b"]
    by (cases "first_event (readable_bytes b)") (auto simp: reader_inv_def)
next
  fix b b2 assume "reader_inv b" "read_next_server_event b = Some (More_bytes, b2)"
  then show "reader_settled b2"
    using read_next_server_event_refines [of b] first_event_facts [of "readable_bytes b"]
    by (cases "first_event (readable_bytes b)") (auto simp: reader_inv_def reader_settled_def wire_header_size_def)
qed

text \<open>A chunk read into a settled buffer fits.\<close>

lemma settled_append:
  assumes "reader_inv b" "reader_settled b" "length bytes \<le> read_chunk_size"
  shows "\<exists>b'. ReceiveBuffer_append grow b bytes = Inr b' \<and> reader_inv b'"
proof -
  have "length (readable_bytes b) + length bytes \<le> ReceiveBuffer_max_size b"
    using assms by (simp add: reader_inv_def reader_settled_def ReceiveBuffer_max_size_def max_receive_buffer_size_def)
  then show ?thesis
    using rb.append_fits [of b bytes grow] assms(1) by (auto simp: reader_inv_def ReceiveBuffer_max_size_def)
qed

lemma reader_new: "reader_inv (ReceiveBuffer_new grow max_receive_buffer_size initial)"
  using ReceiveBuffer_new_inv [of max_receive_buffer_size grow initial]
  by (simp add: reader_inv_def max_receive_buffer_size_def read_chunk_size_def wire_header_size_def)

lemma reader_new_settled: "reader_settled (ReceiveBuffer_new grow max_receive_buffer_size initial)"
  by (simp add: reader_settled_def wire_header_size_def)

section \<open>From the room to a bot\<close>

text \<open>
  A bot that only reads: it takes every event out of its buffer, then appends the next chunk.
  \<open>events_in\<close> is the list of the events in a stream of bytes and what is left of it.
\<close>

partial_function (option) fetch_all ::
  "ReceiveBuffer \<Rightarrow> (ServerEvent list \<times> (ReceiveBuffer, string) expected) option" where
  "fetch_all b =
     (case read_next_server_event b of
        None \<Rightarrow> None
      | Some (Fetched event, b') \<Rightarrow>
          Option.bind (fetch_all b') (\<lambda>(events, r). Some (event # events, r))
      | Some (More_bytes, b') \<Rightarrow> Some ([], Inr b')
      | Some (Reader_threw message, b') \<Rightarrow> Some ([], Inl message))"

fun feed :: "growth \<Rightarrow> ReceiveBuffer \<Rightarrow> byte list list \<Rightarrow> (ServerEvent list \<times> (ReceiveBuffer, string) expected) option" where
  "feed grow b [] = fetch_all b"
| "feed grow b (chunk # chunks) =
     Option.bind (fetch_all b) (\<lambda>(events, r).
       case r of
         Inl message \<Rightarrow> Some (events, Inl message)
       | Inr b1 \<Rightarrow>
           (case ReceiveBuffer_append grow b1 chunk of
              Inl _ \<Rightarrow> Some (events, Inl ''receive buffer limit exceeded'')
            | Inr b2 \<Rightarrow> Option.bind (feed grow b2 chunks) (\<lambda>(later, r'). Some (events @ later, r'))))"

function events_in :: "byte list \<Rightarrow> ServerEvent list \<times> (byte list, string) expected" where
  "events_in bytes =
     (case first_event bytes of
        (Fetched event, rest) \<Rightarrow> (case events_in rest of (events, r) \<Rightarrow> (event # events, r))
      | (More_bytes, rest) \<Rightarrow> ([], Inr rest)
      | (Reader_threw message, rest) \<Rightarrow> ([], Inl message))"
  by pat_completeness auto
termination
  by (relation "measure length") (simp, metis first_event_facts in_measure)

declare events_in.simps [simp del]

lemma fetch_all_refines:
  "reader_inv b \<Longrightarrow> events_in (readable_bytes b) = (events, r) \<Longrightarrow>
    case r of Inl message \<Rightarrow> fetch_all b = Some (events, Inl message)
      | Inr rest \<Rightarrow> \<exists>b'. fetch_all b = Some (events, Inr b') \<and> reader_inv b' \<and> reader_settled b'
          \<and> readable_bytes b' = rest"
proof (induction "length (readable_bytes b)" arbitrary: b events rule: less_induct)
  case less
  obtain r1 rest where first: "first_event (readable_bytes b) = (r1, rest)" by fastforce
  obtain b' where step: "read_next_server_event b = Some (r1, b')"
    and b': "reader_inv b'" "readable_bytes b' = rest"
    using read_next_server_event_refines [of b] less.prems(1) first by (auto simp: reader_inv_def)
  note facts = first_event_facts [OF first]
  show ?case
  proof (cases r1)
    case (Fetched e)
    obtain es where es: "events_in rest = (es, r)" "events = e # es"
      using less.prems(2) first Fetched by (subst (asm) events_in.simps) (auto split: prod.splits)
    have "length (readable_bytes b') < length (readable_bytes b)" using facts Fetched b'(2) by simp
    from less.hyps [OF this b'(1)] es b'(2) show ?thesis
      by (subst fetch_all.simps, subst fetch_all.simps) (auto simp: step Fetched split: sum.splits)
  next
    case More_bytes
    then have "events = []" "r = Inr rest"
      using less.prems(2) first by (subst (asm) events_in.simps, simp)+
    with More_bytes b' facts show ?thesis
      by (subst fetch_all.simps) (simp add: step reader_settled_def wire_header_size_def)
  next
    case (Reader_threw m)
    then have "events = []" "r = Inl m"
      using less.prems(2) first by (subst (asm) events_in.simps, simp)+
    with Reader_threw show ?thesis by (subst fetch_all.simps) (simp add: step)
  qed
qed

lemma events_in_append:
  "events_in (xs @ ys) =
    (case events_in xs of
       (events, Inl message) \<Rightarrow> (events, Inl message)
     | (events, Inr rest) \<Rightarrow> (case events_in (rest @ ys) of (later, r) \<Rightarrow> (events @ later, r)))"
proof (induction xs rule: events_in.induct)
  case (1 xs)
  obtain r rest where first: "first_event xs = (r, rest)" by fastforce
  show ?case
  proof (cases r)
    case (Fetched e)
    have "events_in xs = (case events_in rest of (events, r) \<Rightarrow> (e # events, r))"
      using first Fetched by (subst events_in.simps) simp
    moreover have "events_in (xs @ ys) = (case events_in (rest @ ys) of (events, r) \<Rightarrow> (e # events, r))"
      using first Fetched by (subst events_in.simps) (simp add: first_event_append)
    ultimately show ?thesis
      using 1 [OF first [symmetric] Fetched] by (auto split: prod.splits sum.splits)
  next
    case More_bytes
    then have "events_in xs = ([], Inr rest)" using first by (subst events_in.simps) simp
    moreover have "first_event (xs @ ys) = first_event (rest @ ys)"
      using first More_bytes by (simp add: first_event_append)
    then have "events_in (xs @ ys) = events_in (rest @ ys)"
      by (simp add: events_in.simps [of "xs @ ys"] events_in.simps [of "rest @ ys"])
    ultimately show ?thesis by simp
  next
    case (Reader_threw m)
    then show ?thesis
      using first by (simp add: events_in.simps [of xs] events_in.simps [of "xs @ ys"] first_event_append)
  qed
qed

lemma feed_refines:
  assumes "reader_inv b" "\<forall>c\<in>set chunks. length c \<le> read_chunk_size"
    and "events_in (readable_bytes b @ concat chunks) = (events, Inr rest)"
  shows "\<exists>b'. feed grow b chunks = Some (events, Inr b') \<and> readable_bytes b' = rest"
  using assms
proof (induction chunks arbitrary: b events)
  case Nil
  then show ?case using fetch_all_refines [of b events "Inr rest"] by auto
next
  case (Cons c cs)
  obtain es r where fst: "events_in (readable_bytes b) = (es, r)" by fastforce
  with Cons.prems(3) obtain rest1 where r: "r = Inr rest1"
    by (cases r) (auto simp: events_in_append [of "readable_bytes b"])
  obtain b1 where b1: "fetch_all b = Some (es, Inr b1)" "reader_inv b1" "reader_settled b1" "readable_bytes b1 = rest1"
    using fetch_all_refines [OF Cons.prems(1) fst] r by auto
  obtain b2 where b2: "ReceiveBuffer_append grow b1 c = Inr b2" "reader_inv b2"
    using settled_append [OF b1(2,3), of c grow] Cons.prems(2) by auto
  have contents: "readable_bytes b2 = rest1 @ c"
    using rb.append_InrD [OF _ b2(1)] b1 by (simp add: reader_inv_def)
  obtain later where later: "events_in (readable_bytes b2 @ concat cs) = (later, Inr rest)" "events = es @ later"
    using Cons.prems(3) events_in_append [of "readable_bytes b" "c @ concat cs"] fst r
    by (auto simp: contents split: prod.splits)
  obtain b' where "feed grow b2 cs = Some (later, Inr b')" "readable_bytes b' = rest"
    using Cons.IH [OF b2(2) _ later(1)] Cons.prems(2) by auto
  then show ?case by (simp add: b1(1) b2(1) later(2))
qed

fun server_event_of :: "RoomEvent \<Rightarrow> ServerEvent" where
  "server_event_of (PlayerJoinedEvent s p) = \<lparr>ev_type = player_joined,
     ev_player_state = Some \<lparr>state_session_id = s, state_x = grid_x p, state_y = grid_y p\<rparr>\<rparr>"
| "server_event_of (PlayerMovedEvent s p) = \<lparr>ev_type = player_moved,
     ev_player_state = Some \<lparr>state_session_id = s, state_x = grid_x p, state_y = grid_y p\<rparr>\<rparr>"
| "server_event_of (PlayerLeftEvent s r) = \<lparr>ev_type = player_left, ev_player_state = None\<rparr>"

lemma first_event_of_event:
  "first_event (frame (event_type ev) (event_payload ev) @ rest) = (Fetched (server_event_of ev), rest)"
proof -
  have "server_packet (view_of (event_type ev) (event_payload ev)) = Inr (Some (server_event_of ev))"
    by (cases ev) (simp_all add: server_packet_def state_payload_def left_payload_def
        decode_player_state_layout decode_player_left_layout)
  moreover have "frame (event_type ev) (event_payload ev) \<noteq> []"
    by (simp add: wire_header_size_def flip: length_greater_0_conv)
  ultimately show ?thesis
    by (subst first_event.simps) (simp add: decode_one_event wire_header_size_def)
qed

lemma events_in_packets:
  "events_in (concat (map (\<lambda>ev. frame (event_type ev) (event_payload ev)) evs)) = (map server_event_of evs, Inr [])"
proof (induction evs)
  case Nil
  then show ?case by (subst events_in.simps) (simp add: first_event.simps)
next
  case (Cons ev evs)
  then show ?case by (subst events_in.simps) (simp add: first_event_of_event)
qed

section \<open>Properties\<close>

text \<open>
  C26: A bot sees the events of the room, whatever TCP does to the bytes: when the packets of
  any events are sent one after the other and arrive cut into chunks of at most the size of
  its read buffer, the bot takes exactly those events in that order out of its buffer, with
  their types and coordinates, without an error and with nothing left over.
\<close>
theorem bot_sees_room_events:
  assumes "\<forall>i<length evs. encode_room_event (evs ! i) = Inr (Some (packets ! i))"
    and "length packets = length evs" and "concat chunks = concat packets"
    and "\<forall>c\<in>set chunks. length c \<le> read_chunk_size"
  shows "\<exists>b. feed grow (ReceiveBuffer_new grow max_receive_buffer_size 4096) chunks
    = Some (map server_event_of evs, Inr b) \<and> readable_bytes b = []"
proof -
  have "packets = map (\<lambda>ev. frame (event_type ev) (event_payload ev)) evs"
    using assms(1,2) by (intro nth_equalityI) (simp_all add: encode_room_event_eq)
  then have "events_in (concat chunks) = (map server_event_of evs, Inr [])"
    by (simp add: assms(3) events_in_packets)
  then show ?thesis by (intro feed_refines [OF reader_new assms(4)]) simp
qed

theorem bot_sees_room_events_witness:
  "\<exists>packet b. encode_room_event (PlayerLeftEvent 7 left_room) = Inr (Some packet)
    \<and> feed (\<lambda>_ n. n) (ReceiveBuffer_new (\<lambda>_ n. n) max_receive_buffer_size 4096) [take 3 packet, drop 3 packet]
      = Some ([\<lparr>ev_type = player_left, ev_player_state = None\<rparr>], Inr b)"
proof -
  let ?ev = "PlayerLeftEvent 7 left_room"
  let ?packet = "frame (event_type ?ev) (event_payload ?ev)"
  have "length ?packet \<le> read_chunk_size"
    using event_packet_size [of ?ev] unfolding read_chunk_size_def by linarith
  then show ?thesis
    using bot_sees_room_events [of "[?ev]" "[?packet]" "[take 3 ?packet, drop 3 ?packet]" "\<lambda>_ n. n"]
    by (auto simp: encode_room_event_eq)
qed

end
