(* ===== verification/Server_Traffic.thy ===== *)
theory Server_Traffic
  imports Server Session_Output Load_Reader
begin

text \<open>
  The server and the bytes its clients receive. A run is labelled with the bytes every session
  has put on its socket; what a client is told is computed from the events of the room alone.
  The invariant connects the two through the registry, the posted deliveries, the outbound
  queue and the writer of every session.
\<close>

section \<open>What a player is told\<close>

text \<open>
  A player is told of every event from its own join up to, and without, its own leave: this is
  \<open>publish\<close> with nobody disconnected.
\<close>

fun member_next :: "SessionId \<Rightarrow> RoomEvent \<Rightarrow> bool \<Rightarrow> bool" where
  "member_next i (PlayerJoinedEvent s _) m \<longleftrightarrow> s = i \<or> m"
| "member_next i (PlayerMovedEvent _ _) m \<longleftrightarrow> m"
| "member_next i (PlayerLeftEvent s _) m \<longleftrightarrow> s \<noteq> i \<and> m"

fun told :: "SessionId \<Rightarrow> bool \<Rightarrow> RoomEvent list \<Rightarrow> RoomEvent list" where
  "told i m [] = []"
| "told i m (ev # evs) =
     (if member_next i ev m then [ev] else []) @ told i (member_next i ev m) evs"

definition is_member :: "SessionId \<Rightarrow> RoomEvent list \<Rightarrow> bool" where
  "is_member i evs = fold (member_next i) evs False"

lemma is_member_snoc [simp]: "is_member i (evs @ [ev]) = member_next i ev (is_member i evs)"
  by (simp add: is_member_def)

lemma told_snoc:
  "told i m (evs @ [ev]) = told i m evs @ (if member_next i ev (fold (member_next i) evs m) then [ev] else [])"
  by (induction evs arbitrary: m) simp_all

definition expected_packets :: "SessionId \<Rightarrow> RoomEvent list \<Rightarrow> SharedPacket list" where
  "expected_packets i evs = map event_packet (told i False evs)"

lemma expected_snoc:
  "expected_packets i (evs @ [ev]) =
    expected_packets i evs @ (if is_member i (evs @ [ev]) then [event_packet ev] else [])"
  by (simp add: expected_packets_def told_snoc is_member_def)

fun event_session :: "RoomEvent \<Rightarrow> SessionId" where
  "event_session (PlayerJoinedEvent s _) = s"
| "event_session (PlayerMovedEvent s _) = s"
| "event_session (PlayerLeftEvent s _) = s"

lemma not_told:
  assumes "\<forall>ev\<in>set evs. event_session ev \<noteq> i"
  shows "\<not> is_member i evs" "expected_packets i evs = []"
proof -
  have "\<not> fold (member_next i) evs False \<and> told i False evs = []"
    using assms
  proof (induction evs)
    case (Cons ev evs)
    then show ?case by (cases ev) auto
  qed simp
  then show "\<not> is_member i evs" "expected_packets i evs = []"
    by (simp_all add: is_member_def expected_packets_def)
qed

text \<open>The events of the commands the worker has processed, out of all that were submitted.\<close>

definition processed_commands :: "RoomCommand list \<Rightarrow> RoomWorker \<Rightarrow> RoomCommand list" where
  "processed_commands log w = take (length log - length (cq_values (rw_commands w))) log"

definition room_events :: "RoomCommand list \<Rightarrow> RoomWorker \<Rightarrow> RoomEvent list" where
  "room_events log w = fst (apply_commands Room_new (processed_commands log w))"

lemma apply_commands_sessions:
  assumes "apply_commands r cs = (evs, r')" "ev \<in> set evs"
  shows "event_session ev \<in> command_session ` set cs"
  using assms
proof (induction cs arbitrary: r evs)
  case (Cons c cs)
  obtain res r1 where app: "Room_apply r c = (res, r1)" by fastforce
  obtain evs1 where rest: "apply_commands r1 cs = (evs1, r')"
    and evs: "evs = (case res of Inl _ \<Rightarrow> evs1 | Inr e \<Rightarrow> e # evs1)"
    using Cons.prems(1) app by (auto split: sum.splits prod.splits)
  have "event_session e = command_session c" if "res = Inr e" for e
    using app that by (cases c)
      (auto simp: apply_join_def apply_move_def apply_leave_def Let_def split: if_splits prod.splits option.splits)
  with Cons.IH [OF rest] Cons.prems(2) evs show ?case by (auto split: sum.splits)
qed simp

section \<open>Runs with what is sent\<close>

text \<open>
  A run of a new server with the number of connections it has accepted, the commands submitted
  and, for every session, the bytes it has put on its socket.
\<close>

inductive net_run ::
  "growth \<Rightarrow> metrics_ptr \<Rightarrow> nat \<Rightarrow> RoomCommand list \<Rightarrow> Server \<Rightarrow> (SessionId \<Rightarrow> byte list) \<Rightarrow> bool"
  for grow metrics where
  net_start: "net_run grow metrics 0 [] (Server_new metrics) (\<lambda>_. [])"
| net_handler: "net_run grow metrics n log srv sent \<Longrightarrow> srv_sessions srv i = Some s \<Longrightarrow>
    run_handler grow h (enter_session srv s) = Some s' \<Longrightarrow> carries h s bytes \<Longrightarrow>
    net_run grow metrics n (log @ new_commands (enter_session srv s) s') (write_back i s' srv)
      (sent(i := sent i @ bytes))"
| net_background: "net_run grow metrics n log srv sent \<Longrightarrow> background_step grow srv k srv' \<Longrightarrow>
    net_run grow metrics (n + k) log srv' sent"

lemma net_run_is_server_run:
  "net_run grow metrics n log srv sent \<Longrightarrow> server_run grow (Server_new metrics) n log srv"
proof (induction rule: net_run.induct)
  case (net_handler n log srv sent i s h s' bytes)
  from server_more [OF net_handler.IH session_moves [OF net_handler.hyps(2) run_handler_is_handler [OF net_handler.hyps(3)]]]
  show ?case by simp
next
  case (net_background n log srv sent k srv')
  from server_more [OF net_background.IH in_background [OF net_background.hyps(2)]] show ?case by simp
qed (rule server_start)

section \<open>One connection\<close>

text \<open>
  \<open>delivered bytes so expected\<close>: the bytes sent are those of packets that are answers to pings
  or, in order, expected ones, cut off only where a write failed; while the session runs, the
  expected packets are those sent and those it holds.
\<close>

definition delivered :: "byte list \<Rightarrow> Session option \<Rightarrow> SharedPacket list \<Rightarrow> bool" where
  "delivered bytes so expected \<longleftrightarrow>
     (\<exists>ps. prefix bytes (wire ps) \<and> set ps \<subseteq> {p. is_pong p} \<union> set expected \<and>
        (case so of
           None \<Rightarrow> prefix (no_pongs ps) expected
         | Some s \<Rightarrow>
             (bytes = wire ps \<or> (se_stopped s \<and> in_flight (se_writer s) = [])) \<and>
             prefix (no_pongs (ps @ in_flight (se_writer s))) expected \<and>
             set (stream s) \<subseteq> {p. is_pong p} \<union> set expected \<and>
             (\<not> se_stopped s \<longrightarrow> no_pongs (ps @ stream s) = expected)))"

lemma in_flight_stream: "set (in_flight (se_writer s)) \<subseteq> set (stream s)"
  by (auto simp: stream_def pipeline_def)

lemma delivered_written:
  assumes "delivered bytes (Some s) expected" "flows s ws s'"
  shows "delivered (bytes @ wire ws) (Some s') expected"
proof -
  obtain ps where ps: "prefix bytes (wire ps)" "set ps \<subseteq> {p. is_pong p} \<union> set expected"
    "bytes = wire ps \<or> (se_stopped s \<and> in_flight (se_writer s) = [])"
    "prefix (no_pongs (ps @ in_flight (se_writer s))) expected"
    "set (stream s) \<subseteq> {p. is_pong p} \<union> set expected"
    "\<not> se_stopped s \<longrightarrow> no_pongs (ps @ stream s) = expected"
    using assms(1) by (auto simp: delivered_def)
  have flow: "se_stopped s \<Longrightarrow> se_stopped s' \<and> prefix (ws @ in_flight (se_writer s')) (in_flight (se_writer s))"
    "\<not> se_stopped s' \<Longrightarrow> no_pongs (ws @ stream s') = no_pongs (stream s)"
    "prefix (no_pongs (ws @ in_flight (se_writer s'))) (no_pongs (stream s))"
    "set ws \<union> set (stream s') \<subseteq> set (stream s) \<union> {p. is_pong p}"
    using assms(2) by (simp_all add: flows_def)
  have "prefix (no_pongs ((ps @ ws) @ in_flight (se_writer s'))) expected"
  proof (cases "se_stopped s")
    case True
    then have "prefix (ps @ ws @ in_flight (se_writer s')) (ps @ in_flight (se_writer s))" using flow(1) by simp
    from prefix_order.trans [OF filter_mono_prefix [OF this] ps(4)] show ?thesis by simp
  next
    case False
    with ps(6) have "expected = no_pongs ps @ no_pongs (stream s)" by simp
    with flow(3) show ?thesis by simp
  qed
  moreover have "bytes @ wire ws = wire (ps @ ws) \<or> (se_stopped s' \<and> in_flight (se_writer s') = [])"
    "prefix (bytes @ wire ws) (wire (ps @ ws))"
    using ps(1,3) flow(1) by auto
  moreover have "\<not> se_stopped s' \<longrightarrow> no_pongs ((ps @ ws) @ stream s') = expected"
    using ps(6) flow(1,2) by auto
  moreover have "set (ps @ ws) \<subseteq> {p. is_pong p} \<union> set expected" "set (stream s') \<subseteq> {p. is_pong p} \<union> set expected"
    using ps(2,5) flow(4) by auto
  ultimately show ?thesis unfolding delivered_def by (intro exI [of _ "ps @ ws"]) simp
qed

text \<open>A batch of which only a part was sent.\<close>

lemma delivered_broken:
  assumes "delivered bytes (Some s) expected" "flows s [] s'" "se_stopped s'" "in_flight (se_writer s') = []"
    and "prefix added (wire (in_flight (se_writer s)))"
  shows "delivered (bytes @ added) (Some s') expected"
proof -
  obtain ps where ps: "prefix bytes (wire ps)" "set ps \<subseteq> {p. is_pong p} \<union> set expected"
    "bytes = wire ps \<or> (se_stopped s \<and> in_flight (se_writer s) = [])"
    "prefix (no_pongs (ps @ in_flight (se_writer s))) expected"
    "set (stream s) \<subseteq> {p. is_pong p} \<union> set expected"
    using assms(1) by (auto simp: delivered_def)
  have "prefix (bytes @ added) (wire (ps @ in_flight (se_writer s)))"
    using ps(1,3) assms(5) by auto
  moreover have "set (ps @ in_flight (se_writer s)) \<subseteq> {p. is_pong p} \<union> set expected"
    using ps(2,5) in_flight_stream [of s] by auto
  moreover have "set (stream s') \<subseteq> {p. is_pong p} \<union> set expected"
    using ps(5) assms(2) by (auto simp: flows_def)
  ultimately show ?thesis
    unfolding delivered_def using ps(4) assms(3,4) by (intro exI [of _ "ps @ in_flight (se_writer s)"]) simp
qed

lemma delivered_handler:
  assumes "delivered bytes (Some s) expected" "session_inv s" "run_handler grow h s = Some s'" "carries h s added"
  shows "delivered (bytes @ added) (Some s') expected"
proof (cases "written h s = [] \<and> added \<noteq> []")
  case False
  then have "added = wire (written h s)"
    using assms(4) by (auto simp: carries_def written_def split: handler.splits bool.splits)
  with delivered_written [OF assms(1) run_handler_flows [OF assms(3,2)]] show ?thesis by simp
next
  case True
  have flow: "flows s [] s'" using run_handler_flows [OF assms(3,2)] True by simp
  have "prefix added (wire (in_flight (se_writer s))) \<and> se_stopped s' \<and> se_writer s' = No_writer"
    using True assms(3,4)
    by (auto simp: carries_def written_def run_handler_def write_completed_def writer_threw_def
        split: handler.splits bool.splits writer_state.splits if_splits)
  with delivered_broken [OF assms(1) flow] show ?thesis by simp
qed

section \<open>The invariant of the connections\<close>

text \<open>
  After \<open>n\<close> accepted connections and the events \<open>evs\<close>: every connection has got what it should; a
  session that runs is registered; a registered session exists and is in the registry's set
  of members exactly when the events say that its player is in the room.
\<close>

definition clients_ok ::
  "nat \<Rightarrow> RoomEvent list \<Rightarrow> SessionId SessionRegistry \<Rightarrow> (SessionId \<rightharpoonup> Session) \<Rightarrow> (SessionId \<Rightarrow> byte list) \<Rightarrow> bool" where
  "clients_ok n evs reg sessions sent \<longleftrightarrow>
     (\<forall>i. delivered (sent i) (sessions i) (expected_packets i evs)) \<and>
     (\<forall>i s. sessions i = Some s \<longrightarrow> (\<not> se_stopped s \<longrightarrow> connected reg i \<noteq> None)
        \<and> (se_reader s = Reader_returned \<longrightarrow> se_stopped s)) \<and>
     (\<forall>i j. connected reg i = Some j \<longrightarrow> j = i \<and> sessions i \<noteq> None \<and> (i \<in> set (reg_room_members reg) \<longleftrightarrow> is_member i evs)) \<and>
     (\<forall>i\<in>set (reg_room_members reg). unat i \<le> n) \<and>
     (\<forall>i. n < unat i \<longrightarrow> sent i = [])"

lemma clients_ok_delivered:
  "clients_ok n evs reg sessions sent \<Longrightarrow> sessions i = so \<Longrightarrow> delivered (sent i) so (expected_packets i evs)"
  by (auto simp: clients_ok_def)

lemma clients_ok_session:
  "clients_ok n evs reg sessions sent \<Longrightarrow> sessions i = Some s \<Longrightarrow>
    (\<not> se_stopped s \<longrightarrow> connected reg i \<noteq> None) \<and> (se_reader s = Reader_returned \<longrightarrow> se_stopped s)"
  by (simp add: clients_ok_def)

lemma clients_ok_connected:
  "clients_ok n evs reg sessions sent \<Longrightarrow> connected reg i = Some j \<Longrightarrow>
    j = i \<and> sessions i \<noteq> None \<and> (i \<in> set (reg_room_members reg) \<longleftrightarrow> is_member i evs)"
  by (simp add: clients_ok_def)

definition net_inv :: "nat \<Rightarrow> RoomCommand list \<Rightarrow> Server \<Rightarrow> (SessionId \<Rightarrow> byte list) \<Rightarrow> bool" where
  "net_inv n log srv sent \<longleftrightarrow> srv_inv n log srv \<and>
     clients_ok n (room_events log (srv_worker srv)) (srv_registry srv) (srv_sessions srv) sent"

lemma worker_inv_events:
  assumes "worker_inv w log"
  shows "log = processed_commands log w @ cq_values (rw_commands w)"
    "apply_commands Room_new (processed_commands log w) = (room_events log w, rw_room w)"
proof -
  obtain finished evs r where inv: "log = finished @ cq_values (rw_commands w)"
    "apply_commands Room_new finished = (evs, r)" "rw_room w = r"
    using assms by (auto simp: worker_inv_def)
  then have "processed_commands log w = finished" by (simp add: processed_commands_def)
  with inv show "log = processed_commands log w @ cq_values (rw_commands w)"
    "apply_commands Room_new (processed_commands log w) = (room_events log w, rw_room w)"
    by (simp_all add: room_events_def)
qed

lemma room_events_sessions:
  assumes "srv_inv n log srv" "ev \<in> set (room_events log (srv_worker srv))"
  shows "unat (event_session ev) \<le> n"
proof -
  have "worker_inv (srv_worker srv) log" using assms(1) by (simp add: srv_inv_def)
  note w = worker_inv_events [OF this]
  have "event_session ev \<in> command_session ` set (processed_commands log (srv_worker srv))"
    by (rule apply_commands_sessions [OF w(2) assms(2)])
  then have "event_session ev \<in> command_session ` set log"
    by (auto simp: processed_commands_def dest: in_set_takeD)
  with assms(1) show ?thesis by (auto simp: srv_inv_def)
qed

lemma enter_session_delivered:
  "delivered bytes (Some (enter_session srv s)) expected = delivered bytes (Some s) expected"
  "carries h (enter_session srv s) added = carries h s added"
  by (simp_all add: delivered_def stream_def pipeline_def enter_session_def carries_def
      split: handler.split bool.split)

lemma clients_ok_handler:
  assumes "clients_ok n evs reg sessions sent" "sessions i = Some s" "session_inv s" "unat i \<le> n"
    and "run_handler grow h (enter_session srv s) = Some s'" "carries h s bytes"
  shows "clients_ok n evs reg (sessions(i \<mapsto> s')) (sent(i := sent i @ bytes))"
proof -
  let ?s = "enter_session srv s"
  have ok: "delivered (sent i) (Some s) (expected_packets i evs)" "\<not> se_stopped s \<longrightarrow> connected reg i \<noteq> None"
    "se_reader s = Reader_returned \<longrightarrow> se_stopped s"
    using clients_ok_delivered [OF assms(1,2)] assms(1,2) by (auto simp: clients_ok_def)
  have "delivered (sent i @ bytes) (Some s') (expected_packets i evs)"
    by (rule delivered_handler [OF _ enter_session_inv [OF assms(3)] assms(5)])
      (simp_all add: enter_session_delivered ok(1) assms(6))
  moreover have "flows ?s (written h ?s) s'" by (rule run_handler_flows [OF assms(5) enter_session_inv [OF assms(3)]])
  then have "\<not> se_stopped s' \<longrightarrow> connected reg i \<noteq> None" "se_reader s' = Reader_returned \<longrightarrow> se_stopped s'"
    using ok(2,3) by (auto simp: flows_def enter_session_def)
  ultimately show ?thesis using assms(1,4) by (auto simp: clients_ok_def)
qed

lemma net_handler_inv:
  assumes "net_inv n log srv sent" "srv_sessions srv i = Some s"
    and "run_handler grow h (enter_session srv s) = Some s'" "carries h s bytes"
  shows "net_inv n (log @ new_commands (enter_session srv s) s') (write_back i s' srv) (sent(i := sent i @ bytes))"
proof -
  let ?cs = "new_commands (enter_session srv s) s'"
  have inv: "srv_inv n log srv" using assms(1) by (simp add: net_inv_def)
  have s: "session_inv s" "unat i \<le> n" "\<not> cq_closed (rw_commands (srv_worker srv))"
    using inv assms(2) by (auto simp: srv_inv_def env_ok_def)
  note handler = run_handler_is_handler [OF assms(3)]
  have "se_room_worker s' = (srv_worker srv)\<lparr>rw_commands := (rw_commands (srv_worker srv))
      \<lparr>cq_values := cq_values (rw_commands (srv_worker srv)) @ ?cs\<rparr>\<rparr>"
    using session_handler_follows [OF handler enter_session_inv [OF s(1)]] by (simp add: follows_def)
  then have "room_events (log @ ?cs) (se_room_worker s') = room_events log (srv_worker srv)"
    by (simp add: room_events_def processed_commands_def)
  moreover have "srv_inv n (log @ ?cs) (write_back i s' srv)" by (rule session_moves_inv [OF inv assms(2) handler])
  moreover have "clients_ok n (room_events log (srv_worker srv)) (srv_registry srv) (srv_sessions srv) sent"
    using assms(1) by (simp add: net_inv_def)
  note clients_ok_handler [OF this assms(2) s(1,2) assms(3,4)]
  ultimately show ?thesis by (simp add: net_inv_def write_back_def)
qed

section \<open>Steps in the background\<close>

lemma clients_ok_later: "clients_ok n evs reg sessions sent \<Longrightarrow> clients_ok (Suc n) evs reg sessions sent"
  by (auto simp: clients_ok_def)

lemma new_session_delivered: "delivered [] (Some (Session_new grow i w ms)) []"
  by (simp add: delivered_def Session_new_def stream_def pipeline_def OutboundQueue_new_def exI [of _ "[]"])

lemma clients_ok_new:
  assumes "clients_ok n evs reg sessions sent" "unat i = Suc n" "\<forall>ev\<in>set evs. event_session ev \<noteq> i"
    and "register_session reg metrics i i = (registered, reg', metrics')" "registered"
  shows "clients_ok (Suc n) evs reg' (sessions(i \<mapsto> Session_new grow i w ms)) sent"
proof -
  have reg': "connected reg' = (connected reg)(i \<mapsto> i)" "reg_room_members reg' = reg_room_members reg"
    using assms(4,5)
    by (auto simp: register_session_def hm_try_emplace_def split: prod.splits if_splits option.splits)
  have "sent i = []" "i \<notin> set (reg_room_members reg)" using assms(1,2) by (auto simp: clients_ok_def)
  then show ?thesis
    using clients_ok_later [OF assms(1)] not_told [OF assms(3)] new_session_delivered
    by (auto simp: clients_ok_def reg' Session_new_def)
qed

lemma clients_ok_unregistered:
  assumes "clients_ok n evs reg sessions sent" "sessions i = Some s" "se_reader s = Reader_returned"
    and "unregister_session reg metrics i = (reg', metrics')"
  shows "clients_ok n evs reg' sessions sent"
proof -
  have reg': "connected reg' = (connected reg)(i := None)" "reg_room_members reg' = filter (\<lambda>j. j \<noteq> i) (reg_room_members reg)"
    using assms(4) by (auto simp: unregister_session_def hm_erase_def map_of_filter_fst set_erase_def split: prod.splits)
  have "se_stopped s" using assms(1-3) by (auto simp: clients_ok_def)
  then show ?thesis using assms(1,2) by (auto simp: clients_ok_def reg')
qed

lemma clients_ok_destroyed:
  assumes "clients_ok n evs reg sessions sent" "sessions i = Some s" "connected reg i = None"
  shows "clients_ok n evs reg (sessions(i := None)) sent"
proof -
  from clients_ok_delivered [OF assms(1,2)] obtain ps where "prefix (sent i) (wire ps)" "set ps \<subseteq> {p. is_pong p} \<union> set (expected_packets i evs)"
    "prefix (no_pongs ps @ no_pongs (in_flight (se_writer s))) (expected_packets i evs)"
    by (auto simp: delivered_def)
  then have "delivered (sent i) None (expected_packets i evs)"
    by (auto simp: delivered_def dest: append_prefixD)
  then show ?thesis using assms(1,3) by (auto simp: clients_ok_def)
qed

text \<open>Deliveries only lengthen the streams of their sessions.\<close>

definition grows :: "Session \<Rightarrow> SharedPacket list \<Rightarrow> Session \<Rightarrow> bool" where
  "grows s ps s' \<longleftrightarrow> se_writer s' = se_writer s \<and> se_stopped s' = se_stopped s
     \<and> se_reader s' = se_reader s \<and> stream s' = stream s @ ps"

lemma deliver_grows: "grows s [p] (deliver p (enter_session srv s))"
  by (auto simp: grows_def deliver_def enter_session_def stream_def pipeline_def split: prod.split)

lemma fold_deliver_to:
  "srv_registry (fold deliver_to ds srv) = srv_registry srv"
  "srv_sessions srv j = None \<Longrightarrow> srv_sessions (fold deliver_to ds srv) j = None"
  "srv_sessions srv j = Some s \<Longrightarrow> \<exists>s'. srv_sessions (fold deliver_to ds srv) j = Some s'
    \<and> grows s (map snd (filter (\<lambda>d. fst d = j) ds)) s'"
proof (induction ds arbitrary: srv s)
  case Nil
  { case 1 then show ?case by simp }
  { case 2 then show ?case by simp }
  { case 3 then show ?case by (simp add: grows_def) }
next
  case (Cons d ds)
  have step: "srv_sessions (deliver_to d srv) j =
      (if fst d = j then map_option (\<lambda>s. deliver (snd d) (enter_session srv s)) (srv_sessions srv j) else srv_sessions srv j)"
    "srv_registry (deliver_to d srv) = srv_registry srv" for srv
    by (auto simp: deliver_to_def write_back_def split: option.split)
  { case 1 show ?case using Cons.IH(1) [of "deliver_to d srv"] step by simp }
  { case 2 then show ?case using Cons.IH(2) [of "deliver_to d srv"] step by simp }
  case 3
  then have "\<exists>s1. srv_sessions (deliver_to d srv) j = Some s1 \<and> grows s (if fst d = j then [snd d] else []) s1"
    using deliver_grows [of s "snd d" srv] by (cases "fst d = j") (simp_all add: step(1) grows_def)
  then obtain s1 where s1: "srv_sessions (deliver_to d srv) j = Some s1" "grows s (if fst d = j then [snd d] else []) s1"
    by blast
  from Cons.IH(3) [OF s1(1)] s1(2) show ?case by (auto simp: grows_def)
qed

lemma publish_event_session:
  assumes "srv_sessions srv i = Some s"
  shows "\<exists>s'. srv_sessions (snd (publish_event ev srv)) i = Some s' \<and> se_stopped s' = se_stopped s"
proof -
  obtain ds reg metrics where pub:
    "publish (\<lambda>i. srv_sessions srv i \<noteq> None) (srv_registry srv) (srv_metrics srv) ev = (ds, reg, metrics)"
    by (metis prod_cases3)
  have "snd (publish_event ev srv) = fold deliver_to ds (srv\<lparr>srv_registry := reg, srv_metrics := metrics\<rparr>)"
    unfolding publish_event_def pub by simp
  with fold_deliver_to(3) [of "srv\<lparr>srv_registry := reg, srv_metrics := metrics\<rparr>" i s ds] assms show ?thesis
    by (auto simp: grows_def)
qed

lemma delivered_grows:
  assumes "delivered bytes (Some s) expected" "grows s ps s'"
  shows "delivered bytes (Some s') (expected @ no_pongs ps)"
proof -
  from assms(1) obtain qs where qs: "prefix bytes (wire qs)" "set qs \<subseteq> {p. is_pong p} \<union> set expected"
    "bytes = wire qs \<or> (se_stopped s \<and> in_flight (se_writer s) = [])"
    "prefix (no_pongs (qs @ in_flight (se_writer s))) expected"
    "set (stream s) \<subseteq> {p. is_pong p} \<union> set expected"
    "\<not> se_stopped s \<longrightarrow> no_pongs (qs @ stream s) = expected"
    by (auto simp: delivered_def)
  then show ?thesis
    using assms(2) unfolding delivered_def grows_def by (intro exI [of _ qs]) (auto simp: prefix_append)
qed

lemma delivered_later:
  assumes "delivered bytes so expected" "\<forall>s. so = Some s \<longrightarrow> se_stopped s"
  shows "delivered bytes so (expected @ ps)"
proof (cases so)
  case None
  with assms(1) show ?thesis by (auto simp: delivered_def)
next
  case (Some s)
  with assms(2) have "se_stopped s" by simp
  with assms(1) Some show ?thesis by (auto simp: delivered_def)
qed

lemma recipients_once:
  assumes "map (Some \<circ> fst) ds = map m kept" "\<forall>j\<in>set kept. m j = Some j" "distinct kept"
    and "snd ` set ds \<subseteq> {p}"
  shows "map snd (filter (\<lambda>d. fst d = j) ds) = (if j \<in> set kept then [p] else [])"
proof -
  have "map (Some \<circ> fst) ds = map Some kept" using assms(1,2) by simp
  then have "map Some (map fst ds) = map Some kept" by simp
  then have kept: "map fst ds = kept" by (simp only: inj_map_eq_map [OF inj_Some])
  have "map fst (filter (\<lambda>d. fst d = j) ds) = filter (\<lambda>k. k = j) kept"
    unfolding kept [symmetric] by (simp add: filter_map comp_def)
  moreover have "filter (\<lambda>k. k = j) kept = (if j \<in> set kept then [j] else [])"
    using assms(3) by (induction kept) auto
  ultimately have "length (filter (\<lambda>d. fst d = j) ds) = (if j \<in> set kept then 1 else 0)"
    by (metis (no_types, lifting) One_nat_def length_map list.size(3,4) plus_nat.add_0)
  moreover have "\<forall>d\<in>set (filter (\<lambda>d. fst d = j) ds). snd d = p" using assms(4) by auto
  ultimately show ?thesis by (cases "filter (\<lambda>d. fst d = j) ds") (auto split: if_splits)
qed

text \<open>Everybody in the registry is alive, so publishing changes only the members.\<close>

lemma published_registry:
  assumes "clients_ok n evs reg sessions sent" "reg_inv reg"
    and "publish (\<lambda>i. sessions i \<noteq> None) reg metrics ev = (ds, reg', metrics')"
  shows "connected reg' = connected reg"
    "i \<in> set (reg_room_members reg') \<longleftrightarrow> connected reg i \<noteq> None \<and> member_next i ev (i \<in> set (reg_room_members reg))"
    "map snd (filter (\<lambda>d. fst d = i) ds) = (if i \<in> set (reg_room_members reg') then [event_packet ev] else [])"
proof -
  note facts = publish_facts [OF assms(3,2)]
  note con = clients_ok_connected [OF assms(1)]
  have live: "stays (\<lambda>i. sessions i \<noteq> None) (connected reg) = (\<lambda>i. connected reg i \<noteq> None)"
    using con by (auto simp: stays_def fun_eq_iff split: option.split)
  show "connected reg' = connected reg" using facts(5) [unfolded live] by (auto simp: fun_eq_iff)
  have "k \<in> set (update_members (reg_room_members reg) ev) \<longleftrightarrow> member_next k ev (k \<in> set (reg_room_members reg))" for k
    by (cases ev) (auto simp: update_members_set)
  then show kept: "i \<in> set (reg_room_members reg') \<longleftrightarrow> connected reg i \<noteq> None \<and> member_next i ev (i \<in> set (reg_room_members reg))" for i
    using facts(2) [unfolded live] by auto
  have "distinct (reg_room_members reg')" using facts(1) by (simp add: reg_inv_def)
  moreover have "\<forall>j\<in>set (reg_room_members reg'). connected reg j = Some j" using con kept by fastforce
  ultimately show "map snd (filter (\<lambda>d. fst d = i) ds) = (if i \<in> set (reg_room_members reg') then [event_packet ev] else [])"
    using recipients_once [OF facts(3) _ _ facts(4)] by blast
qed

lemma published_delivered:
  assumes "clients_ok n evs reg sessions sent"
    and "sessions i = None \<Longrightarrow> so = None"
    and "\<And>s. sessions i = Some s \<Longrightarrow> \<exists>s'. so = Some s' \<and> grows s (if member then [event_packet ev] else []) s'"
    and "member \<longleftrightarrow> connected reg i \<noteq> None \<and> is_member i (evs @ [ev])"
  shows "delivered (sent i) so (expected_packets i (evs @ [ev]))"
proof (cases "sessions i")
  case None
  with clients_ok_delivered [OF assms(1) None] assms(2) show ?thesis
    unfolding expected_snoc by (intro delivered_later) simp_all
next
  case (Some s)
  obtain s' where s': "so = Some s'" "grows s (if member then [event_packet ev] else []) s'"
    using assms(3) [OF Some] by blast
  note grown = delivered_grows [OF clients_ok_delivered [OF assms(1) Some] s'(2)]
  show ?thesis
  proof (cases "connected reg i = None")
    case True
    then have "se_stopped s'" using clients_ok_session [OF assms(1) Some] s'(2) by (simp add: grows_def)
    moreover have "\<not> member" using True assms(4) by simp
    ultimately show ?thesis using grown s'(1) unfolding expected_snoc by (intro delivered_later) simp_all
  next
    case False
    with grown s'(1) assms(4) show ?thesis by (simp add: expected_snoc event_is_no_pong split: if_splits)
  qed
qed

lemma clients_ok_publish:
  assumes "clients_ok n evs (srv_registry srv) (srv_sessions srv) sent" "reg_inv (srv_registry srv)"
    and "unat (event_session ev) \<le> n"
  defines "srv' \<equiv> snd (publish_event ev srv)"
  shows "clients_ok n (evs @ [ev]) (srv_registry srv') (srv_sessions srv') sent"
proof -
  let ?reg = "srv_registry srv"
  obtain ds reg metrics where pub:
    "publish (\<lambda>i. srv_sessions srv i \<noteq> None) ?reg (srv_metrics srv) ev = (ds, reg, metrics)"
    by (metis prod_cases3)
  note published = published_registry [OF assms(1,2) pub]
  note con = clients_ok_connected [OF assms(1)]
  have srv': "srv' = fold deliver_to ds (srv\<lparr>srv_registry := reg, srv_metrics := metrics\<rparr>)"
    unfolding srv'_def publish_event_def pub by simp
  note after = fold_deliver_to [where srv = "srv\<lparr>srv_registry := reg, srv_metrics := metrics\<rparr>" and ds = ds,
      unfolded srv' [symmetric] published(3), simplified]
  have "i \<in> set (reg_room_members reg) \<longleftrightarrow> connected ?reg i \<noteq> None \<and> is_member i (evs @ [ev])" for i
    using published(2) con by (cases "connected ?reg i") auto
  note member = this
  have "delivered (sent i) (srv_sessions srv' i) (expected_packets i (evs @ [ev]))" for i
    by (rule published_delivered [OF assms(1) after(2) _ member]) (use after(3) in blast)+
  moreover have "(\<not> se_stopped s' \<longrightarrow> connected reg i \<noteq> None) \<and> (se_reader s' = Reader_returned \<longrightarrow> se_stopped s')"
    if s': "srv_sessions srv' i = Some s'" for i s'
  proof -
    obtain s where s: "srv_sessions srv i = Some s" using s' after(2) [of i] by (cases "srv_sessions srv i") auto
    from after(3) [OF s] s' have "se_stopped s' = se_stopped s" "se_reader s' = se_reader s" by (auto simp: grows_def)
    then show ?thesis using clients_ok_session [OF assms(1) s] published(1) by simp
  qed
  moreover have "j = i \<and> srv_sessions srv' i \<noteq> None \<and> (i \<in> set (reg_room_members reg) \<longleftrightarrow> is_member i (evs @ [ev]))"
    if "connected reg i = Some j" for i j
    using that published(1) con [of i j] after(3) [of i] member by auto
  moreover have "\<forall>i\<in>set (reg_room_members reg). unat i \<le> n"
    using assms(1,3) published(2) by (cases ev) (auto simp: clients_ok_def)
  ultimately show ?thesis using assms(1) after(1) by (simp add: clients_ok_def)
qed

section \<open>The invariant of a run\<close>

lemma processed_next:
  assumes "worker_inv w log" "cq_values (rw_commands w) = c # cs" "cq_values (rw_commands w') = cs"
    and "Room_apply (rw_room w) c = (res, r)"
  shows "room_events log w' = room_events log w @ (case res of Inl _ \<Rightarrow> [] | Inr ev \<Rightarrow> [ev])"
proof -
  note before = worker_inv_events [OF assms(1)]
  have "processed_commands log w' = processed_commands log w @ [c]"
    using before(1) assms(2,3) by (metis (no_types, lifting) append.assoc append_Cons append_Nil append_eq_conv_conj
        diff_add_inverse2 length_append processed_commands_def)
  then have "room_events log w' = fst (apply_commands Room_new (processed_commands log w @ [c]))"
    by (simp add: room_events_def)
  then show ?thesis unfolding apply_commands_append before(2) using assms(4) by (simp split: sum.split)
qed

lemma publish_event_returns: "fst (publish_event ev srv)"
  by (simp add: publish_event_def split: prod.split)

lemma publishing_round:
  assumes "worker_process (Some publish_event) touch_metrics c (w, srv) = (w', srv')" "Room_apply (rw_room w) c = (res, r)"
  shows "\<exists>m. srv' = (case res of Inl _ \<Rightarrow> srv\<lparr>srv_metrics := m\<rparr> | Inr ev \<Rightarrow> snd (publish_event ev (srv\<lparr>srv_metrics := m\<rparr>)))"
  using assms
  by (cases res) (auto simp: worker_process_def touch_metrics_def Let_def case_prod_beta publish_event_returns)

lemma net_worker_inv:
  assumes "net_inv n log srv sent"
    and "worker_iteration (Some publish_event) touch_metrics (srv_worker srv, srv) = Some (w, srv')"
  shows "net_inv n log (srv'\<lparr>srv_worker := w\<rparr>) sent"
proof -
  have inv: "srv_inv n log srv" "worker_inv (srv_worker srv) log" "reg_inv (srv_registry srv)"
    and ok: "clients_ok n (room_events log (srv_worker srv)) (srv_registry srv) (srv_sessions srv) sent"
    using assms(1) by (simp_all add: net_inv_def srv_inv_def env_ok_def)
  let ?w = "\<lambda>cs. (srv_worker srv)\<lparr>rw_commands := (rw_commands (srv_worker srv))\<lparr>cq_values := cs\<rparr>\<rparr>"
  obtain c cs where q: "cq_values (rw_commands (srv_worker srv)) = c # cs"
    and proc: "worker_process (Some publish_event) touch_metrics c (?w cs, srv) = (w, srv')"
    using worker_iteration_SomeD [OF assms(2)] by auto
  obtain res r where app: "Room_apply (rw_room (srv_worker srv)) c = (res, r)" by fastforce
  have "cq_values (rw_commands w) = cs"
    using worker_process_frame(1) [of "Some publish_event" touch_metrics c "?w cs" srv] proc by simp
  note evs = processed_next [OF inv(2) q this app]
  note inv' = worker_moves_inv [OF inv(1) assms(2)]
  obtain m where srv': "srv' = (case res of Inl _ \<Rightarrow> srv\<lparr>srv_metrics := m\<rparr>
      | Inr ev \<Rightarrow> snd (publish_event ev (srv\<lparr>srv_metrics := m\<rparr>)))"
    using publishing_round [OF proc] app by auto
  have "clients_ok n (room_events log w) (srv_registry srv') (srv_sessions srv') sent"
  proof (cases res)
    case (Inl e)
    with ok srv' evs show ?thesis by simp
  next
    case (Inr ev)
    have "unat (event_session ev) \<le> n"
      using room_events_sessions [OF inv', of ev] evs Inr by simp
    with clients_ok_publish [of n _ "srv\<lparr>srv_metrics := m\<rparr>" sent ev] ok inv(3) show ?thesis
      by (simp add: srv' Inr evs)
  qed
  with inv' show ?thesis by (simp add: net_inv_def)
qed

lemma net_accept_inv:
  assumes "net_inv n log srv sent" "Suc n < 2 ^ 64"
  shows "net_inv (Suc n) log (accept_completed grow Accepted srv) sent"
proof -
  let ?i = "srv_next_session_id srv" and ?evs = "room_events log (srv_worker srv)"
  have inv: "srv_inv n log srv" and ok: "clients_ok n ?evs (srv_registry srv) (srv_sessions srv) sent"
    using assms(1) by (simp_all add: net_inv_def)
  have i: "unat ?i = Suc n" using inv unat_next_id [OF assms(2)] by (simp add: srv_inv_def env_ok_def)
  have fresh: "\<forall>ev\<in>set ?evs. event_session ev \<noteq> ?i"
    using room_events_sessions [OF inv] i by fastforce
  let ?srv = "srv\<lparr>srv_next_session_id := ?i + 1\<rparr>"
  let ?reg = "(srv_registry srv)\<lparr>reg_sessions := (?i, ?i) # reg_sessions (srv_registry srv)\<rparr>"
  have "connected (srv_registry srv) ?i = None"
    using inv i unfolding srv_inv_def env_ok_def by (metis Suc_n_not_le_n)
  then have reg: "register_session (srv_registry srv) ms ?i ?i = (True, ?reg, map_option session_registered ms)" for ms
    by (simp add: register_session_def hm_try_emplace_def)
  note new = clients_ok_new [OF ok i fresh reg TrueI]
  have "clients_ok (Suc n) ?evs (srv_registry (run_session grow ?i ?srv)) (srv_sessions (run_session grow ?i ?srv)) sent
      \<and> srv_worker (run_session grow ?i ?srv) = srv_worker srv"
  proof (cases "session_metrics ?i (srv_metrics srv)")
    case (Inl e)
    with clients_ok_later [OF ok] show ?thesis by (simp add: run_session_def)
  next
    case (Inr ms)
    with new show ?thesis by (cases ms) (simp add: run_session_def reg)
  qed
  with accept_inv [OF inv assms(2), of grow] show ?thesis by (simp add: net_inv_def accept_completed_def)
qed

lemma net_background_inv:
  assumes "background_step grow srv k srv'" "net_inv n log srv sent" "n + k < 2 ^ 64"
  shows "net_inv (n + k) log srv' sent"
  using assms
proof (induction rule: background_step.induct)
  case (server_accepts srv)
  then show ?case using net_accept_inv [of n log srv sent grow] by simp
next
  case (server_ends srv result)
  then have "srv_inv (n + 0) log (accept_completed grow result srv)"
    by (intro background_step_inv [OF background_step.server_ends]) (auto simp: net_inv_def)
  with server_ends show ?case by (cases result) (simp_all add: accept_completed_def net_inv_def)
next
  case (session_unregisters srv i s)
  then have "srv_inv (n + 0) log (run_session_end i srv)"
    by (intro background_step_inv [OF background_step.session_unregisters]) (auto simp: net_inv_def)
  with session_unregisters show ?case
    by (auto simp: net_inv_def run_session_end_def split: prod.split intro: clients_ok_unregistered)
next
  case (session_destroyed srv i s)
  then have "srv_inv (n + 0) log ((end_session s srv)\<lparr>srv_sessions := (srv_sessions srv)(i := None)\<rparr>)"
    by (intro background_step_inv [OF background_step.session_destroyed]) (auto simp: net_inv_def)
  with session_destroyed show ?case
    by (simp add: net_inv_def end_session_def hm_find_def clients_ok_destroyed)
next
  case (worker_moves srv w srv')
  then show ?case using net_worker_inv by simp
qed

lemma net_start_inv: "net_inv 0 [] (Server_new metrics) (\<lambda>_. [])"
proof -
  have "delivered [] None (expected_packets i [])" for i
    by (auto simp: delivered_def expected_packets_def intro: exI [of _ "[]"])
  then have "clients_ok 0 [] SessionRegistry_new Map.empty (\<lambda>_. [])"
    by (simp add: clients_ok_def SessionRegistry_new_def)
  moreover have "room_events [] w = []" for w by (simp add: room_events_def processed_commands_def)
  ultimately show ?thesis
    using Server_new_inv [of metrics] by (simp add: net_inv_def Server_new_def touch_metrics_def RoomWorker_new_def)
qed

lemma net_run_inv: "net_run grow metrics n log srv sent \<Longrightarrow> n < 2 ^ 64 \<Longrightarrow> net_inv n log srv sent"
proof (induction rule: net_run.induct)
  case (net_background n log srv sent k srv')
  then have "net_inv n log srv sent" by simp
  from net_background_inv [OF net_background.hyps(2) this net_background.prems] show ?case .
qed (simp_all add: net_start_inv net_handler_inv)

end
