(* ===== verification/Client_View.thy ===== *)
theory Client_View
  imports Server_Traffic
begin

text \<open>
  What the clients of a running server see: the invariant of the connections, read by the bot of
  the load client. Whatever part of its bytes a client has read, it has seen some first part of
  what it is told; and every client whose session runs can catch up with the room.
\<close>

section \<open>Packets of the server\<close>

text \<open>
  The types of the protocol: a packet from the server is one whole packet, an answer to a ping
  or an event whose payload has the form of its type.
\<close>

definition conforms :: "SharedPacket \<Rightarrow> bool" where
  "conforms p =
     (case p of
        None \<Rightarrow> False
      | Some bytes \<Rightarrow>
          (case decode_one bytes of
             Inl _ \<Rightarrow> False
           | Inr decoded \<Rightarrow>
               consumed_bytes decoded = length bytes \<and>
               (case packet_type (header decoded) of
                  ping \<Rightarrow> True
                | player_joined \<Rightarrow> is_ok (decode_player_state_payload (payload decoded))
                | player_moved \<Rightarrow> is_ok (decode_player_state_payload (payload decoded))
                | player_left \<Rightarrow> is_ok (decode_player_left_payload (payload decoded))
                | _ \<Rightarrow> False)))"

lemma pong_conforms: "is_pong p \<Longrightarrow> conforms p"
  by (auto simp: is_pong_def conforms_def split: option.splits sum.splits)

lemma event_conforms: "conforms (event_packet ev)"
  using decode_one_event [of ev "[]"]
  by (cases ev) (simp_all add: conforms_def wire_header_size_def state_payload_def left_payload_def decode_player_state_layout decode_player_left_layout)

lemma conforms_nonempty: "conforms p \<Longrightarrow> p \<noteq> None \<and> p \<noteq> Some []"
  by (auto simp: conforms_def decode_one_short split: option.splits)

section \<open>The events in the bytes of packets\<close>

lemma events_in_pong:
  assumes "is_pong (Some bytes)"
  shows "events_in (bytes @ rest) = events_in rest"
proof -
  obtain v where v: "decode_one bytes = Inr v" "packet_type (header v) = ping" "consumed_bytes v = length bytes"
    using assms by (auto simp: is_pong_def split: sum.splits)
  have "bytes \<noteq> []" using v(1) by (auto simp: decode_one_short)
  moreover have "decode_one (bytes @ rest) = Inr v" using decode_one_append [of bytes rest] v(1) by simp
  ultimately have "first_event (bytes @ rest) = first_event rest"
    using v(2,3) by (subst first_event.simps) (simp add: server_packet_def)
  then show ?thesis by (simp add: events_in.simps [of "bytes @ rest"] events_in.simps [of rest])
qed

lemma events_in_wire:
  "no_pongs ps = map event_packet evs \<Longrightarrow> events_in (wire ps) = (map server_event_of evs, Inr [])"
proof (induction ps arbitrary: evs)
  case Nil
  then show ?case by (subst events_in.simps) (simp add: first_event.simps)
next
  case (Cons p ps)
  show ?case
  proof (cases "is_pong p")
    case True
    then obtain bytes where "p = Some bytes" by (cases p) (simp_all add: is_pong_def)
    with True Cons show ?thesis by (simp add: events_in_pong)
  next
    case False
    then obtain ev evs' where "evs = ev # evs'" "p = event_packet ev" using Cons.prems by auto
    with Cons False show ?thesis by (subst events_in.simps) (simp add: first_event_of_event)
  qed
qed

lemma events_in_prefix:
  assumes "prefix xs ys" "events_in ys = (events, Inr rest)"
  shows "\<exists>seen rest'. events_in xs = (seen, Inr rest') \<and> prefix seen events"
proof -
  obtain zs where "ys = xs @ zs" using assms(1) by (auto simp: prefix_def)
  then show ?thesis using assms(2) events_in_append [of xs zs] by (auto split: prod.splits sum.splits)
qed

text \<open>What a delivered connection has shown, and shows at the end.\<close>

lemma delivered_events:
  assumes "delivered bytes so (map event_packet evs)"
  shows "\<exists>seen rest. events_in bytes = (seen, Inr rest) \<and> prefix seen (map server_event_of evs)"
    "so = Some s \<Longrightarrow> \<not> se_stopped s \<Longrightarrow> stream s = [] \<Longrightarrow> events_in bytes = (map server_event_of evs, Inr [])"
proof -
  have "\<exists>ps. prefix bytes (wire ps) \<and> prefix (no_pongs ps) (map event_packet evs) \<and>
      (\<forall>s. so = Some s \<longrightarrow> \<not> se_stopped s \<longrightarrow> bytes = wire ps \<and> no_pongs (ps @ stream s) = map event_packet evs)"
  proof (cases so)
    case (Some s)
    with assms obtain ps where "prefix bytes (wire ps)" "bytes = wire ps \<or> se_stopped s"
      "prefix (no_pongs ps @ no_pongs (in_flight (se_writer s))) (map event_packet evs)"
      "\<not> se_stopped s \<longrightarrow> no_pongs (ps @ stream s) = map event_packet evs"
      by (auto simp: delivered_def)
    with Some show ?thesis by (intro exI [of _ ps]) (auto dest: append_prefixD)
  qed (use assms in \<open>auto simp: delivered_def\<close>)
  then obtain ps where ps: "prefix bytes (wire ps)" "prefix (no_pongs ps) (map event_packet evs)"
    "so = Some s \<Longrightarrow> \<not> se_stopped s \<Longrightarrow> bytes = wire ps \<and> no_pongs (ps @ stream s) = map event_packet evs" for s
    by blast
  obtain k where "no_pongs ps = take k (map event_packet evs)" using ps(2) by (metis prefixE append_eq_conv_conj)
  then have "events_in (wire ps) = (map server_event_of (take k evs), Inr [])"
    by (intro events_in_wire) (simp add: take_map)
  from events_in_prefix [OF ps(1) this] show "\<exists>seen rest. events_in bytes = (seen, Inr rest) \<and> prefix seen (map server_event_of evs)"
    by (metis prefix_order.trans take_is_prefix take_map)
  show "events_in bytes = (map server_event_of evs, Inr [])" if "so = Some s" "\<not> se_stopped s" "stream s = []"
    using ps(3) [OF that(1,2)] that(3) events_in_wire [of ps evs] by simp
qed

section \<open>A session that is left alone finishes its work\<close>

text \<open>
  The handlers that send: the writer's and those of posted deliveries, with every write
  succeeding.
\<close>

fun sends_on :: "handler \<Rightarrow> bool" where
  "sends_on Writer_starts = True"
| "sends_on (On_write _ write_error) = (\<not> write_error)"
| "sends_on (Posted_runs _) = True"
| "sends_on _ = False"

lemma sends_on_carries: "sends_on h \<Longrightarrow> carries h s (wire (written h s))"
  by (cases h rule: sends_on.cases) (auto simp: carries_def written_def split: bool.split)

text \<open>
  A run of \<open>k\<close> such handlers of session \<open>i\<close>, from a state of the server and the bytes sent up to
  it; nobody else takes part.
\<close>

inductive own_run :: "growth \<Rightarrow> SessionId \<Rightarrow> Server \<Rightarrow> (SessionId \<Rightarrow> byte list) \<Rightarrow> nat \<Rightarrow> Server
    \<Rightarrow> (SessionId \<Rightarrow> byte list) \<Rightarrow> bool" for grow i srv sent where
  own_start: "own_run grow i srv sent 0 srv sent"
| own_more: "own_run grow i srv sent k srv1 sent1 \<Longrightarrow> srv_sessions srv1 i = Some s \<Longrightarrow> sends_on h \<Longrightarrow>
    run_handler grow h (enter_session srv1 s) = Some s' \<Longrightarrow>
    own_run grow i srv sent (Suc k) (write_back i s' srv1) (sent1(i := sent1 i @ wire (written h s)))"

lemma own_run_first:
  assumes "srv_sessions srv i = Some s" "sends_on h" "run_handler grow h (enter_session srv s) = Some s'"
    and "own_run grow i (write_back i s' srv) (sent(i := sent i @ wire (written h s))) k srv' sent'"
  shows "own_run grow i srv sent (Suc k) srv' sent'"
  using assms(4)
proof (induction rule: own_run.induct)
  case own_start
  show ?case by (rule own_more [OF own_run.own_start assms(1-3)])
next
  case (own_more k srv1 sent1 s1 h1 s2)
  show ?case by (rule own_run.own_more [OF own_more.IH own_more.hyps(2-4)])
qed

definition backlog :: "Session \<Rightarrow> nat" where
  "backlog s = 4 * length (se_posted s) + 2 * length (oq_packets (se_outbound_queue s))
     + (if se_writer s = No_writer then 0 else 1)"

lemma writer_resume_backlog:
  assumes "oq_inv (se_outbound_queue s)" "se_writer s \<noteq> No_writer"
  shows "backlog (writer_resume s) < backlog s"
proof (cases "se_stopped s")
  case True
  with assms(2) show ?thesis by (simp add: backlog_def writer_resume_def)
next
  case running: False
  obtain n batch q where pop: "pop_batch (se_outbound_queue s) (replicate max_outbound_batch_packets None)
      max_outbound_batch_bytes = (n, batch, q)"
    by (metis prod_cases3)
  note facts = pop_batch_facts [OF assms(1) pop] and after = writer_resume_running [OF running pop]
  have len: "length (oq_packets (se_outbound_queue s)) = length (take n batch) + length (oq_packets q)"
    by (subst facts(2)) simp
  show ?thesis
  proof (cases "n = 0")
    case True
    with len after(1,3) assms(2) show ?thesis by (simp add: backlog_def)
  next
    case False
    then have "0 < length (take n batch)" using facts(3,4) by simp
    with len after(1) assms(2) show ?thesis by (auto simp: backlog_def)
  qed
qed

lemma enqueue_backlog:
  assumes "out_inv s"
  shows "backlog (snd (enqueue_outbound at_once p s)) \<le> backlog s + 3"
proof (cases "se_stopped s")
  case True
  then show ?thesis by (simp add: enqueue_outbound_def)
next
  case running: False
  show ?thesis
  proof (cases "OutboundQueue_push (se_outbound_queue s) p")
    case (Inl e)
    with running show ?thesis
      by (simp add: enqueue_outbound_def Let_def backlog_def OutboundQueue_close_def)
  next
    case (Inr q)
    let ?s = "update_queue_metrics (s\<lparr>se_outbound_queue := q\<rparr>)"
    let ?w = "?s\<lparr>se_write_in_progress := True, se_writer := Writer_spawned\<rparr>"
    have inv: "oq_inv q" and len: "length (oq_packets q) = Suc (length (oq_packets (se_outbound_queue s)))"
      using Inr assms push_InrD [of "se_outbound_queue s" p q] by (auto simp: out_inv_def)
    have "backlog (writer_resume ?w) < backlog ?w" by (rule writer_resume_backlog) (simp_all add: inv)
    with Inr running len show ?thesis by (auto simp: enqueue_outbound_def Let_def backlog_def)
  qed
qed

lemma sends_on_backlog:
  assumes "out_inv s" "sends_on h" "run_handler grow h s = Some s'"
  shows "backlog s' < backlog s"
proof (cases h rule: sends_on.cases)
  case 1
  with assms writer_resume_backlog [of s] show ?thesis by (auto simp: run_handler_def out_inv_def split: if_splits)
next
  case (2 n e)
  then obtain packets batch where w: "se_writer s = Writing packets batch" "s' = write_completed n e s" "\<not> e"
    using assms(2,3) by (auto simp: run_handler_def split: writer_state.splits)
  let ?s = "s\<lparr>se_metrics := map_option (\<lambda>ms. snd (WriteBatch_complete n e batch ms)) (se_metrics s)\<rparr>"
  have "backlog (writer_resume ?s) < backlog ?s"
    by (rule writer_resume_backlog) (use assms(1) w(1) in \<open>simp_all add: out_inv_def\<close>)
  with w show ?thesis by (simp add: write_completed_def backlog_def)
next
  case (3 at_once)
  then obtain p d posted where posted: "se_posted s = (p, d) # posted" "s' = run_posted at_once s"
    using assms(3) by (cases "se_posted s") (auto simp: run_handler_def split: if_splits)
  let ?s = "s\<lparr>se_posted := posted, se_metrics := map_option (\<lambda>ms. snd (PendingDelivery_begin d ms)) (se_metrics s)\<rparr>"
  have "out_inv ?s" using assms(1) posted(1) by (auto simp: out_inv_def)
  from enqueue_backlog [OF this, of at_once p] posted show ?thesis by (simp add: run_posted_def backlog_def)
qed (use assms(2) in simp_all)

text \<open>Without such a handler to run nothing is left to send.\<close>

lemma nothing_to_send:
  assumes "out_inv s" "\<not> se_stopped s" "\<forall>h. sends_on h \<longrightarrow> run_handler grow h s = None"
  shows "stream s = []"
proof -
  have "se_writer s = No_writer"
    using assms(3) [THEN spec, of Writer_starts] assms(3) [THEN spec, of "On_write 0 False"]
    by (cases "se_writer s") (simp_all add: run_handler_def)
  moreover have "se_posted s = []"
    using assms(3) [THEN spec, of "Posted_runs False"] by (simp add: run_handler_def split: if_splits)
  ultimately show ?thesis using assms(1,2) by (auto simp: stream_def pipeline_def out_inv_def)
qed

text \<open>They leave the worker alone unless they stop the session.\<close>

lemma sends_on_worker:
  assumes "sends_on h" "run_handler grow h s = Some s'" "\<not> se_stopped s'"
  shows "se_room_worker s' = se_room_worker s"
  using assms
  by (cases h rule: sends_on.cases)
    (auto simp: run_handler_def write_completed_def run_posted_def enqueue_outbound_def Let_def
      split: if_splits writer_state.splits list.splits sum.splits)

lemma posted_runs_on:
  assumes "session_inv s" "\<not> se_stopped s" "se_writer s = No_writer" "se_posted s = (p, d) # posted" "conforms p"
  shows "\<not> se_stopped (run_posted False s)"
proof -
  let ?ms = "map_option (\<lambda>ms. snd (PendingDelivery_begin d ms)) (se_metrics s)"
  let ?s = "s\<lparr>se_posted := posted, se_metrics := ?ms\<rparr>"
  have out: "out_inv s" using assms(1) by (simp add: session_inv_def)
  have q: "oq_packets (se_outbound_queue s) = []" "oq_inv (se_outbound_queue s)" "\<not> oq_closed (se_outbound_queue s)"
    "oq_max_pending_bytes (se_outbound_queue s) = 262144" "SharedPacket_size p \<le> 65542" "\<not> se_write_in_progress s"
    using out assms(2-4) by (auto simp: out_inv_def max_session_outbound_bytes_def wire_header_size_def)
  have "oq_pending_bytes (se_outbound_queue s) = 0" using q(1,2) by (simp add: oq_inv_def)
  with q conforms_nonempty [OF assms(5)]
  have "OutboundQueue_push (se_outbound_queue s) p = Inr ((se_outbound_queue s)
      \<lparr>oq_packets := [p], oq_pending_bytes := size_add 0 (SharedPacket_size p)\<rparr>)"
    by (simp add: OutboundQueue_push_def)
  with q assms(2-4) show ?thesis
    by (simp add: run_posted_def enqueue_outbound_def Let_def)
qed

lemma drain_step:
  assumes "session_inv s" "\<not> se_stopped s" "stream s \<noteq> [] \<or> se_writer s \<noteq> No_writer" "\<forall>p\<in>set (stream s). conforms p"
  shows "\<exists>h s'. sends_on h \<and> run_handler grow h s = Some s' \<and> \<not> se_stopped s'"
proof (cases "se_writer s")
  case No_writer
  have out: "out_inv s" using assms(1) by (simp add: session_inv_def)
  then have "oq_packets (se_outbound_queue s) = []" using No_writer by (auto simp: out_inv_def)
  with assms(3) No_writer obtain p d posted where posted: "se_posted s = (p, d) # posted"
    by (cases "se_posted s") (auto simp: stream_def pipeline_def)
  then have "conforms p" using assms(4) by (simp add: stream_def)
  from posted_runs_on [OF assms(1,2) No_writer posted this] posted show ?thesis
    by (intro exI [of _ "Posted_runs False"] exI) (auto simp: run_handler_def)
next
  case Writer_spawned
  with assms(2) show ?thesis by (intro exI [of _ Writer_starts] exI) (auto simp: run_handler_def)
next
  case (Writing packets batch)
  with assms(2) show ?thesis
    by (intro exI [of _ "On_write 0 False"] exI) (auto simp: run_handler_def write_completed_def)
qed

section \<open>Every connection\<close>

lemma stream_conforms:
  assumes "net_inv n log srv sent" "srv_sessions srv i = Some s"
  shows "\<forall>p\<in>set (stream s). conforms p"
proof -
  have "clients_ok n (room_events log (srv_worker srv)) (srv_registry srv) (srv_sessions srv) sent"
    using assms(1) by (simp add: net_inv_def)
  from clients_ok_delivered [OF this assms(2)]
  have "set (stream s) \<subseteq> {p. is_pong p} \<union> range event_packet"
    by (auto simp: delivered_def expected_packets_def)
  then show ?thesis using pong_conforms event_conforms by blast
qed

lemma seen_events:
  assumes "net_inv n log srv sent"
  shows "\<exists>seen rest. events_in (sent i) = (seen, Inr rest)
      \<and> prefix seen (map server_event_of (told i False (room_events log (srv_worker srv))))"
    "srv_sessions srv i = Some s \<Longrightarrow> \<not> se_stopped s \<Longrightarrow> stream s = [] \<Longrightarrow>
      events_in (sent i) = (map server_event_of (told i False (room_events log (srv_worker srv))), Inr [])"
proof -
  have ok: "clients_ok n (room_events log (srv_worker srv)) (srv_registry srv) (srv_sessions srv) sent"
    using assms(1) by (simp add: net_inv_def)
  note events = delivered_events [OF clients_ok_delivered [OF ok refl, of i, unfolded expected_packets_def]]
  show "\<exists>seen rest. events_in (sent i) = (seen, Inr rest)
      \<and> prefix seen (map server_event_of (told i False (room_events log (srv_worker srv))))" by (rule events(1))
  show "srv_sessions srv i = Some s \<Longrightarrow> \<not> se_stopped s \<Longrightarrow> stream s = [] \<Longrightarrow>
      events_in (sent i) = (map server_event_of (told i False (room_events log (srv_worker srv))), Inr [])"
    by (rule events(2))
qed

text \<open>
  The sending handlers of one session: they are steps of the server, every one of them leaves
  less to do, and while they do not stop the session they submit nothing.
\<close>

lemma enter_session_same:
  "stream (enter_session srv s) = stream s" "backlog (enter_session srv s) = backlog s"
  "se_stopped (enter_session srv s) = se_stopped s" "written h (enter_session srv s) = written h s"
  "se_writer (enter_session srv s) = se_writer s" "se_room_worker (enter_session srv s) = srv_worker srv"
  by (simp_all add: enter_session_def stream_def pipeline_def backlog_def written_def split: handler.split bool.split)

lemma own_run_net:
  assumes "own_run grow i srv sent k srv' sent'" "net_run grow metrics n log srv sent" "n < 2 ^ 64" "srv_sessions srv i = Some s"
  shows "\<exists>log' s'. net_run grow metrics n log' srv' sent' \<and> srv_sessions srv' i = Some s' \<and> k + backlog s' \<le> backlog s
    \<and> (\<forall>j. j \<noteq> i \<longrightarrow> srv_sessions srv' j = srv_sessions srv j \<and> sent' j = sent j)
    \<and> (\<not> se_stopped s' \<longrightarrow> log' = log \<and> srv_worker srv' = srv_worker srv)"
  using assms
proof (induction rule: own_run.induct)
  case own_start
  then show ?case by auto
next
  case (own_more k srv1 sent1 s1 h s')
  let ?s = "enter_session srv1 s1"
  obtain log1 where run: "net_run grow metrics n log1 srv1 sent1" and less: "k + backlog s1 \<le> backlog s"
    and others: "\<forall>j. j \<noteq> i \<longrightarrow> srv_sessions srv1 j = srv_sessions srv j \<and> sent1 j = sent j"
    and same: "\<not> se_stopped s1 \<longrightarrow> log1 = log \<and> srv_worker srv1 = srv_worker srv"
    using own_more.IH [OF own_more.prems] own_more.hyps(2) by auto
  have "session_inv s1"
    using net_run_inv [OF run own_more.prems(2)] own_more.hyps(2) by (auto simp: net_inv_def srv_inv_def env_ok_def)
  then have inv: "session_inv ?s" by (rule enter_session_inv)
  have "backlog s' < backlog s1"
    using sends_on_backlog [OF _ own_more.hyps(3,4)] inv by (simp add: session_inv_def enter_session_same)
  moreover have "carries h s1 (wire (written h s1))" by (rule sends_on_carries [OF own_more.hyps(3)])
  note step = net_handler [OF run own_more.hyps(2,4) this]
  have "se_stopped s1 \<longrightarrow> se_stopped s'"
    using run_handler_flows [OF own_more.hyps(4) inv] by (simp add: flows_def enter_session_same)
  with sends_on_worker [OF own_more.hyps(3,4)] same
  have "\<not> se_stopped s' \<longrightarrow> log1 @ new_commands ?s s' = log \<and> se_room_worker s' = srv_worker srv"
    by (auto simp: enter_session_same new_commands_def)
  ultimately show ?case
    using less others
    by (intro exI [of _ "log1 @ new_commands ?s s'"] exI [of _ s'] conjI step) (simp_all add: write_back_def)
qed

lemma own_run_drains:
  assumes "net_run grow metrics n log srv sent" "n < 2 ^ 64" "srv_sessions srv i = Some s" "\<not> se_stopped s"
  shows "\<exists>k srv' sent' s'. own_run grow i srv sent k srv' sent' \<and> srv_sessions srv' i = Some s' \<and> \<not> se_stopped s' \<and> stream s' = []"
  using assms
proof (induction "backlog s" arbitrary: log srv sent s rule: less_induct)
  case less
  show ?case
  proof (cases "stream s = []")
    case True
    with less.prems own_start show ?thesis by blast
  next
    case False
    let ?s = "enter_session srv s"
    note net = net_run_inv [OF less.prems(1,2)]
    have "session_inv s" using net less.prems(3) by (auto simp: net_inv_def srv_inv_def env_ok_def)
    then have inv: "session_inv ?s" by (rule enter_session_inv)
    obtain h s1 where step: "sends_on h" "run_handler grow h ?s = Some s1" "\<not> se_stopped s1"
      using drain_step [OF inv, of grow] stream_conforms [OF net less.prems(3)] less.prems(4) False
      by (auto simp: enter_session_same)
    have fewer: "backlog s1 < backlog s"
      using sends_on_backlog [OF _ step(1,2)] inv by (simp add: session_inv_def enter_session_same)
    have run: "net_run grow metrics n (log @ new_commands ?s s1) (write_back i s1 srv) (sent(i := sent i @ wire (written h s)))"
      by (rule net_handler [OF less.prems(1,3) step(2) sends_on_carries [OF step(1)]])
    from less.hyps [OF fewer run less.prems(2) _ step(3)] own_run_first [OF less.prems(3) step(1,2)] show ?thesis
      by (fastforce simp: write_back_def)
  qed
qed

section \<open>An example\<close>

text \<open>One client connects and joins, and the worker has handled the join.\<close>

lemma session_handler_named:
  assumes "session_handler grow s s'" "se_posted s = []" "in_flight (se_writer s) = []"
  shows "\<exists>h. run_handler grow h s = Some s' \<and> carries h s []"
  using assms
proof (induction rule: session_handler.induct)
  case (handler_read s result at_once s')
  then show ?case by (intro exI [of _ "On_read result at_once"]) (simp add: run_handler_def carries_def)
next
  case (handler_writer_starts s)
  then show ?case by (intro exI [of _ Writer_starts]) (simp add: run_handler_def carries_def)
next
  case (handler_write_completed s packets batch transferred write_error)
  then show ?case
    by (intro exI [of _ "On_write transferred write_error"]) (auto simp: run_handler_def carries_def split: bool.split)
next
  case (handler_writer_threw s)
  then show ?case by (intro exI [of _ Writer_throws]) (simp add: run_handler_def carries_def)
qed simp_all

lemma first_client_told:
  obtains srv s where "net_run exact_growth None 1 [JoinCommand 1] srv (\<lambda>_. [])"
    "srv_sessions srv 1 = Some s" "\<not> se_stopped s"
    "room_events [JoinCommand 1] (srv_worker srv) = [PlayerJoinedEvent 1 origin]"
proof -
  obtain srv1 s s' where first: "background_step exact_growth (Server_new None) 1 srv1"
    "srv_worker srv1 = srv_worker (Server_new None)" "srv_sessions srv1 1 = Some s"
    "session_handler exact_growth (enter_session srv1 s) s'"
    "new_commands (enter_session srv1 s) s' = [JoinCommand 1]"
    "\<not> se_stopped s'" "se_writer s = No_writer" "se_posted s = []"
    by (rule first_client)
  obtain h where h: "run_handler exact_growth h (enter_session srv1 s) = Some s'" "carries h s []"
    using session_handler_named [OF first(4)] first(7,8) by (auto simp: enter_session_delivered)
  let ?srv = "write_back 1 s' srv1"
  have "(\<lambda>_. [])(1 := []) = (\<lambda>_ :: SessionId. [] :: byte list)" by auto
  with net_handler [OF net_background [OF net_start first(1)] first(3) h] first(5)
  have run: "net_run exact_growth None 1 [JoinCommand 1] ?srv (\<lambda>_. [])" by simp
  then have inv: "worker_inv (srv_worker ?srv) [JoinCommand 1]"
    using net_run_inv by (fastforce simp: net_inv_def srv_inv_def)
  have q: "cq_values (rw_commands (srv_worker ?srv)) = [JoinCommand 1]"
    using first(2,5) by (simp add: new_commands_def write_back_def Server_new_def RoomWorker_new_def CloseableQueue_new_def
        touch_metrics_def)
  have "rw_room (srv_worker ?srv) = Room_new"
    using worker_inv_events [OF inv] q by (simp add: processed_commands_def)
  then obtain r where app: "Room_apply (rw_room (srv_worker ?srv)) (JoinCommand 1) = (Inr (PlayerJoinedEvent 1 origin), r)"
    by (simp add: apply_join_def Room_new_def hm_try_emplace_def)
  obtain w srv3 where proc: "worker_process (Some publish_event) touch_metrics (JoinCommand 1)
      ((srv_worker ?srv)\<lparr>rw_commands := (rw_commands (srv_worker ?srv))\<lparr>cq_values := []\<rparr>\<rparr>, ?srv) = (w, srv3)"
    by fastforce
  have "worker_iteration (Some publish_event) touch_metrics (srv_worker ?srv, ?srv) = Some (w, srv3)"
    using worker_iteration_cons [OF q] proc by metis
  from net_background [OF run background_step.worker_moves [OF this]]
  have run': "net_run exact_growth None 1 [JoinCommand 1] (srv3\<lparr>srv_worker := w\<rparr>) (\<lambda>_. [])" by simp
  have "cq_values (rw_commands w) = []"
    using worker_process_frame(1) [of "Some publish_event" touch_metrics "JoinCommand 1"
        "(srv_worker ?srv)\<lparr>rw_commands := (rw_commands (srv_worker ?srv))\<lparr>cq_values := []\<rparr>\<rparr>" ?srv] proc by simp
  note evs = processed_next [OF inv q this app]
  have "room_events [JoinCommand 1] (srv_worker ?srv) = []" by (simp add: room_events_def processed_commands_def q)
  moreover obtain m where "srv3 = snd (publish_event (PlayerJoinedEvent 1 origin) (?srv\<lparr>srv_metrics := m\<rparr>))"
    using publishing_round [OF proc] app by auto
  then obtain s3 where "srv_sessions srv3 1 = Some s3" "se_stopped s3 = se_stopped s'"
    using publish_event_session [of "?srv\<lparr>srv_metrics := m\<rparr>" 1 s'] by (auto simp: write_back_def)
  ultimately show thesis using that [OF run'] evs first(6) by simp
qed

section \<open>Properties\<close>

text \<open>
  C2: No client is ever misled. In every run of the server, with any number of clients and in
  every interleaving, let a client have read any part of what its session has sent, in chunks
  of any size up to that of its read buffer: it finds no malformed byte in it, and the events
  it has seen are the first of those it is told of, which are the events of the room from its
  own join to its own leave, each one once and in the order in which the room made them.
  Writes that fail half way, answers to pings in between and the stop of the session change
  nothing.
\<close>
theorem clients_follow_the_room:
  assumes "net_run grow metrics n log srv sent" "n < 2 ^ 64"
    and "prefix (concat chunks) (sent i)" "\<forall>c\<in>set chunks. length c \<le> read_chunk_size"
  shows "\<exists>seen b. feed grow' (ReceiveBuffer_new grow' max_receive_buffer_size 4096) chunks = Some (seen, Inr b)
    \<and> prefix seen (map server_event_of (told i False (room_events log (srv_worker srv))))"
proof -
  obtain all rest where all: "events_in (sent i) = (all, Inr rest)"
    "prefix all (map server_event_of (told i False (room_events log (srv_worker srv))))"
    using seen_events(1) [OF net_run_inv [OF assms(1,2)]] by blast
  obtain seen rest' where seen: "events_in (concat chunks) = (seen, Inr rest')" "prefix seen all"
    using events_in_prefix [OF assms(3) all(1)] by blast
  have "\<exists>b. feed grow' (ReceiveBuffer_new grow' max_receive_buffer_size 4096) chunks = Some (seen, Inr b)"
    using feed_refines [OF reader_new assms(4)] seen(1) by fastforce
  with prefix_order.trans [OF seen(2) all(2)] show ?thesis by blast
qed

theorem clients_follow_the_room_witness:
  "\<exists>srv sent chunks b. net_run exact_growth None 1 [JoinCommand 1] srv sent \<and> concat chunks = sent 1
    \<and> feed exact_growth (ReceiveBuffer_new exact_growth max_receive_buffer_size 4096) chunks =
        Some ([server_event_of (PlayerJoinedEvent 1 origin)], Inr b)"
proof -
  let ?b = "ReceiveBuffer_new exact_growth max_receive_buffer_size 4096"
  obtain srv s where first: "net_run exact_growth None 1 [JoinCommand 1] srv (\<lambda>_. [])" "srv_sessions srv 1 = Some s" "\<not> se_stopped s"
    and told: "room_events [JoinCommand 1] (srv_worker srv) = [PlayerJoinedEvent 1 origin]"
    by (rule first_client_told)
  have one: "(1 :: nat) < 2 ^ 64" by simp
  obtain k srv' sent s' where own: "own_run exact_growth 1 srv (\<lambda>_. []) k srv' sent" "srv_sessions srv' 1 = Some s'" "\<not> se_stopped s'" "stream s' = []"
    using own_run_drains [OF first(1) one first(2,3)] by blast
  have run: "net_run exact_growth None 1 [JoinCommand 1] srv' sent" "srv_worker srv' = srv_worker srv"
    using own_run_net [OF own(1) first(1) one first(2)] own(2,3) by auto
  have all: "events_in (sent 1) = ([server_event_of (PlayerJoinedEvent 1 origin)], Inr [])"
    using seen_events(2) [OF net_run_inv [OF run(1) one] own(2-4)] run(2) told by simp
  let ?chunks = "map (\<lambda>x. [x]) (sent 1)"
  have chunks: "concat ?chunks = sent 1" "\<forall>c\<in>set ?chunks. length c \<le> read_chunk_size" by (auto simp: read_chunk_size_def)
  obtain seen b where seen: "feed exact_growth ?b ?chunks = Some (seen, Inr b)"
    using clients_follow_the_room [OF run(1) one _ chunks(2), of 1 exact_growth] chunks(1) by auto
  moreover have "seen = [server_event_of (PlayerJoinedEvent 1 origin)]"
    using feed_refines [OF reader_new [of exact_growth 4096] chunks(2), where grow = exact_growth] seen all chunks(1) by auto
  ultimately show ?thesis using run(1) chunks(1) by blast
qed

text \<open>
  C3: Every client can catch up. Take any state of any run in which a session is running, and let
  only its sending handlers run from there, with every write succeeding. There is an order of
  them that leads, without stopping the session and without a change to the worker or to any
  other session, to a state in which the client has been sent every event it is told of, up to
  the last one the room has made, each once, in order and in whole packets, and no other event.
  And in whatever order they run, there are at most four of them for each posted delivery, two
  for each queued packet and one for the writer, and when none is left to run, then either the
  session has been stopped or its client has caught up in this sense.
\<close>
theorem clients_catch_up:
  assumes "net_run grow metrics n log srv sent" "n < 2 ^ 64" "srv_sessions srv i = Some s" "\<not> se_stopped s"
  shows "(\<exists>k srv' sent' s'. own_run grow i srv sent k srv' sent' \<and> srv_worker srv' = srv_worker srv
      \<and> (\<forall>j. j \<noteq> i \<longrightarrow> srv_sessions srv' j = srv_sessions srv j \<and> sent' j = sent j)
      \<and> srv_sessions srv' i = Some s' \<and> \<not> se_stopped s'
      \<and> events_in (sent' i) = (map server_event_of (told i False (room_events log (srv_worker srv))), Inr []))
    \<and> (\<forall>k srv' sent'. own_run grow i srv sent k srv' sent' \<longrightarrow> k \<le> backlog s
        \<and> (\<exists>s'. srv_sessions srv' i = Some s' \<and>
            ((\<forall>h. sends_on h \<longrightarrow> run_handler grow h (enter_session srv' s') = None) \<longrightarrow> se_stopped s' \<or>
              events_in (sent' i) = (map server_event_of (told i False (room_events log (srv_worker srv))), Inr []))))"
proof (intro conjI allI impI)
  have caught: "events_in (sent' i) = (map server_event_of (told i False (room_events log (srv_worker srv))), Inr [])"
    if "own_run grow i srv sent k srv' sent'" "srv_sessions srv' i = Some s'" "\<not> se_stopped s'" "stream s' = []" for k srv' sent' s'
  proof -
    have net: "net_run grow metrics n log srv' sent'" "srv_worker srv' = srv_worker srv"
      using own_run_net [OF that(1) assms(1-3)] that(2,3) by auto
    from seen_events(2) [OF net_run_inv [OF net(1) assms(2)] that(2-4)] net(2) show ?thesis by simp
  qed
  obtain k srv' sent' s' where drained: "own_run grow i srv sent k srv' sent'" "srv_sessions srv' i = Some s'" "\<not> se_stopped s'" "stream s' = []"
    using own_run_drains [OF assms] by blast
  from caught [OF drained] own_run_net [OF drained(1) assms(1-3)] drained
  show "\<exists>k srv' sent' s'. own_run grow i srv sent k srv' sent' \<and> srv_worker srv' = srv_worker srv
      \<and> (\<forall>j. j \<noteq> i \<longrightarrow> srv_sessions srv' j = srv_sessions srv j \<and> sent' j = sent j)
      \<and> srv_sessions srv' i = Some s' \<and> \<not> se_stopped s'
      \<and> events_in (sent' i) = (map server_event_of (told i False (room_events log (srv_worker srv))), Inr [])"
    by (intro exI [of _ k] exI [of _ srv'] exI [of _ sent'] exI [of _ s']) auto
  fix k srv' sent'
  assume own: "own_run grow i srv sent k srv' sent'"
  then obtain log' s' where net: "net_run grow metrics n log' srv' sent'" "srv_sessions srv' i = Some s'" "k + backlog s' \<le> backlog s"
    using own_run_net [OF own assms(1-3)] by blast
  then show "k \<le> backlog s" by simp
  have "session_inv s'" using net_run_inv [OF net(1) assms(2)] net(2) by (auto simp: net_inv_def srv_inv_def env_ok_def)
  then have "out_inv (enter_session srv' s')" using enter_session_inv by (simp add: session_inv_def)
  from nothing_to_send [OF this, of grow] caught [OF own net(2)] net(2)
  show "\<exists>s'. srv_sessions srv' i = Some s' \<and>
      ((\<forall>h. sends_on h \<longrightarrow> run_handler grow h (enter_session srv' s') = None) \<longrightarrow> se_stopped s' \<or>
        events_in (sent' i) = (map server_event_of (told i False (room_events log (srv_worker srv))), Inr []))"
    by (intro exI [of _ s']) (auto simp: enter_session_same)
qed

theorem clients_catch_up_witness:
  "\<exists>srv k srv' sent'. net_run exact_growth None 1 [JoinCommand 1] srv (\<lambda>_. [])
    \<and> own_run exact_growth 1 srv (\<lambda>_. []) k srv' sent'
    \<and> events_in (sent' 1) = ([server_event_of (PlayerJoinedEvent 1 origin)], Inr [])"
proof -
  obtain srv s where run: "net_run exact_growth None 1 [JoinCommand 1] srv (\<lambda>_. [])"
    "srv_sessions srv 1 = Some s" "\<not> se_stopped s"
    "room_events [JoinCommand 1] (srv_worker srv) = [PlayerJoinedEvent 1 origin]"
    by (rule first_client_told)
  from clients_catch_up [OF run(1) _ run(2,3)] run(4) obtain k srv' sent' where
    "own_run exact_growth 1 srv (\<lambda>_. []) k srv' sent'"
    "events_in (sent' 1) = ([server_event_of (PlayerJoinedEvent 1 origin)], Inr [])" by auto
  with run(1) show ?thesis by blast
qed

text \<open>
  C9: Everything the server has for a client is well typed: in every state of every run, each
  packet that a session is writing, has queued or has been posted is one whole packet that the
  decoder accepts, of a type only the server sends or the answer to a ping, with a payload in
  the format of its type. The null packet is never among them.
\<close>
theorem server_packets_conform:
  assumes "net_run grow metrics n log srv sent" "n < 2 ^ 64" "srv_sessions srv i = Some s"
    and "p \<in> set (in_flight (se_writer s)) \<union> set (oq_packets (se_outbound_queue s)) \<union> fst ` set (se_posted s)"
  shows "conforms p"
  using stream_conforms [OF net_run_inv [OF assms(1,2)] assms(3)] assms(4)
  by (auto simp: stream_def pipeline_def)

theorem server_packets_conform_witness:
  "\<exists>srv s p. net_run exact_growth None 1 [JoinCommand 1] srv (\<lambda>_. []) \<and> srv_sessions srv 1 = Some s
    \<and> p = event_packet (PlayerJoinedEvent 1 origin) \<and> p \<in> set (stream s) \<and> conforms p"
proof -
  let ?p = "event_packet (PlayerJoinedEvent 1 origin)"
  obtain srv s where run: "net_run exact_growth None 1 [JoinCommand 1] srv (\<lambda>_. [])"
    "srv_sessions srv 1 = Some s" "\<not> se_stopped s"
    "room_events [JoinCommand 1] (srv_worker srv) = [PlayerJoinedEvent 1 origin]"
    by (rule first_client_told)
  have "clients_ok 1 [PlayerJoinedEvent 1 origin] (srv_registry srv) (srv_sessions srv) (\<lambda>_. [])"
    using net_run_inv [OF run(1)] run(4) by (simp add: net_inv_def)
  from clients_ok_delivered [OF this run(2)] run(3) obtain ps where
    "no_pongs (ps @ stream s) = [?p]" "wire ps = []"
    by (auto simp: delivered_def expected_packets_def)
  then have "?p \<in> set (ps @ stream s)" by (metis filter_is_subset list.set_intros(1) subsetD)
  moreover have "?p \<notin> set ps" using \<open>wire ps = []\<close> frame_nonempty by (fastforce simp: wire_def)
  ultimately have "?p \<in> set (stream s)" by simp
  with server_packets_conform [OF run(1) _ run(2), of ?p] run(1,2) show ?thesis
    by (auto simp: stream_def pipeline_def)
qed

end
