(* ===== verification/Load_Config.thy ===== *)
theory Load_Config
  imports Decimal_Text Command_Line
begin

text \<open>
  The configuration of the load client: \<open>LoadTestConfig\<close> of
  \<open>include/mcrs/benchmark/load_client.hpp\<close>, the arguments of \<open>src/benchmark/load_client_main.cpp\<close>,
  \<open>validate_config\<close> of \<open>src/benchmark/load_client.cpp\<close>, and the coordinates the bots of
  that file derive from it.
\<close>

section \<open>Data and operations\<close>

record LoadTestConfig =
  cfg_host :: string
  cfg_port :: uint16
  cfg_client_count :: size_t
  cfg_warmup_moves_per_client :: size_t
  cfg_measured_moves_per_client :: size_t

definition LoadTestConfig_default :: LoadTestConfig where
  "LoadTestConfig_default =
     \<lparr>cfg_host = ''127.0.0.1'', cfg_port = 7777, cfg_client_count = 16,
      cfg_warmup_moves_per_client = 20, cfg_measured_moves_per_client = 200\<rparr>"

definition uint64_max :: nat where
  "uint64_max = 2 ^ 64 - 1"

text \<open>
  \<open>parse_unsigned limit str output\<close>, with \<open>limit\<close> the largest value of the type of the
  destination: 65535 for the port, that of \<open>size_t\<close> for the counts.
\<close>

definition parse_unsigned :: "nat \<Rightarrow> string \<Rightarrow> nat \<Rightarrow> bool \<times> nat" where
  "parse_unsigned limit str out =
     (let (stop, error, v) = from_chars uint64_max str 0
      in if error \<noteq> errc_none \<or> stop \<noteq> length str \<or> v > limit then (False, out) else (True, v))"

definition load_client_arguments :: "string list \<Rightarrow> LoadTestConfig option" where
  "load_client_arguments argv =
     (let argc = length argv; config = LoadTestConfig_default
      in if argc > 6 then None
         else
           let config = (if argc \<ge> 2 then config\<lparr>cfg_host := argv ! 1\<rparr> else config);
               (port_ok, port) =
                 (if argc \<ge> 3 then parse_unsigned 65535 (argv ! 2) (unat (cfg_port config))
                  else (True, unat (cfg_port config)));
               (clients_ok, clients) =
                 (if argc \<ge> 4 then parse_unsigned uint64_max (argv ! 3) (cfg_client_count config)
                  else (True, cfg_client_count config));
               (warmup_ok, warmup) =
                 (if argc \<ge> 5 then parse_unsigned uint64_max (argv ! 4) (cfg_warmup_moves_per_client config)
                  else (True, cfg_warmup_moves_per_client config));
               (measured_ok, measured) =
                 (if argc \<ge> 6 then parse_unsigned uint64_max (argv ! 5) (cfg_measured_moves_per_client config)
                  else (True, cfg_measured_moves_per_client config))
           in if \<not> port_ok \<or> \<not> clients_ok \<or> \<not> warmup_ok \<or> \<not> measured_ok then None
              else Some (config\<lparr>cfg_port := of_nat port, cfg_client_count := clients,
                cfg_warmup_moves_per_client := warmup, cfg_measured_moves_per_client := measured\<rparr>))"

definition int32_max :: size_t where
  "int32_max = 2 ^ 31 - 1"

definition validate_config :: "LoadTestConfig \<Rightarrow> string option" where
  "validate_config config =
     (if cfg_client_count config = 0 then Some ''client count must be greater than zero''
      else if cfg_port config = 0 then Some ''port must be greater than zero''
      else if cfg_measured_moves_per_client config = 0
      then Some ''measured moves per client must be greater than zero''
      else if cfg_client_count config > int32_max
      then Some ''client count exceeds coordinate range''
      else if cfg_warmup_moves_per_client config >
        size_sub int32_max (cfg_measured_moves_per_client config)
      then Some ''total moves per client exceeds coordinate range''
      else if cfg_client_count config > uint64_max div cfg_measured_moves_per_client config
      then Some ''sample count is too large''
      else None)"

text \<open>The coordinates of a bot's moves: \<open>static_cast<std::int32_t>\<close> keeps the low 32 bits.\<close>

definition to_int32 :: "size_t \<Rightarrow> int32" where
  "to_int32 n = of_nat n"

definition client_coordinate :: "size_t \<Rightarrow> int32" where
  "client_coordinate client_index = to_int32 (size_add client_index 1)"

definition warmup_coordinate :: "size_t \<Rightarrow> int32" where
  "warmup_coordinate sequence = to_int32 (size_add sequence 1)"

definition measured_coordinate :: "LoadTestConfig \<Rightarrow> size_t \<Rightarrow> int32" where
  "measured_coordinate config sequence =
     to_int32 (size_add (size_add (cfg_warmup_moves_per_client config) sequence) 1)"

definition barrier_coordinate :: int32 where
  "barrier_coordinate = 0"

text \<open>The \<open>m\<close>-th move of a client, warmup moves first.\<close>

definition nth_move :: "LoadTestConfig \<Rightarrow> size_t \<Rightarrow> size_t \<Rightarrow> int32 \<times> int32" where
  "nth_move config client_index m =
     (client_coordinate client_index,
      if m < cfg_warmup_moves_per_client config then warmup_coordinate m
      else measured_coordinate config (m - cfg_warmup_moves_per_client config))"

definition moves_per_client :: "LoadTestConfig \<Rightarrow> nat" where
  "moves_per_client config =
     cfg_warmup_moves_per_client config + cfg_measured_moves_per_client config"

section \<open>Lemmas\<close>

lemma parse_unsigned_iff:
  "limit \<le> uint64_max \<Longrightarrow>
    parse_unsigned limit str out = (True, v) \<longleftrightarrow> number_in 0 limit str \<and> v = decimal_value str"
proof -
  assume limit: "limit \<le> uint64_max"
  obtain stop error w where call: "from_chars uint64_max str 0 = (stop, error, w)"
    by (metis prod_cases3)
  have "parse_unsigned limit str out = (True, v) \<longleftrightarrow>
      (error = errc_none \<and> stop = length str) \<and> w \<le> limit \<and> v = w"
    by (auto simp: parse_unsigned_def call)
  also have "\<dots> \<longleftrightarrow> number_in 0 limit str \<and> v = decimal_value str"
    using limit from_chars_cases [OF call] by (auto simp: number_in_def)
  finally show ?thesis .
qed

lemma unat_to_int32: "n \<le> int32_max \<Longrightarrow> unat (to_int32 n) = n"
  by (simp add: to_int32_def unat_of_nat int32_max_def)

lemma validate_config_None:
  assumes "validate_config config = None"
  shows "0 < cfg_client_count config" "cfg_client_count config \<le> int32_max" "cfg_port config \<noteq> 0"
    "0 < cfg_measured_moves_per_client config"
    "cfg_warmup_moves_per_client config \<le> size_sub int32_max (cfg_measured_moves_per_client config)"
    "cfg_client_count config * cfg_measured_moves_per_client config < 2 ^ 64"
proof -
  have none: "0 < cfg_client_count config" "cfg_client_count config \<le> int32_max" "cfg_port config \<noteq> 0"
    "0 < cfg_measured_moves_per_client config"
    "cfg_warmup_moves_per_client config \<le> size_sub int32_max (cfg_measured_moves_per_client config)"
    "cfg_client_count config \<le> uint64_max div cfg_measured_moves_per_client config"
    using assms by (auto simp: validate_config_def split: if_splits)
  then show "0 < cfg_client_count config" "cfg_client_count config \<le> int32_max" "cfg_port config \<noteq> 0"
    "0 < cfg_measured_moves_per_client config"
    "cfg_warmup_moves_per_client config \<le> size_sub int32_max (cfg_measured_moves_per_client config)"
    by simp_all
  have "cfg_client_count config * cfg_measured_moves_per_client config \<le> uint64_max"
    using none(6) by (meson div_times_less_eq_dividend le_trans mult_le_mono1)
  then show "cfg_client_count config * cfg_measured_moves_per_client config < 2 ^ 64"
    by (simp add: uint64_max_def)
qed

lemma nth_move_exact:
  assumes "validate_config config = None" "cfg_measured_moves_per_client config \<le> int32_max"
    and "i < cfg_client_count config" "m < moves_per_client config"
  shows "unat (fst (nth_move config i m)) = Suc i" "unat (snd (nth_move config i m)) = Suc m"
    "Suc i \<le> int32_max" "Suc m \<le> int32_max"
proof -
  note ok = validate_config_None [OF assms(1)]
  have "moves_per_client config \<le> int32_max"
    using ok(5) assms(2) by (simp add: moves_per_client_def)
  then show m: "Suc m \<le> int32_max" and i: "Suc i \<le> int32_max" using assms(3,4) ok(2) by simp_all
  then have "m + 1 < 2 ^ 64" "i + 1 < 2 ^ 64" by (simp_all add: int32_max_def)
  then have wide: "size_add m 1 = Suc m" "size_add i 1 = Suc i"
    "m \<ge> w \<Longrightarrow> size_add w (m - w) = m" for w by simp_all
  show "unat (fst (nth_move config i m)) = Suc i"
    using i wide by (simp add: nth_move_def client_coordinate_def unat_to_int32 del: One_nat_def)
  show "unat (snd (nth_move config i m)) = Suc m"
    using m wide
    by (simp add: nth_move_def warmup_coordinate_def measured_coordinate_def unat_to_int32 del: One_nat_def)
qed

section \<open>Properties\<close>

text \<open>
  C38: An accepted configuration whose number of measured moves fits an \<open>int32\<close> keeps all moves
  of the load test apart: client \<open>i\<close> sends its \<open>m\<close>-th move to the coordinates
  \<open>(i + 1, m + 1)\<close>, which are positive, so no two moves of the whole test and no move and the
  barrier move at \<open>(0, 0)\<close> coincide; and the number of samples fits a \<open>size_t\<close>.
\<close>
theorem moves_stay_apart:
  assumes "validate_config config = None" and "cfg_measured_moves_per_client config \<le> int32_max"
    and "i < cfg_client_count config" and "m < moves_per_client config"
    and "j < cfg_client_count config" and "n < moves_per_client config"
  shows "sint (fst (nth_move config i m)) = int i + 1 \<and> sint (snd (nth_move config i m)) = int m + 1
    \<and> (nth_move config i m = nth_move config j n \<longleftrightarrow> i = j \<and> m = n)
    \<and> nth_move config i m \<noteq> (barrier_coordinate, barrier_coordinate)
    \<and> cfg_client_count config * cfg_measured_moves_per_client config < 2 ^ 64"
proof -
  note mine = nth_move_exact [OF assms(1-4)]
  note yours = nth_move_exact [OF assms(1,2,5,6)]
  have signed: "sint w = int (unat w)" if "unat w \<le> int32_max" for w :: int32
  proof -
    have eq: "uint w = int (unat w)" by (rule uint_nat)
    then have "uint w < 2 ^ 31" using that by (simp add: int32_max_def del: of_nat_unat)
    moreover have "- (2 ^ 31) \<le> uint w" by (rule order_trans [of _ 0]) simp_all
    ultimately have "signed_take_bit 31 (uint w) = uint w" by (intro signed_take_bit_int_eq_self)
    then show ?thesis unfolding eq [symmetric] by (simp add: sint_uint)
  qed
  have "nth_move config i m = nth_move config j n \<longleftrightarrow> i = j \<and> m = n"
    using mine(1,2) yours(1,2) by (metis Suc_inject)
  moreover have "nth_move config i m \<noteq> (barrier_coordinate, barrier_coordinate)"
    using mine(1) by (auto simp: barrier_coordinate_def)
  ultimately show ?thesis
    using mine signed [of "fst (nth_move config i m)"] signed [of "snd (nth_move config i m)"]
      validate_config_None(6) [OF assms(1)] by (simp del: of_nat_unat)
qed

theorem moves_stay_apart_witness:
  "validate_config LoadTestConfig_default = None
   \<and> nth_move LoadTestConfig_default 3 25 \<noteq> nth_move LoadTestConfig_default 4 25
   \<and> sint (snd (nth_move LoadTestConfig_default 3 25)) = 26"
proof -
  have ok: "validate_config LoadTestConfig_default = None"
    by (simp add: validate_config_def LoadTestConfig_default_def int32_max_def uint64_max_def)
  have "cfg_measured_moves_per_client LoadTestConfig_default \<le> int32_max"
    "3 < cfg_client_count LoadTestConfig_default" "4 < cfg_client_count LoadTestConfig_default"
    "25 < moves_per_client LoadTestConfig_default"
    by (simp_all add: LoadTestConfig_default_def int32_max_def moves_per_client_def)
  from moves_stay_apart [OF ok this(1,2,4,3,4)] ok show ?thesis by simp
qed

text \<open>
  C37: The check of the configuration does not keep the moves within the coordinate range: it
  subtracts the number of measured moves from the largest \<open>int32\<close> as a \<open>size_t\<close>, so with more
  measured moves than that the difference wraps. Every such configuration passes, with any
  number of warmup moves up to the largest \<open>int32\<close>, as long as it has clients within their own
  limit, a port, and a number of samples that fits a \<open>size_t\<close>. In each of them the coordinate of
  the last measured move is not the number of the move, which an \<open>int32\<close> cannot hold; and when
  a client has more than \<open>2 ^ 32\<close> measured moves, the first of them and the one \<open>2 ^ 32\<close> moves later
  go to the same coordinates.
\<close>
theorem validate_config_wraps:
  assumes "int32_max < cfg_measured_moves_per_client config" and "cfg_warmup_moves_per_client config \<le> int32_max"
    and "0 < cfg_client_count config" and "cfg_client_count config \<le> int32_max" and "cfg_port config \<noteq> 0"
    and "cfg_client_count config * cfg_measured_moves_per_client config < 2 ^ 64"
  shows "validate_config config = None
    \<and> sint (measured_coordinate config (cfg_measured_moves_per_client config - 1)) \<noteq> int (moves_per_client config)
    \<and> (2 ^ 32 < cfg_measured_moves_per_client config \<longrightarrow>
        nth_move config i (cfg_warmup_moves_per_client config) = nth_move config i (cfg_warmup_moves_per_client config + 2 ^ 32))"
proof (intro conjI impI)
  let ?measured = "cfg_measured_moves_per_client config" and ?clients = "cfg_client_count config"
  have "1 * ?measured \<le> ?clients * ?measured" using assms(3) by (intro mult_le_mono1) simp
  with assms(6) have small: "?measured < 2 ^ 64" by linarith
  have "size_sub int32_max ?measured = 2 ^ 64 - (?measured - int32_max)"
    using assms(1) small by (rule size_sub_wraps)
  also have "\<dots> \<ge> int32_max" using assms(1) small unfolding int32_max_def by simp
  finally have wide: "int32_max \<le> size_sub int32_max ?measured" .
  have "?clients \<le> uint64_max div ?measured"
    using assms(1,6) by (simp add: less_eq_div_iff_mult_less_eq uint64_max_def)
  with wide assms show "validate_config config = None" by (auto simp: validate_config_def)
  have "sint w < 2 ^ 31" for w :: int32 using sint_less [of w] by simp
  moreover have "2 ^ 31 \<le> int (moves_per_client config)"
    using assms(1) by (simp add: moves_per_client_def int32_max_def)
  ultimately show "sint (measured_coordinate config (?measured - 1)) \<noteq> int (moves_per_client config)"
    by (metis not_less)
next
  have low: "of_nat (size_add a b) = (of_nat (a + b) :: int32)" for a b
  proof -
    have "(a + b) mod 2 ^ 64 mod 2 ^ 32 = (a + b) mod 2 ^ 32" by (rule mod_mod_cancel) (simp add: le_imp_power_dvd)
    then show ?thesis unfolding size_add_def word_of_nat_eq_iff by (simp add: take_bit_eq_mod)
  qed
  have "(of_nat (2 ^ 32) :: int32) = 0" by (simp add: word_of_nat_eq_0_iff)
  then show "nth_move config i (cfg_warmup_moves_per_client config) = nth_move config i (cfg_warmup_moves_per_client config + 2 ^ 32)"
    by (simp add: nth_move_def measured_coordinate_def to_int32_def low)
qed

theorem validate_config_wraps_witness:
  "validate_config (LoadTestConfig_default\<lparr>cfg_measured_moves_per_client := 2 ^ 33\<rparr>) = None
   \<and> nth_move (LoadTestConfig_default\<lparr>cfg_measured_moves_per_client := 2 ^ 33\<rparr>) 3 20 =
       nth_move (LoadTestConfig_default\<lparr>cfg_measured_moves_per_client := 2 ^ 33\<rparr>) 3 (20 + 2 ^ 32)"
  using validate_config_wraps [of "LoadTestConfig_default\<lparr>cfg_measured_moves_per_client := 2 ^ 33\<rparr>" 3]
  by (simp add: LoadTestConfig_default_def int32_max_def)

text \<open>
  The load client takes its configuration from the command line as it was written: the
  host and the decimal texts of the port and of the three counts give exactly that
  configuration back, and when one of the four is not a number within its type the client
  refuses to start.
\<close>
theorem load_client_arguments_roundtrip:
  assumes "cfg_client_count config < 2 ^ 64" "cfg_warmup_moves_per_client config < 2 ^ 64"
    and "cfg_measured_moves_per_client config < 2 ^ 64"
  shows "load_client_arguments [program, cfg_host config, show_decimal (unat (cfg_port config)),
      show_decimal (cfg_client_count config), show_decimal (cfg_warmup_moves_per_client config),
      show_decimal (cfg_measured_moves_per_client config)] = Some config
    \<and> (load_client_arguments [program, host, a, b, c, d] = None \<longleftrightarrow>
        \<not> (number_in 0 65535 a \<and> list_all (number_in 0 uint64_max) [b, c, d]))"
proof (intro conjI)
  have limits: "65535 \<le> uint64_max" by (simp add: uint64_max_def)
  have port: "parse_unsigned 65535 (show_decimal (unat (cfg_port config))) 7777 = (True, unat (cfg_port config))"
    using unsigned_less [of "cfg_port config", where 'a = nat]
    by (simp add: parse_unsigned_iff limits number_in_def show_decimal_digits)
  have count: "parse_unsigned uint64_max (show_decimal n) m = (True, n)" if "n < 2 ^ 64" for m n
    using that by (simp add: parse_unsigned_iff number_in_def show_decimal_digits uint64_max_def)
  show "load_client_arguments [program, cfg_host config, show_decimal (unat (cfg_port config)),
      show_decimal (cfg_client_count config), show_decimal (cfg_warmup_moves_per_client config),
      show_decimal (cfg_measured_moves_per_client config)] = Some config"
    using port count assms by (simp add: load_client_arguments_def LoadTestConfig_default_def)
  have ok: "fst (parse_unsigned limit str out) \<longleftrightarrow> number_in 0 limit str" if "limit \<le> uint64_max" for limit str out
    using parse_unsigned_iff [OF that, of str out] by (cases "parse_unsigned limit str out") auto
  show "load_client_arguments [program, host, a, b, c, d] = None \<longleftrightarrow>
        \<not> (number_in 0 65535 a \<and> list_all (number_in 0 uint64_max) [b, c, d])"
    using ok [OF limits, of a 7777] ok [of uint64_max b 16] ok [of uint64_max c 20] ok [of uint64_max d 200]
    by (auto simp: load_client_arguments_def LoadTestConfig_default_def case_prod_beta Let_def)
qed

theorem load_client_arguments_roundtrip_witness:
  "load_client_arguments [''mcrs_load_client'', ''127.0.0.1'', show_decimal 7777,
     show_decimal 16, show_decimal 20, show_decimal 200] = Some LoadTestConfig_default"
  using load_client_arguments_roundtrip [of LoadTestConfig_default "''mcrs_load_client''"]
  by (simp add: LoadTestConfig_default_def)

end
