(* ===== verification/Cpp_Double.thy ===== *)
theory Cpp_Double
  imports Decimal_Text Complex_Main "HOL-Library.Log_Nat"
begin

text \<open>
  The \<open>double\<close> of the load client: IEEE binary64 with rounding to nearest, ties to even. A value is
  the rational number it stands for, and an operation is the exact one, rounded to 53 bits.
  The exponent is unbounded: the numbers here are quotients and products of counts below
  \<open>2 ^ 64\<close>, far from overflow and from subnormal numbers. \<open>show_fixed\<close> is the output of a \<open>double\<close>
  with \<open>std::fixed\<close> and a precision of three, which rounds the exact value in the same way.
\<close>

section \<open>Operations\<close>

type_synonym double = rat

definition round_half_even :: "rat \<Rightarrow> int" where
  "round_half_even x =
     (let n = \<lfloor>x\<rfloor>; d = x - of_int n
      in if d < 1 / 2 then n else if 1 / 2 < d then n + 1 else if even n then n else n + 1)"

text \<open>The exponent of a positive number: the \<open>b\<close> with \<open>2\<close> to the \<open>b\<close> at most, and twice that above it.\<close>

definition binade :: "rat \<Rightarrow> int" where
  "binade x =
     (let (p, q) = quotient_of x; k = bitlen p - bitlen q
      in if x < 2 powi k then k - 1 else k)"

definition to_double :: "rat \<Rightarrow> double" where
  "to_double x =
     (if x = 0 then 0
      else let e = binade \<bar>x\<bar> - 52 in of_int (round_half_even (x / 2 powi e)) * 2 powi e)"

definition double_div :: "double \<Rightarrow> double \<Rightarrow> double" where
  "double_div x y = to_double (x / y)"

definition double_mul :: "double \<Rightarrow> double \<Rightarrow> double" where
  "double_mul x y = to_double (x * y)"

text \<open>
  \<open>std::chrono::duration<double, Period>{d}.count()\<close> for a duration of \<open>d\<close> nanoseconds, with \<open>period\<close>
  nanoseconds in the target's period.
\<close>

definition duration_count :: "nat \<Rightarrow> int \<Rightarrow> double" where
  "duration_count period d = double_div (to_double (of_int d)) (to_double (of_nat period))"

definition three_digits :: "nat \<Rightarrow> string" where
  "three_digits n = [digit_char (n div 100 mod 10), digit_char (n div 10 mod 10), digit_char (n mod 10)]"

definition show_fixed :: "double \<Rightarrow> string" where
  "show_fixed x =
     (let n = nat (round_half_even (\<bar>x\<bar> * 1000))
      in (if x < 0 then ''-'' else []) @ show_decimal (n div 1000) @ ''.'' @ three_digits (n mod 1000))"

section \<open>Rounding\<close>

lemma round_half_even_error: "\<bar>of_int (round_half_even x) - x\<bar> \<le> 1 / 2"
proof -
  have "0 \<le> x - of_int \<lfloor>x\<rfloor>" "x - of_int \<lfloor>x\<rfloor> < 1" by linarith+
  moreover have "\<exists>d. round_half_even x = \<lfloor>x\<rfloor> + d \<and> (d = 0 \<and> x - of_int \<lfloor>x\<rfloor> \<le> 1 / 2 \<or> d = 1 \<and> 1 / 2 \<le> x - of_int \<lfloor>x\<rfloor>)"
    by (simp add: round_half_even_def Let_def not_less)
  ultimately show ?thesis by (auto simp: abs_le_iff algebra_simps)
qed

lemma round_half_even_near:
  assumes "\<bar>x - of_int n\<bar> < 1 / 2"
  shows "round_half_even x = n"
proof -
  have "\<bar>of_int (round_half_even x) - of_int n :: rat\<bar> < 1"
    using assms round_half_even_error [of x] by linarith
  then have "\<bar>round_half_even x - n\<bar> < 1" by (metis of_int_abs of_int_diff of_int_less_1_iff)
  then show ?thesis by simp
qed

lemma round_half_even_int: "round_half_even (of_int n) = n"
  by (rule round_half_even_near) simp

lemma bitlen_powi:
  assumes "0 < p"
  shows "(2 :: rat) powi (bitlen p - 1) \<le> of_int p" "of_int p < (2 :: rat) powi bitlen p"
proof -
  have pos: "0 < bitlen p" using assms bitlen_bounds [OF assms] by (metis bitlen_eq_zero_iff bitlen_nonneg order_le_less not_le)
  have "(2 :: rat) powi (bitlen p - 1) = of_int (2 ^ nat (bitlen p - 1))" "(2 :: rat) powi bitlen p = of_int (2 ^ nat (bitlen p))"
    using pos by (simp_all add: power_int_def)
  moreover have "2 ^ nat (bitlen p - 1) \<le> p" "p < 2 ^ nat (bitlen p)" using bitlen_bounds [OF assms] by auto
  ultimately show "(2 :: rat) powi (bitlen p - 1) \<le> of_int p" "of_int p < (2 :: rat) powi bitlen p"
    by (simp_all only: of_int_le_iff of_int_less_iff)
qed

lemma binade_bounds:
  assumes "0 < x"
  shows "2 powi binade x \<le> x" "x < 2 powi (binade x + 1)"
proof -
  obtain p q where pq: "quotient_of x = (p, q)" by fastforce
  have x: "x = of_int p / of_int q" and q: "0 < q" using quotient_of_div [OF pq] quotient_of_denom_pos [OF pq] .
  have p: "0 < p" using assms x q by (simp add: zero_less_divide_iff)
  let ?k = "bitlen p - bitlen q"
  have "x < 2 powi bitlen p / 2 powi (bitlen q - 1)"
    unfolding x using bitlen_powi [OF p] bitlen_powi [OF q] q p by (intro frac_less) simp_all
  also have "\<dots> = 2 powi (?k + 1)" by (simp add: power_int_diff [symmetric] algebra_simps)
  finally have upper: "x < 2 powi (?k + 1)" .
  have "2 powi (?k - 1) = (2 powi (bitlen p - 1) / 2 powi bitlen q :: rat)" by (simp add: power_int_diff [symmetric] algebra_simps)
  also have "\<dots> \<le> x"
    unfolding x using bitlen_powi [OF p] bitlen_powi [OF q] q p by (intro frac_le) simp_all
  finally have lower: "2 powi (?k - 1) \<le> x" .
  show "2 powi binade x \<le> x" "x < 2 powi (binade x + 1)"
    using upper lower by (auto simp: binade_def pq Let_def not_less)
qed

lemma powi_pos: "(0 :: rat) < 2 powi k"
  by simp

lemma to_double_error:
  assumes "0 \<le> x"
  shows "\<bar>to_double x - x\<bar> \<le> x / 2 ^ 53"
proof (cases "x = 0")
  case False
  with assms have x: "0 < x" by simp
  let ?u = "2 powi (binade x - 52) :: rat" and ?m = "of_int (round_half_even (x / 2 powi (binade x - 52))) :: rat"
  have r: "to_double x = ?m * ?u" using x by (simp add: to_double_def Let_def)
  have "to_double x - x = (?m - x / ?u) * ?u" using powi_pos by (simp add: r algebra_simps)
  then have "\<bar>to_double x - x\<bar> = \<bar>?m - x / ?u\<bar> * ?u" by (simp only: abs_mult abs_of_pos [OF powi_pos])
  also have "\<dots> \<le> 1 / 2 * ?u" by (intro mult_right_mono round_half_even_error) simp
  also have "\<dots> = 2 powi binade x / 2 ^ 53" by (simp add: power_int_diff)
  also have "\<dots> \<le> x / 2 ^ 53" using binade_bounds(1) [OF x] by (intro divide_right_mono) simp_all
  finally show ?thesis .
qed (simp add: to_double_def)

lemma to_double_pos:
  assumes "0 < x"
  shows "0 < to_double x"
proof -
  have "x / 2 ^ 53 < x" using assms by simp
  with to_double_error [of x] assms show ?thesis by linarith
qed

lemma to_double_nonneg: "0 \<le> x \<Longrightarrow> 0 \<le> to_double x"
  using to_double_pos [of x] by (cases "x = 0") (simp_all add: to_double_def)

lemma to_double_int:
  assumes "0 \<le> n" "n < 2 ^ 53"
  shows "to_double (of_int n) = of_int n"
proof (cases "n = 0")
  case False
  with assms(1) have n: "0 < n" by simp
  let ?x = "of_int n :: rat"
  have x: "0 < ?x" using n by simp
  have "2 powi binade ?x \<le> ?x" by (rule binade_bounds [OF x])
  also have "?x < of_int (2 ^ 53)" using assms(2) by (simp only: of_int_less_iff)
  finally have "\<not> 2 powi 53 \<le> (2 powi binade ?x :: rat)" by simp
  then have "binade ?x < 53" using power_int_increasing [of 53 "binade ?x" "2 :: rat"] by force
  then obtain k where k: "52 - binade ?x = int k" by (metis add_diff_cancel_left' diff_ge_0_iff_ge le_add_diff_inverse zero_le_imp_eq_int zle_diff1_eq numeral_plus_one add_diff_cancel_right' semiring_norm(5))
  have unit: "2 powi (binade ?x - 52) = 1 / (2 ^ k :: rat)"
    using k by (simp add: power_int_minus_divide flip: minus_diff_eq [of 52])
  have "?x / 2 powi (binade ?x - 52) = of_int (n * 2 ^ k)" by (simp add: unit)
  then have "round_half_even (?x / 2 powi (binade ?x - 52)) = n * 2 ^ k" by (simp only: round_half_even_int)
  then show ?thesis using x by (simp add: to_double_def Let_def unit)
qed (simp add: to_double_def)

text \<open>Two roundings in a quotient: the error of the divisor and that of the result.\<close>

lemma double_div_error:
  assumes "0 \<le> x" "0 < y" "\<bar>z - y\<bar> \<le> y / 2 ^ 53"
  shows "\<bar>double_div x z - x / y\<bar> \<le> x / y / 2 ^ 51"
proof -
  have z: "y * (1 - 1 / 2 ^ 53) \<le> z" "z \<le> y * (1 + 1 / 2 ^ 53)"
    using assms(3) unfolding abs_le_iff by (simp_all add: algebra_simps)
  have "0 < y * (1 - 1 / 2 ^ 53)" using assms(2) by simp
  with z(1) have z0: "0 < z" by linarith
  have up: "x / z \<le> x / y * (1 + 1 / 2 ^ 52 - 1 / 2 ^ 54)"
  proof -
    have "x / z \<le> x / (y * (1 - 1 / 2 ^ 53))" using z(1) assms(1,2) z0 by (intro divide_left_mono) simp_all
    also have "\<dots> = x / y * (1 / (1 - 1 / 2 ^ 53))" by simp
    also have "\<dots> \<le> x / y * (1 + 1 / 2 ^ 52 - 1 / 2 ^ 54)" using assms(1,2) by (intro mult_left_mono) simp_all
    finally show ?thesis .
  qed
  have low: "x / y * (1 - 1 / 2 ^ 53) \<le> x / z"
  proof -
    have "x / y * (1 - 1 / 2 ^ 53) \<le> x / y * (1 / (1 + 1 / 2 ^ 53))" using assms(1,2) by (intro mult_left_mono) simp_all
    also have "\<dots> = x / (y * (1 + 1 / 2 ^ 53))" by simp
    also have "\<dots> \<le> x / z" using z(2) assms(1,2) z0 by (intro divide_left_mono) simp_all
    finally show ?thesis .
  qed
  have err: "\<bar>double_div x z - x / z\<bar> \<le> x / z / 2 ^ 53"
    unfolding double_div_def by (rule to_double_error) (use assms(1) z0 in simp)
  have "0 \<le> x / y" using assms by simp
  with up low err show ?thesis unfolding abs_le_iff by (simp add: field_simps) 
qed

lemma relative_errors_add:
  fixes d u v :: rat
  assumes "\<bar>d - u\<bar> \<le> u / 2 ^ 53" "\<bar>u - v\<bar> \<le> v / 2 ^ 51" "0 \<le> v"
  shows "\<bar>d - v\<bar> \<le> v / 2 ^ 50"
  using assms unfolding abs_le_iff by (simp add: field_simps)

lemma double_mul_error:
  assumes "0 \<le> x" "0 \<le> c" "\<bar>q - x\<bar> \<le> x / 2 ^ 51"
  shows "\<bar>double_mul q c - x * c\<bar> \<le> x * c / 2 ^ 50" "0 \<le> double_mul q c"
proof -
  have "x / 2 ^ 51 \<le> x" using assms(1) by simp
  then have q: "0 \<le> q" using assms(3) by linarith
  have "\<bar>q * c - x * c\<bar> = \<bar>q - x\<bar> * c" using assms(2) by (simp add: abs_mult flip: left_diff_distrib)
  also have "\<dots> \<le> x / 2 ^ 51 * c" using assms(2,3) by (intro mult_right_mono)
  finally have near: "\<bar>q * c - x * c\<bar> \<le> x * c / 2 ^ 51" by simp
  have "\<bar>double_mul q c - q * c\<bar> \<le> q * c / 2 ^ 53"
    unfolding double_mul_def using q assms(2) by (intro to_double_error) simp
  from relative_errors_add [OF this near] assms(1,2) show "\<bar>double_mul q c - x * c\<bar> \<le> x * c / 2 ^ 50" by simp
  show "0 \<le> double_mul q c" unfolding double_mul_def using q assms(2) by (intro to_double_nonneg) simp
qed

section \<open>Text\<close>

text \<open>Reading a text with three decimals: the digits before and after the point.\<close>

definition thousandths :: "string \<Rightarrow> nat" where
  "thousandths str = 1000 * decimal_value (takeWhile is_digit str) + decimal_value (drop 1 (dropWhile is_digit str))"

lemma decimal_value_three_digits: "decimal_value (three_digits n) = n mod 1000"
proof -
  have "n mod (10 * 100) = 10 * (n div 10 mod 100) + n mod 10" by (rule mod_mult2_eq)
  moreover have "n div 10 mod (10 * 10) = 10 * (n div 10 div 10 mod 10) + n div 10 mod 10" by (rule mod_mult2_eq)
  moreover have "n div 10 div 10 = n div 100" by (simp flip: div_mult2_eq)
  ultimately have "n mod 1000 = 100 * (n div 100 mod 10) + 10 * (n div 10 mod 10) + n mod 10" by simp
  then show ?thesis by (simp add: three_digits_def decimal_value_def)
qed

lemma thousandths_text:
  "thousandths (show_decimal (n div 1000) @ ''.'' @ three_digits (n mod 1000)) = n"
proof -
  have "\<not> is_digit (CHR ''.'')" by (simp add: is_digit_def)
  then have "takeWhile is_digit (show_decimal (n div 1000) @ ''.'' @ three_digits (n mod 1000)) = show_decimal (n div 1000)"
    "dropWhile is_digit (show_decimal (n div 1000) @ ''.'' @ three_digits (n mod 1000)) = ''.'' @ three_digits (n mod 1000)"
    by (simp_all add: show_decimal_span)
  then show ?thesis by (simp add: thousandths_def decimal_value_three_digits)
qed

lemma thousandths_show_fixed: "0 \<le> x \<Longrightarrow> thousandths (show_fixed x) = nat (round_half_even (x * 1000))"
  by (simp add: show_fixed_def Let_def thousandths_text [simplified])

lemma thousandths_error:
  assumes "0 \<le> x"
  shows "\<bar>of_nat (thousandths (show_fixed x)) - x * 1000\<bar> \<le> 1 / 2"
proof -
  have "0 \<le> round_half_even (x * 1000)" using assms by (simp add: round_half_even_def Let_def)
  with round_half_even_error [of "x * 1000"] assms show ?thesis by (simp add: thousandths_show_fixed)
qed

lemma thousandths_show_decimal [simp]: "thousandths (show_decimal n) = 1000 * n"
proof -
  have "\<forall>c\<in>set (show_decimal n). is_digit c" using show_decimal_digits by blast
  then have "takeWhile is_digit (show_decimal n) = show_decimal n" "dropWhile is_digit (show_decimal n) = []" by simp_all
  moreover have "decimal_value [] = 0" by (simp add: decimal_value_def)
  ultimately show ?thesis by (simp add: thousandths_def del: takeWhile_eq_all_conv dropWhile_eq_Nil_conv)
qed

lemma to_double_nat: "n < 2 ^ 53 \<Longrightarrow> to_double (of_nat n) = of_nat n"
  using to_double_int [of "int n"] by simp

lemma duration_count_error:
  assumes "0 \<le> d" "d < 2 ^ 53" "0 < period" "period < 2 ^ 53"
  shows "\<bar>duration_count period d - of_int d / of_nat period\<bar> \<le> of_int d / of_nat period / 2 ^ 53"
    "0 \<le> duration_count period d"
proof -
  have eq: "duration_count period d = to_double (of_int d / of_nat period)"
    using assms by (simp add: duration_count_def double_div_def to_double_int to_double_nat)
  show "\<bar>duration_count period d - of_int d / of_nat period\<bar> \<le> of_int d / of_nat period / 2 ^ 53"
    "0 \<le> duration_count period d"
    unfolding eq using assms(1) by (intro to_double_error to_double_nonneg; simp)+
qed

text \<open>A count of up to \<open>2 ^ 52\<close> nanoseconds is written in microseconds without a loss.\<close>

lemma thousandths_duration:
  assumes "0 \<le> d" "d < 2 ^ 52"
  shows "int (thousandths (show_fixed (duration_count 1000 d))) = d"
proof -
  let ?x = "duration_count 1000 d"
  have x: "\<bar>?x - of_int d / 1000\<bar> \<le> of_int d / 1000 / 2 ^ 53" "0 \<le> ?x"
    using duration_count_error [of d 1000] assms by simp_all
  have "(of_int d :: rat) < of_int (2 ^ 52)" using assms by (simp only: of_int_less_iff)
  then have "(of_int d :: rat) / 1000 / 2 ^ 53 < 1 / 2000" by simp
  with x(1) have "\<bar>?x - of_int d / 1000\<bar> < 1 / 2000" by (rule order_le_less_trans)
  then have "\<bar>?x * 1000 - of_int d\<bar> < 1 / 2" by linarith
  then have "round_half_even (?x * 1000) = d" by (rule round_half_even_near)
  with x(2) assms(1) show ?thesis by (simp add: thousandths_show_fixed)
qed

lemma thousandths_milliseconds:
  assumes "0 \<le> d" "d < 2 ^ 52"
  shows "\<bar>1000 * int (thousandths (show_fixed (duration_count 1000000 d))) - d\<bar> \<le> 501"
proof -
  let ?x = "duration_count 1000000 d" and ?n = "thousandths (show_fixed (duration_count 1000000 d))"
  have x: "\<bar>?x - of_int d / 1000000\<bar> \<le> of_int d / 1000000 / 2 ^ 53" "0 \<le> ?x"
    using duration_count_error [of d 1000000] assms by simp_all
  have "(of_int d :: rat) < of_int (2 ^ 52)" using assms by (simp only: of_int_less_iff)
  then have "(of_int d :: rat) / 1000000 / 2 ^ 53 < 1 / 1000000" by simp
  with x(1) thousandths_error [OF x(2)] have "\<bar>1000 * of_nat ?n - of_int d :: rat\<bar> \<le> 501" by linarith
  then have "of_int \<bar>1000 * int ?n - d\<bar> \<le> (of_int 501 :: rat)" by simp
  then show ?thesis by (simp only: of_int_le_iff)
qed

end
