(* ===== verification/Load_Metrics.thy ===== *)
theory Load_Metrics
  imports Cpp_Double
begin

text \<open>
  \<open>include/mcrs/benchmark/metrics.hpp\<close> and \<open>src/benchmark/metrics.cpp\<close>: the statistics of the load
  client. A \<open>Latency\<close> is a count of nanoseconds. The throughput is computed in \<open>double\<close>s.
\<close>

section \<open>Data and operations\<close>

type_synonym Latency = int

datatype MetricsError = no_samples | negative_latency | non_positive_elapsed_time

record LatencySummary =
  sample_count :: size_t
  minimum :: Latency
  p50 :: Latency
  p95 :: Latency
  p99 :: Latency
  maximum :: Latency

definition nearest_rank_percentile :: "Latency list \<Rightarrow> size_t \<Rightarrow> Latency" where
  "nearest_rank_percentile sorted_samples percentile =
     (let samples = length sorted_samples;
          full_hundreds = samples div 100;
          remainder = samples mod 100;
          rank = size_add (size_mul full_hundreds percentile)
                   (size_add (size_mul remainder percentile) 99 div 100)
      in sorted_samples ! size_sub rank 1)"

definition summarize_latencies :: "Latency list \<Rightarrow> (LatencySummary, MetricsError) expected" where
  "summarize_latencies samples =
     (if samples = [] then Inl no_samples
      else if list_ex (\<lambda>sample. sample < 0) samples then Inl negative_latency
      else
        let sorted_samples = sort samples
        in Inr \<lparr>sample_count = length sorted_samples, minimum = hd sorted_samples,
                p50 = nearest_rank_percentile sorted_samples 50,
                p95 = nearest_rank_percentile sorted_samples 95,
                p99 = nearest_rank_percentile sorted_samples 99,
                maximum = last sorted_samples\<rparr>)"

definition calculate_throughput :: "size_t \<Rightarrow> Latency \<Rightarrow> (double, MetricsError) expected" where
  "calculate_throughput completed_operations elapsed =
     (if elapsed \<le> 0 then Inl non_positive_elapsed_time
      else let elapsed_seconds = duration_count 1000000000 elapsed
           in Inr (double_div (to_double (of_nat completed_operations)) elapsed_seconds))"

section \<open>The nearest rank\<close>

lemma ceil_hundredths:
  fixes m :: nat
  shows "m \<le> 100 * ((m + 99) div 100)" "100 * ((m + 99) div 100) < m + 100"
proof -
  have "100 * ((m + 99) div 100) + (m + 99) mod 100 = m + 99" by (rule mult_div_mod_eq)
  moreover have "(m + 99) mod 100 < 100" by simp
  ultimately show "m \<le> 100 * ((m + 99) div 100)" "100 * ((m + 99) div 100) < m + 100"
    by linarith+
qed

lemma rank_bounds:
  fixes n p :: nat
  assumes "0 < n" "0 < p" "p \<le> 100"
  defines "rank \<equiv> (n div 100) * p + ((n mod 100) * p + 99) div 100"
  shows "n * p \<le> 100 * rank" "100 * (rank - 1) < n * p" "0 < rank" "rank \<le> n"
proof -
  let ?m = "(n mod 100) * p"
  have "n * p = (100 * (n div 100) + n mod 100) * p" by (metis mult_div_mod_eq)
  then have split: "n * p = 100 * ((n div 100) * p) + ?m" by (simp only: add_mult_distrib mult.assoc)
  note c = ceil_hundredths [of ?m]
  show low: "n * p \<le> 100 * rank" unfolding split rank_def using c(1) by simp
  have high: "100 * rank < n * p + 100" unfolding split rank_def using c(2) by simp
  have "0 < n * p" using assms by simp
  then show pos: "0 < rank" using low by (cases rank) simp_all
  show "100 * (rank - 1) < n * p" using high pos by (cases rank) simp_all
  have "n * p \<le> n * 100" using assms(3) by simp
  with high have "100 * rank < n * 100 + 100" by linarith
  then show "rank \<le> n" by simp
qed

text \<open>
  \<open>v\<close> is the \<open>p\<close>-th percentile by nearest rank: a sample such that at least \<open>p\<close> percent of the
  samples are at most \<open>v\<close>, and fewer than \<open>p\<close> percent are below it.
\<close>

definition is_percentile :: "nat \<Rightarrow> Latency \<Rightarrow> Latency list \<Rightarrow> bool" where
  "is_percentile p v samples \<longleftrightarrow> v \<in> set samples
     \<and> p * length samples \<le> 100 * length (filter (\<lambda>x. x \<le> v) samples)
     \<and> 100 * length (filter (\<lambda>x. x < v) samples) < p * length samples"

lemma sorted_counts:
  fixes xs :: "int list"
  assumes "sorted xs" "k < length xs"
  shows "Suc k \<le> length (filter (\<lambda>x. x \<le> xs ! k) xs)" "length (filter (\<lambda>x. x < xs ! k) xs) \<le> k"
proof -
  have low: "x \<le> xs ! k" if "x \<in> set (take (Suc k) xs)" for x
    using that assms by (auto simp: in_set_conv_nth sorted_iff_nth_mono)
  have "filter (\<lambda>x. x \<le> xs ! k) (take (Suc k) xs) = take (Suc k) xs"
    using low by (simp add: filter_id_conv)
  then have "Suc k \<le> length (filter (\<lambda>x. x \<le> xs ! k) (take (Suc k) xs))" using assms(2) by simp
  moreover have "length (filter P (take n xs)) \<le> length (filter P xs)" for P n
    by (metis append_take_drop_id filter_append le_add1 length_append)
  ultimately show "Suc k \<le> length (filter (\<lambda>x. x \<le> xs ! k) xs)" using le_trans by blast
  have "xs ! k \<le> xs ! (k + i)" if "i < length xs - k" for i
    using that assms by (intro sorted_nth_mono) simp_all
  then have "\<not> x < xs ! k" if "x \<in> set (drop k xs)" for x
    using that assms(2) by (fastforce simp: in_set_conv_nth)
  then have "filter (\<lambda>x. x < xs ! k) (drop k xs) = []" by (auto simp: filter_empty_conv)
  then have "filter (\<lambda>x. x < xs ! k) xs = filter (\<lambda>x. x < xs ! k) (take k xs)"
    by (metis append_take_drop_id append_Nil2 filter_append)
  then show "length (filter (\<lambda>x. x < xs ! k) xs) \<le> k"
    by (metis length_filter_le length_take min.cobounded2 order_trans)
qed

lemma nearest_rank_is_percentile:
  assumes "samples \<noteq> []" "length samples < 2 ^ 64" "0 < p" "p \<le> 100"
  shows "is_percentile p (nearest_rank_percentile (sort samples) p) samples"
proof -
  define n where "n = length samples"
  define rank where "rank = (n div 100) * p + ((n mod 100) * p + 99) div 100"
  have n: "0 < n" using assms(1) by (simp add: n_def)
  note bounds = rank_bounds [OF n assms(3,4), folded rank_def]
  have small: "(n mod 100) * p \<le> 99 * 100" using assms(4) by (intro mult_mono) simp_all
  have "(n div 100) * p \<le> rank" by (simp add: rank_def)
  with bounds(4) assms(2) have "(n div 100) * p < 2 ^ 64" unfolding n_def by linarith
  then have high: "size_mul (n div 100) p = (n div 100) * p" by (rule size_mul_exact)
  have low: "size_mul (n mod 100) p = (n mod 100) * p" using small by (intro size_mul_exact) simp
  have up: "size_add ((n mod 100) * p) 99 = (n mod 100) * p + 99"
    using small by (intro size_add_exact) simp
  have "rank < 2 ^ 64" using bounds(4) assms(2) unfolding n_def by linarith
  then have "size_add ((n div 100) * p) (((n mod 100) * p + 99) div 100) = rank"
    unfolding rank_def by (rule size_add_exact)
  then have "size_add (size_mul (n div 100) p) (size_add (size_mul (n mod 100) p) 99 div 100) = rank"
    by (simp only: high low up)
  then have value_eq: "nearest_rank_percentile (sort samples) p = sort samples ! (rank - 1)"
    using bounds(3) by (simp add: nearest_rank_percentile_def n_def)
  have k: "rank - 1 < length (sort samples)" using bounds(3,4) by (simp add: n_def)
  have same: "length (filter P (sort samples)) = length (filter P samples)" for P
    by (metis filter_sort length_sort)
  note counts = sorted_counts [OF sorted_sort k, unfolded same]
  have "sort samples ! (rank - 1) \<in> set samples" using nth_mem [OF k] by simp
  then show ?thesis
    unfolding is_percentile_def value_eq
    using counts bounds by (simp add: n_def mult.commute [of p])
qed

lemma hd_sort_least:
  assumes "samples \<noteq> []" "x \<in> set samples"
  shows "hd (sort samples) \<le> (x :: int)"
proof -
  have "x \<in> set (sort samples)" using assms(2) by simp
  then show ?thesis using sorted_sort [of samples] by (cases "sort samples") (auto simp del: set_sort)
qed

lemma last_sort_greatest:
  assumes "samples \<noteq> []" "x \<in> set samples"
  shows "(x :: int) \<le> last (sort samples)"
proof -
  have ne: "sort samples \<noteq> []" using assms(1) by (simp flip: set_empty)
  obtain i where i: "i < length (sort samples)" "x = sort samples ! i"
    using assms(2) by (metis in_set_conv_nth set_sort)
  then have "sort samples ! i \<le> sort samples ! (length (sort samples) - 1)"
    by (intro sorted_nth_mono) (auto simp: sorted_sort)
  then show ?thesis using i ne by (simp add: last_conv_nth)
qed

lemma hd_last_sort_in:
  assumes "samples \<noteq> []"
  shows "hd (sort samples) \<in> set samples" "last (sort samples) \<in> set samples"
proof -
  have "sort samples \<noteq> []" using assms by (simp flip: set_empty)
  then show "hd (sort samples) \<in> set samples" "last (sort samples) \<in> set samples"
    by (metis hd_in_set set_sort, metis last_in_set set_sort)
qed

text \<open>Every figure of a summary is one of the samples.\<close>

lemma summary_figures:
  assumes "summarize_latencies samples = Inr s" "length samples < 2 ^ 64"
  shows "set [minimum s, p50 s, p95 s, p99 s, maximum s] \<subseteq> set samples" "sample_count s = length samples"
proof -
  have ne: "samples \<noteq> []" using assms(1) by (auto simp: summarize_latencies_def)
  note rank = nearest_rank_is_percentile [OF ne assms(2), unfolded is_percentile_def, THEN conjunct1]
  from assms(1) rank [of 50] rank [of 95] rank [of 99] hd_last_sort_in [OF ne]
  show "set [minimum s, p50 s, p95 s, p99 s, maximum s] \<subseteq> set samples" "sample_count s = length samples"
    by (auto simp: summarize_latencies_def Let_def split: if_splits)
qed

text \<open>The throughput is the exact quotient up to three roundings.\<close>

lemma throughput_accurate:
  assumes "calculate_throughput n e = Inr q" "n < 2 ^ 53" "e < 2 ^ 53"
  shows "\<bar>q - of_nat n * 1000000000 / of_int e\<bar> \<le> of_nat n * 1000000000 / of_int e / 2 ^ 51" "0 \<le> q"
proof -
  have e: "0 < e" and q: "q = double_div (of_nat n) (duration_count 1000000000 e)"
    using assms(1,2) by (simp_all add: calculate_throughput_def Let_def to_double_nat split: if_splits)
  have "\<bar>duration_count 1000000000 e - of_int e / 1000000000\<bar> \<le> of_int e / 1000000000 / 2 ^ 53"
    using duration_count_error(1) [of e 1000000000] e assms(3) by simp
  with e show near: "\<bar>q - of_nat n * 1000000000 / of_int e\<bar> \<le> of_nat n * 1000000000 / of_int e / 2 ^ 51"
    using double_div_error [of "of_nat n" "of_int e / 1000000000" "duration_count 1000000000 e"] by (simp add: q)
  have "0 \<le> of_nat n * 1000000000 / (of_int e :: rat)" using e by simp
  with near show "0 \<le> q" by (simp add: abs_le_iff)
qed

section \<open>Properties\<close>

text \<open>
  C40: The latency summary means what it says, whatever the order of the samples: it counts
  them, its minimum and maximum are the least and the greatest sample, and \<open>p50\<close>, \<open>p95\<close> and
  \<open>p99\<close> are nearest-rank percentiles: samples at or below which lies at least that share of
  the samples and below which lies less. It is an error exactly when there is no sample or a
  negative one; no rank computed from a sample count of \<open>size_t\<close> leaves the array.
\<close>
theorem latency_summary_correct:
  assumes "length samples < 2 ^ 64"
  shows "case summarize_latencies samples of
      Inl e \<Rightarrow> (e = no_samples \<and> samples = [])
        \<or> (e = negative_latency \<and> (\<exists>x\<in>set samples. x < 0))
    | Inr s \<Rightarrow> samples \<noteq> [] \<and> (\<forall>x\<in>set samples. 0 \<le> x)
        \<and> sample_count s = length samples
        \<and> minimum s \<in> set samples \<and> (\<forall>x\<in>set samples. minimum s \<le> x)
        \<and> maximum s \<in> set samples \<and> (\<forall>x\<in>set samples. x \<le> maximum s)
        \<and> is_percentile 50 (p50 s) samples \<and> is_percentile 95 (p95 s) samples
        \<and> is_percentile 99 (p99 s) samples"
proof (cases "samples = [] \<or> list_ex (\<lambda>x. x < 0) samples")
  case True
  then show ?thesis by (auto simp: summarize_latencies_def list_ex_iff)
next
  case False
  then have ne: "samples \<noteq> []" and pos: "\<not> list_ex (\<lambda>x. x < 0) samples" by simp_all
  note rank = nearest_rank_is_percentile [OF ne assms]
  have "\<forall>x\<in>set samples. 0 \<le> x" using pos by (auto simp: list_ex_iff)
  with ne pos rank [of 50] rank [of 95] rank [of 99] hd_last_sort_in [OF ne]
    hd_sort_least [OF ne] last_sort_greatest [OF ne]
  show ?thesis by (simp add: summarize_latencies_def Let_def)
qed

theorem latency_summary_correct_witness:
  "summarize_latencies [30, 10, 20, 40] =
     Inr \<lparr>sample_count = 4, minimum = 10, p50 = 20, p95 = 40, p99 = 40, maximum = 40\<rparr>
   \<and> is_percentile 50 20 [30, 10, 20, 40]"
proof -
  have sum: "summarize_latencies [30, 10, 20, 40] =
     Inr \<lparr>sample_count = 4, minimum = 10, p50 = 20, p95 = 40, p99 = 40, maximum = 40\<rparr>"
    by (simp add: summarize_latencies_def nearest_rank_percentile_def size_mul_def)
  with latency_summary_correct [of "[30, 10, 20, 40]"] show ?thesis by simp
qed

end
