(* ===== verification/Load_Client.thy ===== *)
theory Load_Client
  imports Load_Config Load_Reader Load_Metrics
begin

text \<open>
  The load client, \<open>src/benchmark/load_client.cpp\<close>: the state the bots of a run share, the
  coroutine of a bot cut at its suspension points, and the run of all bots on their single
  thread.

  A bot is suspended in \<open>bot_phase\<close>: connecting, writing a packet, reading, or in a gate. The
  functions below are the code between two suspension points; what the suspended operation
  delivers (an error message, bytes, nothing) and the values of \<open>Clock::now()\<close> are arguments. In
  the code between two suspension points at most one move is completed and one begun, so a
  \<open>clock\<close> is the pair of the times of the two. \<open>bot_passed\<close> is a history variable: the number of
  the run state's counters the bot has advanced; the code never reads it.
\<close>

section \<open>The state of a run\<close>

type_synonym time_point = int

record MoveSample =
  started_at :: time_point
  completed_at :: time_point

record RunState =
  rs_client_count :: size_t
  rs_expected_samples :: size_t
  rs_ready_clients :: size_t
  rs_warmed_up_clients :: size_t
  rs_measurement_barrier_clients :: size_t
  rs_completed_clients :: size_t
  rs_latencies :: "Latency list"
  rs_measurement_started_at :: "time_point option"
  rs_measurement_completed_at :: "time_point option"
  rs_failure :: "string option"

text \<open>The memory reserved for the samples is not modelled.\<close>

definition RunState_new :: "LoadTestConfig \<Rightarrow> RunState" where
  "RunState_new config =
     \<lparr>rs_client_count = cfg_client_count config,
      rs_expected_samples = size_mul (cfg_client_count config) (cfg_measured_moves_per_client config),
      rs_ready_clients = 0, rs_warmed_up_clients = 0, rs_measurement_barrier_clients = 0,
      rs_completed_clients = 0, rs_latencies = [], rs_measurement_started_at = None,
      rs_measurement_completed_at = None, rs_failure = None\<rparr>"

definition client_ready :: "RunState \<Rightarrow> RunState" where
  "client_ready st = st\<lparr>rs_ready_clients := size_add (rs_ready_clients st) 1\<rparr>"

definition client_warmed_up :: "RunState \<Rightarrow> RunState" where
  "client_warmed_up st = st\<lparr>rs_warmed_up_clients := size_add (rs_warmed_up_clients st) 1\<rparr>"

definition client_reached_measurement_barrier :: "RunState \<Rightarrow> RunState" where
  "client_reached_measurement_barrier st =
     st\<lparr>rs_measurement_barrier_clients := size_add (rs_measurement_barrier_clients st) 1\<rparr>"

definition client_completed :: "RunState \<Rightarrow> RunState" where
  "client_completed st = st\<lparr>rs_completed_clients := size_add (rs_completed_clients st) 1\<rparr>"

definition all_clients_ready :: "RunState \<Rightarrow> bool" where
  "all_clients_ready st \<longleftrightarrow> rs_ready_clients st = rs_client_count st"

definition all_clients_warmed_up :: "RunState \<Rightarrow> bool" where
  "all_clients_warmed_up st \<longleftrightarrow> rs_warmed_up_clients st = rs_client_count st"

definition all_clients_reached_measurement_barrier :: "RunState \<Rightarrow> bool" where
  "all_clients_reached_measurement_barrier st \<longleftrightarrow>
     rs_measurement_barrier_clients st = rs_client_count st"

definition all_clients_completed :: "RunState \<Rightarrow> bool" where
  "all_clients_completed st \<longleftrightarrow> rs_completed_clients st = rs_client_count st"

definition record_sample :: "MoveSample \<Rightarrow> RunState \<Rightarrow> RunState" where
  "record_sample sample st =
     (let st1 = (case rs_measurement_started_at st of
            Some t \<Rightarrow> if started_at sample < t
              then st\<lparr>rs_measurement_started_at := Some (started_at sample)\<rparr> else st
          | None \<Rightarrow> st\<lparr>rs_measurement_started_at := Some (started_at sample)\<rparr>);
          st2 = (case rs_measurement_completed_at st1 of
            Some t \<Rightarrow> if completed_at sample > t
              then st1\<lparr>rs_measurement_completed_at := Some (completed_at sample)\<rparr> else st1
          | None \<Rightarrow> st1\<lparr>rs_measurement_completed_at := Some (completed_at sample)\<rparr>)
      in st2\<lparr>rs_latencies := rs_latencies st2 @ [completed_at sample - started_at sample]\<rparr>)"

definition fail_run :: "string \<Rightarrow> RunState \<Rightarrow> RunState" where
  "fail_run message st =
     (if rs_failure st = None then st\<lparr>rs_failure := Some message\<rparr> else st)"

definition run_failed :: "RunState \<Rightarrow> bool" where
  "run_failed st \<longleftrightarrow> rs_failure st \<noteq> None"

definition elapsed :: "RunState \<Rightarrow> Latency option" where
  "elapsed st =
     (case (rs_measurement_started_at st, rs_measurement_completed_at st) of
        (Some started, Some completed) \<Rightarrow>
          if length (rs_latencies st) \<noteq> rs_expected_samples st then None
          else Some (completed - started)
      | _ \<Rightarrow> None)"

section \<open>A bot\<close>

datatype move_kind = Warmup_move size_t | Barrier_move | Measured_move size_t

datatype after_write = After_join | After_move move_kind time_point | After_leave

datatype awaited = For_entry | For_move move_kind time_point | For_barrier | For_leaves size_t

datatype gate = Gate_ready | Gate_warmed_up | Gate_barrier | Gate_completed

datatype bot_phase =
    Bot_connecting
  | Bot_writing "byte list" after_write
  | Bot_reading awaited
  | Bot_gate gate
  | Bot_returned
  | Bot_threw string
  | Bot_reported

record Bot =
  bot_index :: size_t
  bot_buffer :: ReceiveBuffer
  bot_phase :: bot_phase
  bot_passed :: nat

type_synonym bot_state = "RunState \<times> Bot"
type_synonym clock = "time_point \<times> time_point"

definition network_error :: "string \<Rightarrow> string \<Rightarrow> string" where
  "network_error operation message = operation @ '': '' @ message"

definition bot_goes :: "bot_phase \<Rightarrow> bot_state \<Rightarrow> bot_state" where
  "bot_goes phase = map_prod id (\<lambda>me. me\<lparr>bot_phase := phase\<rparr>)"

text \<open>\<open>send_packet\<close>, up to the write.\<close>

definition send_packet :: "PacketType \<Rightarrow> byte list \<Rightarrow> after_write \<Rightarrow> bot_state \<Rightarrow> bot_state" where
  "send_packet type bytes next s =
     (case encode_packet type bytes of
        Inl e \<Rightarrow> bot_goes (Bot_threw (''encode packet: '' @ EncodeError_to_string e)) s
      | Inr packet \<Rightarrow> bot_goes (Bot_writing packet next) s)"

text \<open>
  A wait, up to its end or to the read that suspends it: the result of one of the waiting
  loops of the reader on the bot's buffer.
\<close>

fun bot_waits :: "(unit fetched \<times> ReceiveBuffer) option \<Rightarrow> awaited \<Rightarrow> (bot_state \<Rightarrow> bot_state option)
    \<Rightarrow> bot_state \<Rightarrow> bot_state option" where
  "bot_waits None what continue s = None"
| "bot_waits (Some (r, b)) what continue (st, me) =
     (let s = (st, me\<lparr>bot_buffer := b\<rparr>)
      in case r of
           Fetched _ \<Rightarrow> continue s
         | More_bytes \<Rightarrow> Some (bot_goes (Bot_reading what) s)
         | Reader_threw message \<Rightarrow> Some (bot_goes (Bot_threw message) s))"

fun gate_open :: "gate \<Rightarrow> RunState \<Rightarrow> bool" where
  "gate_open Gate_ready st = all_clients_ready st"
| "gate_open Gate_warmed_up st = all_clients_warmed_up st"
| "gate_open Gate_barrier st = all_clients_reached_measurement_barrier st"
| "gate_open Gate_completed st = all_clients_completed st"

definition wait_for_gate :: "gate \<Rightarrow> (bot_state \<Rightarrow> bot_state option) \<Rightarrow> bot_state \<Rightarrow> bot_state option" where
  "wait_for_gate g continue s =
     (if gate_open g (fst s) then continue s
      else if run_failed (fst s) then Some (bot_goes (Bot_threw ''another load client failed'') s)
      else Some (bot_goes (Bot_gate g) s))"

fun move_coordinates :: "LoadTestConfig \<Rightarrow> size_t \<Rightarrow> move_kind \<Rightarrow> int32 \<times> int32" where
  "move_coordinates config client_index (Warmup_move sequence) =
     (client_coordinate client_index, warmup_coordinate sequence)"
| "move_coordinates config client_index Barrier_move = (barrier_coordinate, barrier_coordinate)"
| "move_coordinates config client_index (Measured_move sequence) =
     (client_coordinate client_index, measured_coordinate config sequence)"

text \<open>\<open>perform_move\<close>, up to the write.\<close>

definition perform_move :: "LoadTestConfig \<Rightarrow> move_kind \<Rightarrow> time_point \<Rightarrow> bot_state \<Rightarrow> bot_state" where
  "perform_move config kind started s =
     (let (x, y) = move_coordinates config (bot_index (snd s)) kind
      in send_packet move (encode_move_payload \<lparr>move_x = x, move_y = y\<rparr>) (After_move kind started) s)"

definition bot_counts :: "(RunState \<Rightarrow> RunState) \<Rightarrow> nat \<Rightarrow> bot_state \<Rightarrow> bot_state" where
  "bot_counts advance k = map_prod advance (\<lambda>me. me\<lparr>bot_passed := k\<rparr>)"

section \<open>The coroutine, from its end to its beginning\<close>

fun await_leaves :: "size_t \<Rightarrow> bot_state \<Rightarrow> bot_state option" where
  "await_leaves observed (st, me) =
     (case observe_leaves (bot_index me) observed (bot_buffer me) of
        None \<Rightarrow> None
      | Some (r, n, b) \<Rightarrow>
          bot_waits (Some (r, b)) (For_leaves n) (\<lambda>s. Some (send_packet leave_room [] After_leave s)) (st, me))"

definition measured_moves :: "LoadTestConfig \<Rightarrow> time_point \<Rightarrow> size_t \<Rightarrow> bot_state \<Rightarrow> bot_state option" where
  "measured_moves config now sequence s =
     (if sequence < cfg_measured_moves_per_client config
      then Some (perform_move config (Measured_move sequence) now s)
      else wait_for_gate Gate_completed (await_leaves 0) (bot_counts client_completed 4 s))"

definition reach_barrier :: "LoadTestConfig \<Rightarrow> time_point \<Rightarrow> bot_state \<Rightarrow> bot_state option" where
  "reach_barrier config now s =
     wait_for_gate Gate_barrier (measured_moves config now 0)
       (bot_counts client_reached_measurement_barrier 3 s)"

definition await_barrier :: "LoadTestConfig \<Rightarrow> time_point \<Rightarrow> bot_state \<Rightarrow> bot_state option" where
  "await_barrier config now s =
     bot_waits (wait_for_move_event barrier_coordinate barrier_coordinate (bot_buffer (snd s)))
       For_barrier (reach_barrier config now) s"

definition measurement_barrier :: "LoadTestConfig \<Rightarrow> time_point \<Rightarrow> bot_state \<Rightarrow> bot_state option" where
  "measurement_barrier config now s =
     (if bot_index (snd s) = 0 then Some (perform_move config Barrier_move now s)
      else await_barrier config now s)"

definition warmup_moves :: "LoadTestConfig \<Rightarrow> time_point \<Rightarrow> size_t \<Rightarrow> bot_state \<Rightarrow> bot_state option" where
  "warmup_moves config now sequence s =
     (if sequence < cfg_warmup_moves_per_client config
      then Some (perform_move config (Warmup_move sequence) now s)
      else wait_for_gate Gate_warmed_up (measurement_barrier config now)
             (bot_counts client_warmed_up 2 s))"

fun move_completed ::
  "LoadTestConfig \<Rightarrow> move_kind \<Rightarrow> time_point \<Rightarrow> clock \<Rightarrow> bot_state \<Rightarrow> bot_state option" where
  "move_completed config (Warmup_move sequence) started clock s =
     warmup_moves config (snd clock) (size_add sequence 1) s"
| "move_completed config Barrier_move started clock s = reach_barrier config (snd clock) s"
| "move_completed config (Measured_move sequence) started clock s =
     measured_moves config (snd clock) (size_add sequence 1)
       (map_prod (record_sample \<lparr>started_at = started, completed_at = fst clock\<rparr>) id s)"

definition await_move ::
  "LoadTestConfig \<Rightarrow> move_kind \<Rightarrow> time_point \<Rightarrow> clock \<Rightarrow> bot_state \<Rightarrow> bot_state option" where
  "await_move config kind started clock s =
     (let (x, y) = move_coordinates config (bot_index (snd s)) kind
      in bot_waits (wait_for_move_event x y (bot_buffer (snd s))) (For_move kind started)
           (move_completed config kind started clock) s)"

definition await_entry :: "LoadTestConfig \<Rightarrow> time_point \<Rightarrow> bot_state \<Rightarrow> bot_state option" where
  "await_entry config now s =
     bot_waits (wait_for_room_entry (bot_buffer (snd s))) For_entry
       (\<lambda>s. wait_for_gate Gate_ready (warmup_moves config now 0) (bot_counts client_ready 1 s)) s"

section \<open>What resumes a bot\<close>

definition connect_completed :: "string option \<Rightarrow> bot_state \<Rightarrow> bot_state" where
  "connect_completed error s =
     (case error of
        Some message \<Rightarrow> bot_goes (Bot_threw (network_error ''connect'' message)) s
      | None \<Rightarrow> send_packet join_room [] After_join s)"

definition bot_write_completed ::
  "LoadTestConfig \<Rightarrow> clock \<Rightarrow> string option \<Rightarrow> after_write \<Rightarrow> bot_state \<Rightarrow> bot_state option" where
  "bot_write_completed config clock error next s =
     (case error of
        Some message \<Rightarrow> Some (bot_goes (Bot_threw (network_error ''write packet'' message)) s)
      | None \<Rightarrow>
          (case next of
             After_join \<Rightarrow> await_entry config (snd clock) s
           | After_move kind started \<Rightarrow> await_move config kind started clock s
           | After_leave \<Rightarrow> Some (bot_goes Bot_returned s)))"

fun resume_wait :: "LoadTestConfig \<Rightarrow> clock \<Rightarrow> awaited \<Rightarrow> bot_state \<Rightarrow> bot_state option" where
  "resume_wait config clock For_entry s = await_entry config (snd clock) s"
| "resume_wait config clock (For_move kind started) s = await_move config kind started clock s"
| "resume_wait config clock For_barrier s = await_barrier config (snd clock) s"
| "resume_wait config clock (For_leaves observed) s = await_leaves observed s"

fun bot_read_completed ::
  "LoadTestConfig \<Rightarrow> growth \<Rightarrow> clock \<Rightarrow> (byte list, string) expected \<Rightarrow> awaited \<Rightarrow> bot_state
    \<Rightarrow> bot_state option" where
  "bot_read_completed config grow clock (Inl message) what s =
     Some (bot_goes (Bot_threw (network_error ''read packet'' message)) s)"
| "bot_read_completed config grow clock (Inr bytes) what (st, me) =
     (case ReceiveBuffer_append grow (bot_buffer me) bytes of
        Inl _ \<Rightarrow> Some (bot_goes (Bot_threw ''receive buffer limit exceeded'') (st, me))
      | Inr b \<Rightarrow> resume_wait config clock what (st, me\<lparr>bot_buffer := b\<rparr>))"

fun gate_timer_expired :: "LoadTestConfig \<Rightarrow> clock \<Rightarrow> gate \<Rightarrow> bot_state \<Rightarrow> bot_state option" where
  "gate_timer_expired config clock Gate_ready s =
     wait_for_gate Gate_ready (warmup_moves config (snd clock) 0) s"
| "gate_timer_expired config clock Gate_warmed_up s =
     wait_for_gate Gate_warmed_up (measurement_barrier config (snd clock)) s"
| "gate_timer_expired config clock Gate_barrier s =
     wait_for_gate Gate_barrier (measured_moves config (snd clock) 0) s"
| "gate_timer_expired config clock Gate_completed s =
     wait_for_gate Gate_completed (await_leaves 0) s"

text \<open>The wait of a gate throws when its timer fails.\<close>

definition gate_timer_failed :: "string \<Rightarrow> bot_state \<Rightarrow> bot_state" where
  "gate_timer_failed what s = bot_goes (Bot_threw what) s"

text \<open>
  The completion handler of a bot's coroutine that ended with an exception. Everything the bot
  throws is an \<open>std::exception\<close>.
\<close>

definition report_exception :: "cpp_exception \<Rightarrow> bot_state \<Rightarrow> bot_state" where
  "report_exception exception s =
     (let client = ''client '' @ show_decimal (size_add (bot_index (snd s)) 1)
      in bot_goes Bot_reported (map_prod (fail_run
           (case exception of
              Std_exception what \<Rightarrow> client @ '' failed: '' @ what
            | Other_exception \<Rightarrow> client @ '' failed with an unknown exception'')) id s))"

inductive bot_step :: "LoadTestConfig \<Rightarrow> growth \<Rightarrow> clock \<Rightarrow> bot_state \<Rightarrow> bot_state \<Rightarrow> bool"
  for config grow clock where
  bot_connects: "bot_phase me = Bot_connecting \<Longrightarrow>
    bot_step config grow clock (st, me) (connect_completed error (st, me))"
| bot_writes: "bot_phase me = Bot_writing packet next \<Longrightarrow>
    bot_write_completed config clock error next (st, me) = Some s \<Longrightarrow>
    bot_step config grow clock (st, me) s"
| bot_reads: "bot_phase me = Bot_reading what \<Longrightarrow>
    (\<forall>bytes. result = Inr bytes \<longrightarrow> length bytes \<le> read_chunk_size) \<Longrightarrow>
    bot_read_completed config grow clock result what (st, me) = Some s \<Longrightarrow>
    bot_step config grow clock (st, me) s"
| bot_checks_gate: "bot_phase me = Bot_gate g \<Longrightarrow>
    gate_timer_expired config clock g (st, me) = Some s \<Longrightarrow>
    bot_step config grow clock (st, me) s"
| bot_timer_fails: "bot_phase me = Bot_gate g \<Longrightarrow>
    bot_step config grow clock (st, me) (gate_timer_failed what (st, me))"
| bot_reports: "bot_phase me = Bot_threw what \<Longrightarrow>
    bot_step config grow clock (st, me) (report_exception (Std_exception what) (st, me))"

section \<open>The run\<close>

record LoadTest =
  lt_state :: RunState
  lt_bots :: "Bot list"
  lt_clock :: time_point

definition Bot_new :: "growth \<Rightarrow> size_t \<Rightarrow> Bot" where
  "Bot_new grow client_index =
     \<lparr>bot_index = client_index, bot_buffer = ReceiveBuffer_new grow max_receive_buffer_size (4 * 1024),
      bot_phase = Bot_connecting, bot_passed = 0\<rparr>"

text \<open>
  \<open>run_load_test\<close> up to \<open>context.run()\<close>; \<open>is_address\<close> tells which hosts \<open>asio::ip::make_address\<close>
  takes.
\<close>

definition start_load_test ::
  "(string \<Rightarrow> bool) \<Rightarrow> growth \<Rightarrow> time_point \<Rightarrow> LoadTestConfig \<Rightarrow> (LoadTest, string) expected" where
  "start_load_test is_address grow now config =
     (case validate_config config of
        Some error \<Rightarrow> Inl error
      | None \<Rightarrow>
          if \<not> is_address (cfg_host config) then Inl ''host must be a numeric IPv4 or IPv6 address''
          else Inr \<lparr>lt_state = RunState_new config,
                    lt_bots = map (Bot_new grow) [0..<cfg_client_count config], lt_clock = now\<rparr>)"

text \<open>Any bot may be resumed next; time does not run backwards.\<close>

inductive load_step :: "LoadTestConfig \<Rightarrow> growth \<Rightarrow> LoadTest \<Rightarrow> LoadTest \<Rightarrow> bool" for config grow where
  resume_bot: "i < length (lt_bots t) \<Longrightarrow> lt_clock t \<le> fst clock \<Longrightarrow> fst clock \<le> snd clock \<Longrightarrow>
    bot_step config grow clock (lt_state t, lt_bots t ! i) (st, me) \<Longrightarrow>
    load_step config grow t \<lparr>lt_state = st, lt_bots = (lt_bots t)[i := me], lt_clock = snd clock\<rparr>"

inductive load_run :: "LoadTestConfig \<Rightarrow> growth \<Rightarrow> LoadTest \<Rightarrow> LoadTest \<Rightarrow> bool" for config grow where
  load_start: "load_run config grow t t"
| load_more: "load_run config grow t t1 \<Longrightarrow> load_step config grow t1 t2 \<Longrightarrow> load_run config grow t t2"

text \<open>\<open>context.run()\<close> returns when no bot has anything outstanding.\<close>

definition load_finished :: "LoadTest \<Rightarrow> bool" where
  "load_finished t \<longleftrightarrow> list_all (\<lambda>me. bot_phase me = Bot_returned \<or> bot_phase me = Bot_reported) (lt_bots t)"

record LoadTestResult =
  res_config :: LoadTestConfig
  res_latency :: LatencySummary
  res_elapsed :: Latency
  res_commands_per_second :: double
  res_estimated_deliveries_per_second :: double

text \<open>\<open>run_load_test\<close> after \<open>context.run()\<close>.\<close>

definition load_test_result :: "LoadTestConfig \<Rightarrow> RunState \<Rightarrow> (LoadTestResult, string) expected" where
  "load_test_result config st =
     (case rs_failure st of
        Some message \<Rightarrow> Inl message
      | None \<Rightarrow>
          (case elapsed st of
             None \<Rightarrow> Inl ''load test completed without the expected samples''
           | Some el \<Rightarrow>
               (case (summarize_latencies (rs_latencies st),
                      calculate_throughput (length (rs_latencies st)) el) of
                  (Inr latency, Inr throughput) \<Rightarrow>
                    Inr \<lparr>res_config = config, res_latency = latency, res_elapsed = el,
                         res_commands_per_second = throughput,
                         res_estimated_deliveries_per_second =
                           double_mul throughput (to_double (of_nat (cfg_client_count config)))\<rparr>
                | _ \<Rightarrow> Inl ''failed to summarize load test metrics'')))"

end
