(* ===== verification/Load_Run.thy ===== *)
theory Load_Run
  imports Load_Client
begin

text \<open>
  The run of the load client: what every bot and the state they share satisfy between two
  steps, proved function by function along the coroutine, and from it the theorems about the
  gates, the samples and the result of a run.
\<close>

section \<open>Where a bot is\<close>

text \<open>
  The counters a bot has advanced by the time it is in a phase (\<open>rank\<close>; unknown after an
  exception), the counters every bot must have advanced for it to be there (\<open>floor\<close>), and the
  samples it has recorded.
\<close>

fun kind_rank :: "move_kind \<Rightarrow> nat" where
  "kind_rank (Warmup_move _) = 1"
| "kind_rank Barrier_move = 2"
| "kind_rank (Measured_move _) = 3"

fun write_rank :: "after_write \<Rightarrow> nat" where
  "write_rank After_join = 0"
| "write_rank (After_move kind _) = kind_rank kind"
| "write_rank After_leave = 4"

fun awaited_rank :: "awaited \<Rightarrow> nat" where
  "awaited_rank For_entry = 0"
| "awaited_rank (For_move kind _) = kind_rank kind"
| "awaited_rank For_barrier = 2"
| "awaited_rank (For_leaves _) = 4"

fun gate_rank :: "gate \<Rightarrow> nat" where
  "gate_rank Gate_ready = 1"
| "gate_rank Gate_warmed_up = 2"
| "gate_rank Gate_barrier = 3"
| "gate_rank Gate_completed = 4"

fun phase_rank :: "bot_phase \<Rightarrow> nat option" where
  "phase_rank Bot_connecting = Some 0"
| "phase_rank (Bot_writing _ next) = Some (write_rank next)"
| "phase_rank (Bot_reading what) = Some (awaited_rank what)"
| "phase_rank (Bot_gate g) = Some (gate_rank g)"
| "phase_rank Bot_returned = Some 4"
| "phase_rank (Bot_threw _) = None"
| "phase_rank Bot_reported = None"

fun phase_floor :: "bot_phase \<Rightarrow> nat" where
  "phase_floor (Bot_gate g) = gate_rank g - 1"
| "phase_floor phase = (case phase_rank phase of None \<Rightarrow> 0 | Some k \<Rightarrow> k)"

fun kind_samples :: "move_kind \<Rightarrow> nat" where
  "kind_samples (Measured_move sequence) = sequence"
| "kind_samples _ = 0"

fun phase_samples :: "LoadTestConfig \<Rightarrow> bot_phase \<Rightarrow> nat" where
  "phase_samples config (Bot_writing _ (After_move kind _)) = kind_samples kind"
| "phase_samples config (Bot_reading (For_move kind _)) = kind_samples kind"
| "phase_samples config phase =
     (if phase_rank phase = Some 4 then cfg_measured_moves_per_client config else 0)"

text \<open>The move a bot is in the middle of: of the test, and begun in the past.\<close>

fun move_fine :: "LoadTestConfig \<Rightarrow> time_point \<Rightarrow> move_kind \<Rightarrow> time_point \<Rightarrow> bool" where
  "move_fine config now (Measured_move sequence) started \<longleftrightarrow>
     sequence < cfg_measured_moves_per_client config \<and> started \<le> now"
| "move_fine config now (Warmup_move sequence) started \<longleftrightarrow>
     sequence < cfg_warmup_moves_per_client config \<and> started \<le> now"
| "move_fine config now Barrier_move started \<longleftrightarrow> started \<le> now"

fun phase_fine :: "LoadTestConfig \<Rightarrow> time_point \<Rightarrow> bot_phase \<Rightarrow> bool" where
  "phase_fine config now (Bot_writing _ (After_move kind started)) = move_fine config now kind started"
| "phase_fine config now (Bot_reading (For_move kind started)) = move_fine config now kind started"
| "phase_fine config now phase = True"

section \<open>The shared state\<close>

fun counter :: "nat \<Rightarrow> RunState \<Rightarrow> size_t" where
  "counter k st =
     (if k = 1 then rs_ready_clients st else if k = 2 then rs_warmed_up_clients st
      else if k = 3 then rs_measurement_barrier_clients st else rs_completed_clients st)"

declare counter.simps [simp del]

definition counts_match :: "nat list \<Rightarrow> RunState \<Rightarrow> bool" where
  "counts_match passed st \<longleftrightarrow>
     rs_client_count st = length passed \<and>
     (\<forall>k\<in>{1, 2, 3, 4}. counter k st = length (filter (\<lambda>p. k \<le> p) passed))"

text \<open>The samples: none negative, and all within the measured interval.\<close>

definition samples_ok :: "RunState \<Rightarrow> bool" where
  "samples_ok st \<longleftrightarrow>
     (\<forall>l\<in>set (rs_latencies st). 0 \<le> l) \<and>
     (case (rs_measurement_started_at st, rs_measurement_completed_at st) of
        (None, None) \<Rightarrow> rs_latencies st = []
      | (Some started, Some completed) \<Rightarrow>
          rs_latencies st \<noteq> [] \<and> (\<forall>l\<in>set (rs_latencies st). l \<le> completed - started)
      | _ \<Rightarrow> False)"

lemma samples_ok_frame [simp]:
  "samples_ok (st\<lparr>rs_ready_clients := n\<rparr>) = samples_ok st"
  "samples_ok (st\<lparr>rs_warmed_up_clients := n\<rparr>) = samples_ok st"
  "samples_ok (st\<lparr>rs_measurement_barrier_clients := n\<rparr>) = samples_ok st"
  "samples_ok (st\<lparr>rs_completed_clients := n\<rparr>) = samples_ok st"
  "samples_ok (st\<lparr>rs_failure := m\<rparr>) = samples_ok st"
  by (auto simp: samples_ok_def split: option.split)

lemma record_sample_ok:
  assumes "samples_ok st" "started_at sample \<le> completed_at sample"
  shows "samples_ok (record_sample sample st)"
    "rs_latencies (record_sample sample st) = rs_latencies st @ [completed_at sample - started_at sample]"
  using assms
  by (auto simp: samples_ok_def record_sample_def Let_def split: option.splits if_splits)

lemma record_sample_frame [simp]:
  "rs_client_count (record_sample sample st) = rs_client_count st"
  "rs_expected_samples (record_sample sample st) = rs_expected_samples st"
  "rs_failure (record_sample sample st) = rs_failure st"
  "counter k (record_sample sample st) = counter k st"
  by (simp_all add: record_sample_def Let_def counter.simps split: option.split)

lemma counts_match_record [simp]: "counts_match passed (record_sample sample st) = counts_match passed st"
  unfolding counts_match_def by (simp only: record_sample_frame)

lemma filter_le_update:
  assumes "i < length ps" "ps ! i = k"
  shows "length (filter (\<lambda>p. j \<le> p) (ps[i := Suc k])) =
    length (filter (\<lambda>p. j \<le> p) ps) + (if j = Suc k then 1 else 0)"
proof -
  obtain xs ys where ps: "ps = xs @ k # ys" "length xs = i"
    using id_take_nth_drop [OF assms(1)] assms by (metis length_take min.absorb4)
  then show ?thesis by (auto simp: list_update_append le_Suc_eq)
qed

lemma all_passed_iff:
  assumes "counts_match passed st" "k \<in> {1, 2, 3, 4}"
  shows "counter k st = rs_client_count st \<longleftrightarrow> (\<forall>p\<in>set passed. k \<le> p)"
proof -
  have "counter k st = length (filter (\<lambda>p. k \<le> p) passed)" using assms unfolding counts_match_def by blast
  moreover have "length (filter (\<lambda>p. k \<le> p) passed) = length passed \<longleftrightarrow> (\<forall>p\<in>set passed. k \<le> p)"
    by (metis filter_True length_filter_less less_irrefl)
  ultimately show ?thesis using assms(1) unfolding counts_match_def by simp
qed

lemma gate_open_counter: "gate_open g st \<longleftrightarrow> counter (gate_rank g) st = rs_client_count st"
  by (cases g) (simp_all add: counter.simps all_clients_ready_def all_clients_warmed_up_def
      all_clients_reached_measurement_barrier_def all_clients_completed_def)

lemma gate_rank_bounds: "gate_rank g \<in> {1, 2, 3, 4}"
  by (cases g) simp_all

section \<open>One bot among the others\<close>

text \<open>
  The situation in which a bot runs: the configuration, the counters the bots have passed, the
  bot's index, the time, the samples of the other bots and the failure so far.
\<close>

record bot_view =
  bv_config :: LoadTestConfig
  bv_passed :: "nat list"
  bv_index :: nat
  bv_now :: time_point
  bv_base :: nat
  bv_failure :: "string option"

definition view_ok :: "bot_view \<Rightarrow> bool" where
  "view_ok v \<longleftrightarrow> validate_config (bv_config v) = None
     \<and> length (bv_passed v) = cfg_client_count (bv_config v) \<and> bv_index v < length (bv_passed v)"

definition others_passed :: "bot_view \<Rightarrow> nat \<Rightarrow> bool" where
  "others_passed v k \<longleftrightarrow> (\<forall>j<length (bv_passed v). j \<noteq> bv_index v \<longrightarrow> k \<le> bv_passed v ! j)"

text \<open>Running, having passed \<open>k\<close> counters and recorded \<open>n\<close> samples.\<close>

fun running :: "bot_view \<Rightarrow> nat \<Rightarrow> nat \<Rightarrow> bot_state \<Rightarrow> bool" where
  "running v k n (st, me) \<longleftrightarrow>
     view_ok v \<and> counts_match ((bv_passed v)[bv_index v := k]) st \<and> bv_passed v ! bv_index v \<le> k
     \<and> bot_index me = bv_index v \<and> bot_passed me = k \<and> reader_inv (bot_buffer me)
     \<and> samples_ok st \<and> length (rs_latencies st) = bv_base v + n
     \<and> rs_expected_samples st = cfg_client_count (bv_config v) * cfg_measured_moves_per_client (bv_config v)
     \<and> rs_failure st = bv_failure v"

text \<open>Suspended again, or ended by an exception that is still to be reported.\<close>

definition phase_allows :: "bot_view \<Rightarrow> nat \<Rightarrow> nat \<Rightarrow> bot_phase \<Rightarrow> bool" where
  "phase_allows v k n phase \<longleftrightarrow>
     phase_rank phase = Some k \<and> phase_samples (bv_config v) phase = n
     \<and> others_passed v (phase_floor phase) \<and> phase_fine (bv_config v) (bv_now v) phase"

definition suspended :: "bot_view \<Rightarrow> bot_state \<Rightarrow> bool" where
  "suspended v s \<longleftrightarrow> (\<exists>k n. running v k n s \<and>
     ((\<exists>m. bot_phase (snd s) = Bot_threw m) \<or> phase_allows v k n (bot_phase (snd s)))
     \<and> (\<forall>what. bot_phase (snd s) = Bot_reading what \<longrightarrow> reader_settled (bot_buffer (snd s))))"

definition suspends :: "bot_view \<Rightarrow> bot_state option \<Rightarrow> bool" where
  "suspends v r \<longleftrightarrow> (\<exists>s. r = Some s \<and> suspended v s)"

lemma suspends_Some [simp]: "suspends v (Some s) = suspended v s"
  by (simp add: suspends_def)

lemma bot_goes_simps [simp]:
  "bot_phase (snd (bot_goes phase s)) = phase" "fst (bot_goes phase s) = fst s"
  "bot_buffer (snd (bot_goes phase s)) = bot_buffer (snd s)"
  "running v k n (bot_goes phase s) = running v k n s"
  by (cases s; simp add: bot_goes_def)+

lemma goes_threw: "running v k n s \<Longrightarrow> suspended v (bot_goes (Bot_threw m) s)"
  by (auto simp: suspended_def)

lemma goes_on:
  "running v k n s \<Longrightarrow> phase_allows v k n phase \<Longrightarrow>
    (\<And>what. phase = Bot_reading what \<Longrightarrow> reader_settled (bot_buffer (snd s))) \<Longrightarrow>
    suspended v (bot_goes phase s)"
  unfolding suspended_def by (intro exI [of _ k] exI [of _ n]) simp

lemma send_packet_suspends:
  assumes "running v k n s" "\<And>packet. phase_allows v k n (Bot_writing packet next)"
  shows "suspended v (send_packet type bytes next s)"
  using goes_threw [OF assms(1)] goes_on [OF assms]
  by (simp add: send_packet_def split: sum.split)

lemma running_buffer: "running v k n (st, me) \<Longrightarrow> reader_inv b \<Longrightarrow> running v k n (st, me\<lparr>bot_buffer := b\<rparr>)"
  by simp

lemma bot_waits_suspends:
  assumes run: "running v k n s"
    and wait: "\<exists>r b. waited = Some (r, b) \<and> reader_inv b \<and> (r = More_bytes \<longrightarrow> reader_settled b)"
    and phase: "phase_allows v k n (Bot_reading what)"
    and continue: "\<And>s'. running v k n s' \<Longrightarrow> suspends v (continue s')"
  shows "suspends v (bot_waits waited what continue s)"
proof -
  obtain st me where s: "s = (st, me)" by fastforce
  obtain r b where r: "waited = Some (r, b)" "reader_inv b" "r = More_bytes \<Longrightarrow> reader_settled b"
    using wait by blast
  note next_run = running_buffer [OF run [unfolded s] r(2)]
  show ?thesis
  proof (cases r)
    case (Fetched u)
    then show ?thesis using continue [OF next_run] by (simp add: s r(1))
  next
    case More_bytes
    then show ?thesis using goes_on [OF next_run phase] r(3) by (simp add: s r(1))
  next
    case (Reader_threw m)
    then show ?thesis using goes_threw [OF next_run] by (simp add: s r(1))
  qed
qed

lemma wait_for_gate_suspends:
  assumes run: "running v k n s" and rank: "gate_rank g = k"
    and phase: "phase_allows v k n (Bot_gate g)"
    and continue: "others_passed v k \<Longrightarrow> suspends v (continue s)"
  shows "suspends v (wait_for_gate g continue s)"
proof (cases "gate_open g (fst s)")
  case True
  let ?ps = "(bv_passed v)[bv_index v := k]"
  have "counts_match ?ps (fst s)" using run by (cases s) simp
  from all_passed_iff [OF this gate_rank_bounds, of g] True have all: "\<forall>p\<in>set ?ps. k \<le> p"
    unfolding gate_open_counter rank by simp
  have "others_passed v k"
    unfolding others_passed_def
  proof (intro allI impI)
    fix j assume "j < length (bv_passed v)" "j \<noteq> bv_index v"
    then show "k \<le> bv_passed v ! j"
      using all by (metis length_list_update nth_list_update_neq nth_mem)
  qed
  from continue [OF this] True show ?thesis by (simp add: wait_for_gate_def)
next
  case False
  then show ?thesis
    using goes_threw [OF run] goes_on [OF run phase] by (simp add: wait_for_gate_def)
qed

text \<open>Advancing the next counter.\<close>

definition advances :: "(RunState \<Rightarrow> RunState) \<Rightarrow> nat \<Rightarrow> bool" where
  "advances advance k \<longleftrightarrow> (\<forall>st.
     rs_client_count (advance st) = rs_client_count st \<and> rs_expected_samples (advance st) = rs_expected_samples st
     \<and> rs_latencies (advance st) = rs_latencies st \<and> rs_failure (advance st) = rs_failure st
     \<and> samples_ok (advance st) = samples_ok st
     \<and> (\<forall>j\<in>{1, 2, 3, 4}. counter j (advance st) = (if j = k then size_add (counter j st) 1 else counter j st)))"

lemma advances_counters:
  "advances client_ready 1" "advances client_warmed_up 2"
  "advances client_reached_measurement_barrier 3" "advances client_completed 4"
  by (simp_all add: advances_def counter.simps client_ready_def client_warmed_up_def
      client_reached_measurement_barrier_def client_completed_def)

lemma bot_counts_running:
  assumes "running v k n s" "advances advance (Suc k)" "Suc k \<in> {1, 2, 3, 4}"
  shows "running v (Suc k) n (bot_counts advance (Suc k) s)"
proof -
  obtain st me where s: "s = (st, me)" by fastforce
  let ?i = "bv_index v"
  let ?ps = "(bv_passed v)[?i := k]"
  have view: "view_ok v" and counts: "counts_match ?ps st" using assms(1) by (simp_all add: s)
  have i: "?i < length ?ps" "?ps ! ?i = k" using view by (simp_all add: view_ok_def)
  note grow = filter_le_update [OF i, simplified]
  have small: "length (filter (\<lambda>p. j \<le> p) ?ps) + 1 < 2 ^ 64" for j
  proof -
    have "length (filter (\<lambda>p. j \<le> p) ?ps) \<le> int32_max"
      using view validate_config_None(2) [of "bv_config v"] length_filter_le [of "\<lambda>p. j \<le> p" ?ps]
      by (simp add: view_ok_def)
    then show ?thesis by (simp add: int32_max_def)
  qed
  have counters: "counter j (advance st) = length (filter (\<lambda>p. j \<le> p) ((bv_passed v)[?i := Suc k]))"
    if "j \<in> {1, 2, 3, 4}" for j
  proof -
    have "counter j st = length (filter (\<lambda>p. j \<le> p) ?ps)"
      using counts that unfolding counts_match_def by blast
    moreover have "counter j (advance st) = (if j = Suc k then size_add (counter j st) 1 else counter j st)"
      using assms(2) that unfolding advances_def by blast
    ultimately show ?thesis
      using grow [of j] size_add_exact [OF small [of j]] by (cases "j = Suc k") auto
  qed
  have keeps: "rs_client_count (advance st) = rs_client_count st" "rs_expected_samples (advance st) = rs_expected_samples st"
    "rs_latencies (advance st) = rs_latencies st" "rs_failure (advance st) = rs_failure st"
    "samples_ok (advance st) = samples_ok st"
    using assms(2) unfolding advances_def by blast+
  have "rs_client_count (advance st) = length ((bv_passed v)[?i := Suc k])"
    using counts keeps(1) unfolding counts_match_def by simp
  then have "counts_match ((bv_passed v)[?i := Suc k]) (advance st)"
    unfolding counts_match_def using counters by blast
  then show ?thesis using assms(1) keeps by (simp add: s bot_counts_def)
qed

section \<open>Along the coroutine\<close>

lemma others_passed_mono: "others_passed v k \<Longrightarrow> j \<le> k \<Longrightarrow> others_passed v j"
  unfolding others_passed_def using le_trans by blast

lemma others_passed_0 [simp]: "others_passed v 0"
  by (simp add: others_passed_def)

lemma running_reader: "running v k n s \<Longrightarrow> reader_inv (bot_buffer (snd s))"
  by (cases s) simp

lemma running_view: "running v k n s \<Longrightarrow> view_ok v"
  by (cases s) simp

lemmas phase_simps = phase_allows_def option.case

abbreviation measured_of :: "bot_view \<Rightarrow> nat" where
  "measured_of v \<equiv> cfg_measured_moves_per_client (bv_config v)"

lemma await_leaves_suspends:
  assumes "running v 4 (measured_of v) s" "others_passed v 4"
  shows "suspends v (await_leaves observed s)"
proof -
  obtain st me where s: "s = (st, me)" by fastforce
  obtain r m b where wait: "observe_leaves (bot_index me) observed (bot_buffer me) = Some (r, m, b)"
    "reader_inv b" "r = More_bytes \<longrightarrow> reader_settled b"
    using bot_reader.count_events_ends [OF running_reader [OF assms(1)], of is_leave "bot_index me" observed]
    unfolding observe_leaves_def s by auto
  have "suspends v (bot_waits (Some (r, b)) (For_leaves m) (\<lambda>s. Some (send_packet leave_room [] After_leave s)) s)"
    by (rule bot_waits_suspends [OF assms(1)])
      (use wait assms(2) send_packet_suspends in \<open>auto simp: phase_simps\<close>)
  then show ?thesis by (simp add: s wait(1))
qed

lemma perform_move_suspends:
  assumes "running v (kind_rank kind) (kind_samples kind) s" "others_passed v (kind_rank kind)"
    and "move_fine (bv_config v) (bv_now v) kind started"
  shows "suspended v (perform_move (bv_config v) kind started s)"
  unfolding perform_move_def Let_def case_prod_beta
  by (rule send_packet_suspends [OF assms(1)]) (simp add: phase_simps assms(2,3))

lemma measured_moves_suspends:
  assumes "running v 3 sequence s" "others_passed v 3" "sequence \<le> measured_of v"
  shows "suspends v (measured_moves (bv_config v) (bv_now v) sequence s)"
proof (cases "sequence < measured_of v")
  case True
  then show ?thesis
    using assms perform_move_suspends [of v "Measured_move sequence" s "bv_now v"]
    by (simp add: measured_moves_def)
next
  case False
  then have all: "sequence = measured_of v" using assms(3) by simp
  have "running v 4 (measured_of v) (bot_counts client_completed 4 s)"
    using bot_counts_running [OF assms(1) [unfolded all], of client_completed] advances_counters(4) by simp
  then show ?thesis
    using False assms(2) unfolding measured_moves_def
    by (auto intro!: wait_for_gate_suspends [where g = Gate_completed] await_leaves_suspends simp: phase_simps)
qed

lemma reach_barrier_suspends:
  assumes "running v 2 0 s" "others_passed v 2"
  shows "suspends v (reach_barrier (bv_config v) (bv_now v) s)"
proof -
  have "running v 3 0 (bot_counts client_reached_measurement_barrier 3 s)"
    using bot_counts_running [OF assms(1), of client_reached_measurement_barrier] advances_counters(3)
    by (simp add: numeral_3_eq_3)
  then show ?thesis
    using assms(2) unfolding reach_barrier_def
    by (auto intro!: wait_for_gate_suspends [where g = Gate_barrier] measured_moves_suspends simp: phase_simps)
qed

lemma await_barrier_suspends:
  assumes "running v 2 0 s" "others_passed v 2"
  shows "suspends v (await_barrier (bv_config v) (bv_now v) s)"
  unfolding await_barrier_def
  by (rule bot_waits_suspends [OF assms(1)])
    (use bot_reader.wait_for_ends [OF running_reader [OF assms(1)]] assms(2) reach_barrier_suspends in
      \<open>auto simp: phase_simps wait_for_move_event_def\<close>)

lemma measurement_barrier_suspends:
  assumes "running v 2 0 s" "others_passed v 2"
  shows "suspends v (measurement_barrier (bv_config v) (bv_now v) s)"
  using await_barrier_suspends [OF assms] perform_move_suspends [of v Barrier_move s "bv_now v"] assms
  by (simp add: measurement_barrier_def)

lemma warmup_moves_suspends:
  assumes "running v 1 0 s" "others_passed v 1"
  shows "suspends v (warmup_moves (bv_config v) (bv_now v) sequence s)"
proof (cases "sequence < cfg_warmup_moves_per_client (bv_config v)")
  case True
  then show ?thesis
    using assms perform_move_suspends [of v "Warmup_move sequence" s "bv_now v"]
    by (simp add: warmup_moves_def)
next
  case False
  have "running v 2 0 (bot_counts client_warmed_up 2 s)"
    using bot_counts_running [OF assms(1), of client_warmed_up] advances_counters(2)
    by (simp add: numeral_2_eq_2)
  then show ?thesis
    using False assms(2) unfolding warmup_moves_def
    by (auto intro!: wait_for_gate_suspends [where g = Gate_warmed_up] measurement_barrier_suspends simp: phase_simps)
qed

lemma measured_fits:
  assumes "validate_config config = None"
  shows "cfg_measured_moves_per_client config < 2 ^ 64"
proof -
  note ok = validate_config_None [OF assms]
  have "1 * cfg_measured_moves_per_client config \<le> cfg_client_count config * cfg_measured_moves_per_client config"
    using ok(1) by (intro mult_le_mono1) simp
  with ok(6) show ?thesis by linarith
qed

lemma record_running:
  assumes "running v k n s" "started_at sample \<le> completed_at sample"
  shows "running v k (Suc n) (map_prod (record_sample sample) id s)"
  using assms record_sample_ok [of "fst s" sample] by (cases s) simp

lemma move_completed_suspends:
  assumes "running v (kind_rank kind) (kind_samples kind) s" "others_passed v (kind_rank kind)"
    and "move_fine (bv_config v) (fst clock) kind started" "snd clock = bv_now v"
  shows "suspends v (move_completed (bv_config v) kind started clock s)"
proof (cases kind)
  case (Warmup_move sequence)
  then show ?thesis using assms warmup_moves_suspends by simp
next
  case Barrier_move
  then show ?thesis using assms reach_barrier_suspends by simp
next
  case (Measured_move sequence)
  then have fine: "sequence < measured_of v" "started \<le> fst clock" using assms(3) by simp_all
  have "validate_config (bv_config v) = None" using running_view [OF assms(1)] by (simp add: view_ok_def)
  from measured_fits [OF this] fine(1) have step: "size_add sequence 1 = Suc sequence" by simp
  have run: "running v 3 (Suc sequence)
      (map_prod (record_sample \<lparr>started_at = started, completed_at = fst clock\<rparr>) id s)"
    using assms(1) fine(2) Measured_move by (intro record_running) simp_all
  have "suspends v (measured_moves (bv_config v) (bv_now v) (Suc sequence)
      (map_prod (record_sample \<lparr>started_at = started, completed_at = fst clock\<rparr>) id s))"
    using measured_moves_suspends [OF run] assms(2) fine(1) Measured_move by simp
  then show ?thesis unfolding Measured_move move_completed.simps step assms(4) .
qed

lemma move_fine_later: "move_fine config t kind started \<Longrightarrow> t \<le> t' \<Longrightarrow> move_fine config t' kind started"
  by (cases kind) simp_all

lemma await_move_suspends:
  assumes "running v (kind_rank kind) (kind_samples kind) s" "others_passed v (kind_rank kind)"
    and "move_fine (bv_config v) (fst clock) kind started" "fst clock \<le> snd clock" "snd clock = bv_now v"
  shows "suspends v (await_move (bv_config v) kind started clock s)"
  unfolding await_move_def Let_def case_prod_beta
proof (rule bot_waits_suspends [OF assms(1)])
  show "phase_allows v (kind_rank kind) (kind_samples kind) (Bot_reading (For_move kind started))"
    using assms(2,5) move_fine_later [OF assms(3,4)] by (simp add: phase_simps)
  show "suspends v (move_completed (bv_config v) kind started clock s')"
    if "running v (kind_rank kind) (kind_samples kind) s'" for s'
    by (rule move_completed_suspends [OF that assms(2,3,5)])
qed (use bot_reader.wait_for_ends [OF running_reader [OF assms(1)]] in \<open>simp add: wait_for_move_event_def\<close>)

lemma await_entry_suspends:
  assumes "running v 0 0 s"
  shows "suspends v (await_entry (bv_config v) (bv_now v) s)"
  unfolding await_entry_def
proof (rule bot_waits_suspends [OF assms])
  fix s' assume "running v 0 0 s'"
  then have "running v 1 0 (bot_counts client_ready 1 s')"
    using bot_counts_running [of v 0 0 s' client_ready] advances_counters(1) by simp
  then show "suspends v (wait_for_gate Gate_ready (warmup_moves (bv_config v) (bv_now v) 0)
      (bot_counts client_ready 1 s'))"
    by (auto intro!: wait_for_gate_suspends [where g = Gate_ready] warmup_moves_suspends simp: phase_simps)
qed (use bot_reader.wait_for_ends [OF running_reader [OF assms]] in
    \<open>simp_all add: wait_for_room_entry_def phase_simps\<close>)

section \<open>A step of a bot\<close>

text \<open>Before a step: the phase of the bot, allowed at the time of the last step.\<close>

definition at_rest :: "bot_view \<Rightarrow> time_point \<Rightarrow> bot_state \<Rightarrow> bool" where
  "at_rest v before s \<longleftrightarrow> suspended (v\<lparr>bv_now := before\<rparr>) s"

lemma running_now [simp]: "running (v\<lparr>bv_now := t\<rparr>) k n s = running v k n s"
  by (cases s) (simp add: view_ok_def)

lemma others_passed_now [simp]: "others_passed (v\<lparr>bv_now := t\<rparr>) k = others_passed v k"
  by (simp add: others_passed_def)

lemma at_rest_cases:
  assumes "at_rest v before s" "phase_rank (bot_phase (snd s)) \<noteq> None"
  obtains k n where "running v k n s" "phase_rank (bot_phase (snd s)) = Some k"
    "phase_samples (bv_config v) (bot_phase (snd s)) = n" "others_passed v (phase_floor (bot_phase (snd s)))"
    "phase_fine (bv_config v) before (bot_phase (snd s))"
    "\<And>what. bot_phase (snd s) = Bot_reading what \<Longrightarrow> reader_settled (bot_buffer (snd s))"
  using assms by (fastforce simp: at_rest_def suspended_def phase_allows_def)

lemma resume_wait_suspends:
  assumes "running v (awaited_rank what) (phase_samples (bv_config v) (Bot_reading what)) s"
    and "others_passed v (awaited_rank what)" "phase_fine (bv_config v) (fst clock) (Bot_reading what)"
    and "fst clock \<le> snd clock" "snd clock = bv_now v"
  shows "suspends v (resume_wait (bv_config v) clock what s)"
  using assms await_entry_suspends await_move_suspends await_barrier_suspends await_leaves_suspends
  by (cases what) simp_all

lemma write_completed_suspends:
  assumes "running v (write_rank next) (phase_samples (bv_config v) (Bot_writing packet next)) s"
    and "others_passed v (write_rank next)" "phase_fine (bv_config v) (fst clock) (Bot_writing packet next)"
    and "fst clock \<le> snd clock" "snd clock = bv_now v"
  shows "suspends v (bot_write_completed (bv_config v) clock error next s)"
proof (cases error)
  case None
  then show ?thesis
    using assms await_entry_suspends await_move_suspends goes_on [of v 4 "measured_of v" s Bot_returned]
    by (cases "next") (simp_all add: bot_write_completed_def phase_simps)
next
  case (Some m)
  then show ?thesis using goes_threw [OF assms(1)] by (simp add: bot_write_completed_def)
qed

lemma gate_timer_suspends:
  assumes "running v (gate_rank g) (phase_samples (bv_config v) (Bot_gate g)) s"
    and "others_passed v (gate_rank g - 1)" "snd clock = bv_now v"
  shows "suspends v (gate_timer_expired (bv_config v) clock g s)"
  using assms
  by (cases g)
    (auto intro!: wait_for_gate_suspends warmup_moves_suspends measurement_barrier_suspends
      measured_moves_suspends await_leaves_suspends simp: phase_simps)

lemma read_completed_suspends:
  assumes "running v (awaited_rank what) (phase_samples (bv_config v) (Bot_reading what)) s"
    and "others_passed v (awaited_rank what)" "phase_fine (bv_config v) (fst clock) (Bot_reading what)"
    and "fst clock \<le> snd clock" "snd clock = bv_now v" "reader_settled (bot_buffer (snd s))"
    and "\<forall>bytes. result = Inr bytes \<longrightarrow> length bytes \<le> read_chunk_size"
  shows "suspends v (bot_read_completed (bv_config v) grow clock result what s)"
proof (cases result)
  case (Inl m)
  then show ?thesis using goes_threw [OF assms(1)] by simp
next
  case (Inr bytes)
  obtain st me where s: "s = (st, me)" by fastforce
  obtain b where b: "ReceiveBuffer_append grow (bot_buffer me) bytes = Inr b" "reader_inv b"
    using settled_append [OF running_reader [OF assms(1)] assms(6)] assms(7) Inr s by auto
  from resume_wait_suspends [OF running_buffer [OF assms(1) [unfolded s] b(2)] assms(2-5)]
  show ?thesis by (simp add: Inr s b(1))
qed

lemma phase_fine_later: "phase_fine config t phase \<Longrightarrow> t \<le> t' \<Longrightarrow> phase_fine config t' phase"
  by (induction config t phase rule: phase_fine.induct) (simp_all add: move_fine_later)

lemma bot_step_suspends:
  assumes "bot_step (bv_config v) grow clock s s'" "at_rest v before s"
    and "before \<le> fst clock" "fst clock \<le> snd clock" "snd clock = bv_now v"
    and "phase_rank (bot_phase (snd s)) \<noteq> None"
  shows "suspended v s'"
proof -
  obtain k n where run: "running v k n s" and rank: "phase_rank (bot_phase (snd s)) = Some k"
    and n: "phase_samples (bv_config v) (bot_phase (snd s)) = n"
    and floor: "others_passed v (phase_floor (bot_phase (snd s)))"
    and fine: "phase_fine (bv_config v) before (bot_phase (snd s))"
    and settled: "\<And>what. bot_phase (snd s) = Bot_reading what \<Longrightarrow> reader_settled (bot_buffer (snd s))"
    using at_rest_cases [OF assms(2,6)] by blast
  note fine' = phase_fine_later [OF fine assms(3)]
  from assms(1) show ?thesis
  proof cases
    case (bot_connects me st error)
    then have "running v 0 0 s" using run rank n by simp
    then show ?thesis
      using goes_threw [of v 0 0 s] send_packet_suspends [of v 0 0 s After_join] bot_connects
      by (simp add: connect_completed_def phase_simps split: option.split)
  next
    case (bot_writes me packet "next" error st)
    then have "suspends v (bot_write_completed (bv_config v) clock error next s)"
      using write_completed_suspends [of v "next" packet s clock error] run rank n floor fine' assms(4,5) by simp
    then show ?thesis using bot_writes by simp
  next
    case (bot_reads me what result st)
    then have "suspends v (bot_read_completed (bv_config v) grow clock result what s)"
      using read_completed_suspends [of v what s clock result grow] run rank n floor fine' assms(4,5) settled
      by simp
    then show ?thesis using bot_reads by simp
  next
    case (bot_checks_gate me g st)
    then have "suspends v (gate_timer_expired (bv_config v) clock g s)"
      using gate_timer_suspends [of v g s clock] run rank n floor assms(5) by simp
    then show ?thesis using bot_checks_gate by simp
  next
    case (bot_timer_fails me g st what)
    then show ?thesis using goes_threw [OF run] by (simp add: gate_timer_failed_def)
  next
    case (bot_reports me what st)
    then show ?thesis using rank by simp
  qed
qed

section \<open>The invariant of a run\<close>

definition bot_fine :: "LoadTestConfig \<Rightarrow> nat list \<Rightarrow> time_point \<Rightarrow> nat \<Rightarrow> Bot \<Rightarrow> bool" where
  "bot_fine config passed now j me \<longleftrightarrow>
     bot_index me = j \<and> reader_inv (bot_buffer me)
     \<and> (phase_rank (bot_phase me) \<noteq> None \<longrightarrow>
          phase_rank (bot_phase me) = Some (bot_passed me) \<and> phase_fine config now (bot_phase me)
          \<and> (\<forall>l<length passed. l \<noteq> j \<longrightarrow> phase_floor (bot_phase me) \<le> passed ! l))
     \<and> (\<forall>what. bot_phase me = Bot_reading what \<longrightarrow> reader_settled (bot_buffer me))"

definition samples_of :: "LoadTestConfig \<Rightarrow> Bot list \<Rightarrow> nat" where
  "samples_of config bots = sum_list (map (\<lambda>me. phase_samples config (bot_phase me)) bots)"

definition load_inv :: "LoadTestConfig \<Rightarrow> LoadTest \<Rightarrow> bool" where
  "load_inv config t \<longleftrightarrow>
     validate_config config = None \<and> length (lt_bots t) = cfg_client_count config
     \<and> counts_match (map bot_passed (lt_bots t)) (lt_state t) \<and> samples_ok (lt_state t)
     \<and> rs_expected_samples (lt_state t) = cfg_client_count config * cfg_measured_moves_per_client config
     \<and> (\<forall>j<length (lt_bots t). bot_fine config (map bot_passed (lt_bots t)) (lt_clock t) j (lt_bots t ! j))
     \<and> samples_of config (lt_bots t) \<le> length (rs_latencies (lt_state t))
     \<and> ((\<forall>me\<in>set (lt_bots t). phase_rank (bot_phase me) \<noteq> None) \<longrightarrow>
          length (rs_latencies (lt_state t)) = samples_of config (lt_bots t))
     \<and> (rs_failure (lt_state t) \<noteq> None \<longleftrightarrow> (\<exists>me\<in>set (lt_bots t). bot_phase me = Bot_reported))"

definition view_at :: "LoadTestConfig \<Rightarrow> LoadTest \<Rightarrow> nat \<Rightarrow> time_point \<Rightarrow> bot_view" where
  "view_at config t i now =
     \<lparr>bv_config = config, bv_passed = map bot_passed (lt_bots t), bv_index = i, bv_now = now,
      bv_base = length (rs_latencies (lt_state t)) - phase_samples config (bot_phase (lt_bots t ! i)),
      bv_failure = rs_failure (lt_state t)\<rparr>"

lemma samples_of_update:
  assumes "i < length bots"
  shows "samples_of config (bots[i := me]) + phase_samples config (bot_phase (bots ! i)) =
    samples_of config bots + phase_samples config (bot_phase me)"
proof -
  let ?ns = "map (\<lambda>me. phase_samples config (bot_phase me)) bots"
  have "phase_samples config (bot_phase (bots ! i)) \<le> sum_list ?ns"
    using elem_le_sum_list [of i ?ns] assms by simp
  then show ?thesis
    using sum_list_update [of i ?ns "phase_samples config (bot_phase me)"] assms
    by (simp add: samples_of_def map_update)
qed

lemma load_inv_running:
  assumes "load_inv config t" "i < length (lt_bots t)"
  shows "running (view_at config t i now) (bot_passed (lt_bots t ! i))
    (phase_samples config (bot_phase (lt_bots t ! i))) (lt_state t, lt_bots t ! i)"
proof -
  have "phase_samples config (bot_phase (lt_bots t ! i)) \<le> samples_of config (lt_bots t)"
    using elem_le_sum_list [of i "map (\<lambda>me. phase_samples config (bot_phase me)) (lt_bots t)"] assms(2)
    by (simp add: samples_of_def)
  also have "\<dots> \<le> length (rs_latencies (lt_state t))" using assms(1) by (simp add: load_inv_def)
  finally have base: "phase_samples config (bot_phase (lt_bots t ! i)) \<le> length (rs_latencies (lt_state t))" .
  have "(map bot_passed (lt_bots t))[i := bot_passed (lt_bots t ! i)] = map bot_passed (lt_bots t)"
    using assms(2) by (simp add: list_update_same_conv)
  with assms base show ?thesis by (auto simp: load_inv_def view_at_def view_ok_def bot_fine_def)
qed

lemma load_inv_at_rest:
  assumes "load_inv config t" "i < length (lt_bots t)" "bot_phase (lt_bots t ! i) \<noteq> Bot_reported"
  shows "at_rest (view_at config t i now) (lt_clock t) (lt_state t, lt_bots t ! i)"
proof -
  let ?me = "lt_bots t ! i"
  let ?v = "(view_at config t i now)\<lparr>bv_now := lt_clock t\<rparr>"
  have fine: "bot_fine config (map bot_passed (lt_bots t)) (lt_clock t) i ?me"
    using assms(1,2) by (simp add: load_inv_def)
  have "running ?v (bot_passed ?me) (phase_samples config (bot_phase ?me)) (lt_state t, ?me)"
    unfolding running_now by (rule load_inv_running [OF assms(1,2)])
  moreover have "(\<exists>m. bot_phase ?me = Bot_threw m) \<or>
      phase_allows ?v (bot_passed ?me) (phase_samples config (bot_phase ?me)) (bot_phase ?me)"
  proof (cases "phase_rank (bot_phase ?me) = None")
    case True
    then show ?thesis using assms(3) by (cases "bot_phase ?me") simp_all
  next
    case False
    then show ?thesis using fine by (simp add: bot_fine_def phase_allows_def view_at_def others_passed_def)
  qed
  moreover have "bot_phase ?me = Bot_reading what \<longrightarrow> reader_settled (bot_buffer ?me)" for what
    using fine by (simp add: bot_fine_def)
  ultimately show ?thesis unfolding at_rest_def suspended_def by (intro exI conjI) auto
qed

lemma set_list_update_ex:
  assumes "i < length xs"
  shows "(\<exists>x\<in>set (xs[i := y]). P x) \<longleftrightarrow> P y \<or> (\<exists>j<length xs. j \<noteq> i \<and> P (xs ! j))"
proof -
  have "(\<exists>x\<in>set (xs[i := y]). P x) \<longleftrightarrow> (\<exists>j<length xs. P (xs[i := y] ! j))"
    by (metis in_set_conv_nth length_list_update)
  also have "\<dots> \<longleftrightarrow> P y \<or> (\<exists>j<length xs. j \<noteq> i \<and> P (xs ! j))"
    using assms by (metis nth_list_update)
  finally show ?thesis .
qed

text \<open>The other bots are not disturbed: no counter they rely on goes back, and time only passes.\<close>

lemma bot_fine_update:
  assumes "bot_fine config passed now j me" "passed ! i \<le> p" "now \<le> now'"
  shows "bot_fine config (passed[i := p]) now' j me"
proof -
  have "phase_floor (bot_phase me) \<le> passed[i := p] ! l"
    if "phase_floor (bot_phase me) \<le> passed ! l" "l < length passed" for l
    using that assms(2) by (cases "l = i") simp_all
  with assms(1) show ?thesis unfolding bot_fine_def using phase_fine_later [OF _ assms(3)] by auto
qed

lemma samples_after:
  assumes inv: "load_inv config t" and i: "i < length (lt_bots t)"
    and was: "phase_rank (bot_phase (lt_bots t ! i)) \<noteq> None"
    and lats: "lats = length (rs_latencies (lt_state t)) - phase_samples config (bot_phase (lt_bots t ! i)) + n"
    and new: "phase_samples config (bot_phase me) \<le> n"
      "phase_rank (bot_phase me) \<noteq> None \<Longrightarrow> phase_samples config (bot_phase me) = n"
  shows "samples_of config ((lt_bots t)[i := me]) \<le> lats"
    "\<forall>b\<in>set ((lt_bots t)[i := me]). phase_rank (bot_phase b) \<noteq> None \<Longrightarrow>
      lats = samples_of config ((lt_bots t)[i := me])"
proof -
  let ?bots = "lt_bots t" and ?all = "length (rs_latencies (lt_state t))"
  have old: "phase_samples config (bot_phase (?bots ! i)) \<le> samples_of config ?bots"
    "samples_of config ?bots \<le> ?all"
    using inv i elem_le_sum_list [of i "map (\<lambda>me. phase_samples config (bot_phase me)) ?bots"]
    by (simp_all add: load_inv_def samples_of_def)
  note update = samples_of_update [OF i, of config me]
  show "samples_of config (?bots[i := me]) \<le> lats" using update new(1) old lats by linarith
  assume all: "\<forall>b\<in>set (?bots[i := me]). phase_rank (bot_phase b) \<noteq> None"
  have "phase_rank (bot_phase b) \<noteq> None" if "b \<in> set ?bots" for b
    using all was that i by (metis in_set_conv_nth length_list_update nth_list_update)
  then have "?all = samples_of config ?bots" using inv by (simp add: load_inv_def)
  moreover have "phase_rank (bot_phase me) \<noteq> None" using all i by (simp add: set_update_memI)
  ultimately show "lats = samples_of config (?bots[i := me])" using update new(2) old lats by linarith
qed

lemma load_inv_after:
  assumes inv: "load_inv config t" and i: "i < length (lt_bots t)"
    and was: "phase_rank (bot_phase (lt_bots t ! i)) \<noteq> None"
    and susp: "suspended (view_at config t i now) (st, me)" and now: "lt_clock t \<le> now"
  shows "load_inv config \<lparr>lt_state = st, lt_bots = (lt_bots t)[i := me], lt_clock = now\<rparr>"
proof -
  let ?bots = "lt_bots t" and ?v = "view_at config t i now"
  let ?ps = "map bot_passed ?bots"
  obtain k n where run: "running ?v k n (st, me)"
    and phase: "(\<exists>m. bot_phase me = Bot_threw m) \<or> phase_allows ?v k n (bot_phase me)"
    and settled: "\<And>what. bot_phase me = Bot_reading what \<Longrightarrow> reader_settled (bot_buffer me)"
    using susp by (auto simp: suspended_def)
  have facts: "counts_match (?ps[i := k]) st" "?ps ! i \<le> k" "bot_index me = i" "bot_passed me = k"
    "reader_inv (bot_buffer me)" "samples_ok st" "rs_failure st = rs_failure (lt_state t)"
    "length (rs_latencies st) =
      length (rs_latencies (lt_state t)) - phase_samples config (bot_phase (?bots ! i)) + n"
    "rs_expected_samples st = cfg_client_count config * cfg_measured_moves_per_client config"
    using run by (simp_all add: view_at_def)
  have valid: "validate_config config = None" "length ?bots = cfg_client_count config"
    using inv by (simp_all add: load_inv_def)
  have passed: "map bot_passed (?bots[i := me]) = ?ps[i := k]" using facts(4) by (simp add: map_update)
  have "bot_fine config (?ps[i := k]) now j (?bots[i := me] ! j)" if "j < length ?bots" for j
    using phase facts settled i bot_fine_update [OF _ facts(2) now] inv that
    by (cases "j = i") (auto simp: load_inv_def bot_fine_def phase_allows_def view_at_def others_passed_def)
  moreover have "phase_samples config (bot_phase me) \<le> n"
    "phase_rank (bot_phase me) \<noteq> None \<Longrightarrow> phase_samples config (bot_phase me) = n"
    using phase by (auto simp: phase_allows_def view_at_def)
  note samples = samples_after [OF inv i was facts(8) this]
  have live: "bot_phase me \<noteq> Bot_reported" "bot_phase (?bots ! i) \<noteq> Bot_reported"
    using phase was by (auto simp: phase_allows_def)
  then have "(\<exists>b\<in>set (?bots[i := me]). bot_phase b = Bot_reported) \<longleftrightarrow> (\<exists>b\<in>set ?bots. bot_phase b = Bot_reported)"
    using i by (simp add: set_list_update_ex) (metis in_set_conv_nth)
  then have "rs_failure st \<noteq> None \<longleftrightarrow> (\<exists>b\<in>set (?bots[i := me]). bot_phase b = Bot_reported)"
    using inv facts(7) by (simp add: load_inv_def)
  ultimately show ?thesis
    unfolding load_inv_def LoadTest.select_convs passed length_list_update
    using facts(1,6,9) valid samples by (intro conjI) blast+
qed

lemma load_inv_report:
  assumes inv: "load_inv config t" and i: "i < length (lt_bots t)"
    and threw: "bot_phase (lt_bots t ! i) = Bot_threw what" and now: "lt_clock t \<le> now"
    and report: "report_exception (Std_exception what) (lt_state t, lt_bots t ! i) = (st, me)"
  shows "load_inv config \<lparr>lt_state = st, lt_bots = (lt_bots t)[i := me], lt_clock = now\<rparr>"
proof -
  let ?bots = "lt_bots t"
  obtain m where st: "st = fail_run m (lt_state t)" and me: "me = (?bots ! i)\<lparr>bot_phase := Bot_reported\<rparr>"
    using report by (auto simp: report_exception_def bot_goes_def Let_def)
  have st_simps: "rs_failure st \<noteq> None" "rs_latencies st = rs_latencies (lt_state t)" "samples_ok st = samples_ok (lt_state t)"
    "rs_expected_samples st = rs_expected_samples (lt_state t)"
    "counts_match ps st = counts_match ps (lt_state t)" for ps
    by (auto simp: st fail_run_def counts_match_def counter.simps)
  have passed: "map bot_passed (?bots[i := me]) = map bot_passed ?bots"
    using i by (simp add: me map_update list_update_same_conv)
  have same: "samples_of config (?bots[i := me]) = samples_of config ?bots"
    using samples_of_update [OF i, of config me] threw by (simp add: me)
  have "me \<in> set (?bots[i := me])" "bot_phase me = Bot_reported" using i by (simp_all add: me set_update_memI)
  then have mem: "\<exists>b\<in>set (?bots[i := me]). bot_phase b = Bot_reported"
    "\<not> (\<forall>b\<in>set (?bots[i := me]). phase_rank (bot_phase b) \<noteq> None)" by force+
  have "bot_fine config (map bot_passed ?bots) now j (?bots[i := me] ! j)" if "j < length ?bots" for j
  proof -
    have old: "bot_fine config (map bot_passed ?bots) (lt_clock t) j (?bots ! j)"
      using inv that by (simp add: load_inv_def)
    have "bot_fine config (map bot_passed ?bots) now j (?bots ! j)"
      using bot_fine_update [OF old, of 0 "map bot_passed ?bots ! 0" now] now by simp
    then show ?thesis using i by (cases "j = i") (simp_all add: me bot_fine_def)
  qed
  with inv mem show ?thesis
    unfolding load_inv_def LoadTest.select_convs passed length_list_update same st_simps(2-5)
    using st_simps(1) by (intro conjI) blast+
qed

lemma load_step_inv:
  assumes "load_step config grow t t'" "load_inv config t"
  shows "load_inv config t'"
  using assms(1)
proof cases
  case (resume_bot i clock st me)
  let ?s = "(lt_state t, lt_bots t ! i)"
  have later: "lt_clock t \<le> snd clock" using resume_bot by simp
  show ?thesis
  proof (cases "phase_rank (bot_phase (lt_bots t ! i)) = None")
    case True
    obtain what where what: "bot_phase (lt_bots t ! i) = Bot_threw what"
      "report_exception (Std_exception what) ?s = (st, me)"
      using resume_bot(5) True by cases auto
    show ?thesis
      unfolding resume_bot(1) by (rule load_inv_report [OF assms(2) resume_bot(2) what(1) later what(2)])
  next
    case False
    then have "at_rest (view_at config t i (snd clock)) (lt_clock t) ?s"
      using load_inv_at_rest [OF assms(2) resume_bot(2)] by fastforce
    from bot_step_suspends [OF _ this, of grow clock "(st, me)"] resume_bot False
    have "suspended (view_at config t i (snd clock)) (st, me)" by (simp add: view_at_def)
    from load_inv_after [OF assms(2) resume_bot(2) False this later] show ?thesis
      unfolding resume_bot(1) .
  qed
qed

lemma load_start_inv:
  assumes "start_load_test is_address grow now config = Inr t"
  shows "load_inv config t"
proof -
  have valid: "validate_config config = None"
    and t: "t = \<lparr>lt_state = RunState_new config, lt_bots = map (Bot_new grow) [0..<cfg_client_count config], lt_clock = now\<rparr>"
    using assms by (auto simp: start_load_test_def split: option.splits if_splits)
  have zeros: "map bot_passed (lt_bots t) = replicate (cfg_client_count config) 0"
    by (simp add: t Bot_new_def comp_def map_replicate_const)
  have "counts_match (replicate (cfg_client_count config) 0) (RunState_new config)"
    by (auto simp: counts_match_def counter.simps RunState_new_def)
  moreover have "size_mul (cfg_client_count config) (cfg_measured_moves_per_client config) =
      cfg_client_count config * cfg_measured_moves_per_client config"
    by (rule size_mul_exact [OF validate_config_None(6) [OF valid]])
  moreover have "samples_of config (lt_bots t) = 0"
    by (simp add: samples_of_def t Bot_new_def comp_def)
  ultimately show ?thesis
    using valid unfolding load_inv_def zeros
    by (auto simp: t RunState_new_def samples_ok_def bot_fine_def Bot_new_def reader_new)
qed

lemma load_run_inv: "load_run config grow t t' \<Longrightarrow> load_inv config t \<Longrightarrow> load_inv config t'"
  by (induction rule: load_run.induct) (auto intro: load_step_inv)

end
