(* ===== verification/Load_Properties.thy ===== *)
theory Load_Properties
  imports Load_Run
begin

text \<open>
  What the load client promises: its gates keep the phases of a test apart and never block it,
  its loops end and its buffers suffice, and a run without a failure has measured exactly the
  moves it was asked for.
\<close>

section \<open>An example: one bot, one measured move\<close>

lemma wait_for_nothing:
  "rb_inv b \<Longrightarrow> readable_bytes b = [] \<Longrightarrow> wait_for read_next_server_event fits b = Some (More_bytes, b)"
  by (subst wait_for.simps, subst read_next_server_event.simps) (simp add: ReceiveBuffer_empty_readable)

lemma wait_for_event_packet:
  assumes "reader_inv b" "readable_bytes b = frame (event_type ev) (event_payload ev)" "fits (server_event_of ev)"
  obtains b' where "wait_for read_next_server_event fits b = Some (Fetched (), b')" "reader_inv b'"
    "readable_bytes b' = []"
proof -
  have "first_event (readable_bytes b) = (Fetched (server_event_of ev), [])"
    using first_event_of_event [of ev "[]"] assms(2) by simp
  then obtain b' where "read_next_server_event b = Some (Fetched (server_event_of ev), b')"
    "reader_inv b'" "readable_bytes b' = []"
    using read_next_server_event_refines [of b] assms(1) by (auto simp: reader_inv_def)
  moreover from this(1) have "wait_for read_next_server_event fits b = Some (Fetched (), b')"
    by (subst wait_for.simps) (simp add: assms(3))
  ultimately show thesis using that by blast
qed

lemma append_to_empty:
  assumes "reader_inv b" "readable_bytes b = []" "length bytes \<le> read_chunk_size"
  obtains b' where "ReceiveBuffer_append grow b bytes = Inr b'" "reader_inv b'" "readable_bytes b' = bytes"
proof -
  have "reader_settled b" using assms(2) by (simp add: reader_settled_def wire_header_size_def)
  from settled_append [OF assms(1) this assms(3)] obtain b' where
    "ReceiveBuffer_append grow b bytes = Inr b'" "reader_inv b'" by blast
  moreover have "readable_bytes b' = bytes"
    using rb.append_InrD [OF _ calculation(1)] assms by (simp add: reader_inv_def)
  ultimately show thesis using that by blast
qed

text \<open>A read that brings the packet of an event the bot waits for.\<close>

lemma event_arrives:
  assumes "reader_inv b" "readable_bytes b = []"
  obtains b1 b2 where
    "ReceiveBuffer_append grow b (frame (event_type ev) (event_payload ev)) = Inr b1"
    "\<forall>fits. fits (server_event_of ev) \<longrightarrow> wait_for read_next_server_event fits b1 = Some (Fetched (), b2)"
    "reader_inv b2" "readable_bytes b2 = []"
proof -
  have small: "length (frame (event_type ev) (event_payload ev)) \<le> read_chunk_size"
    using event_packet_size [of ev] unfolding read_chunk_size_def by linarith
  obtain b1 where b1: "ReceiveBuffer_append grow b (frame (event_type ev) (event_payload ev)) = Inr b1"
    "reader_inv b1" "readable_bytes b1 = frame (event_type ev) (event_payload ev)"
    by (rule append_to_empty [OF assms small])
  obtain b2 where b2: "wait_for read_next_server_event (\<lambda>e. e = server_event_of ev) b1 = Some (Fetched (), b2)"
    "reader_inv b2" "readable_bytes b2 = []"
    by (rule wait_for_event_packet [OF b1(2,3)]) simp
  have "wait_for read_next_server_event fits b1 = Some (Fetched (), b2)" if "fits (server_event_of ev)" for fits
  proof -
    have "\<exists>e b'. read_next_server_event b1 = Some (Fetched e, b')"
      using read_next_server_event_refines [of b1] b1 first_event_of_event [of ev "[]"]
      by (auto simp: reader_inv_def)
    then obtain e b' where step: "read_next_server_event b1 = Some (Fetched e, b')" by blast
    moreover have "e = server_event_of ev"
      using read_next_server_event_refines [of b1] b1 first_event_of_event [of ev "[]"] step
      by (auto simp: reader_inv_def)
    ultimately show ?thesis
      using b2(1) that by (subst (asm) wait_for.simps, subst wait_for.simps) simp
  qed
  with b1(1) b2(2,3) that show thesis by blast
qed

definition one_bot :: LoadTestConfig where
  "one_bot = LoadTestConfig_default\<lparr>cfg_client_count := 1, cfg_warmup_moves_per_client := 0,
     cfg_measured_moves_per_client := 1\<rparr>"

lemmas one_bot_simps = one_bot_def LoadTestConfig_default_def

lemma one_bot_valid: "validate_config one_bot = None"
  by (simp add: validate_config_def one_bot_simps int32_max_def uint64_max_def)

abbreviation one_state :: "RunState \<Rightarrow> ReceiveBuffer \<Rightarrow> bot_phase \<Rightarrow> nat \<Rightarrow> time_point \<Rightarrow> LoadTest" where
  "one_state st b phase k now \<equiv> \<lparr>lt_state = st, lt_bots = [\<lparr>bot_index = 0, bot_buffer = b, bot_phase = phase,
     bot_passed = k\<rparr>], lt_clock = now\<rparr>"

lemma one_step:
  assumes "bot_step one_bot grow (now, now) (st, \<lparr>bot_index = 0, bot_buffer = b, bot_phase = phase, bot_passed = k\<rparr>)
      (st', \<lparr>bot_index = 0, bot_buffer = b', bot_phase = phase', bot_passed = k'\<rparr>)"
    and "before \<le> now"
  shows "load_step one_bot grow (one_state st b phase k before) (one_state st' b' phase' k' now)"
  using resume_bot [of 0 "one_state st b phase k before" "(now, now)" one_bot grow] assms by simp

lemma encode_ok: "is_known type \<Longrightarrow> length bytes \<le> 65536 \<Longrightarrow> encode_packet type bytes = Inr (frame type bytes)"
  by (simp add: encode_packet_cases)

lemmas bot_defs = connect_completed_def bot_write_completed_def send_packet_def bot_goes_def perform_move_def
  await_entry_def await_move_def reach_barrier_def measurement_barrier_def warmup_moves_def measured_moves_def
  wait_for_gate_def bot_counts_def wait_for_room_entry_def wait_for_move_event_def

lemmas gate_defs = client_ready_def client_warmed_up_def client_reached_measurement_barrier_def
  client_completed_def all_clients_ready_def all_clients_warmed_up_def
  all_clients_reached_measurement_barrier_def all_clients_completed_def

definition move_packet :: "int32 \<Rightarrow> int32 \<Rightarrow> byte list" where
  "move_packet x y = frame move (encode_move_payload \<lparr>move_x = x, move_y = y\<rparr>)"

lemma encode_move_packet [simp]:
  "encode_packet move (encode_move_payload \<lparr>move_x = x, move_y = y\<rparr>) = Inr (move_packet x y)"
  by (simp add: encode_ok move_packet_def encode_move_payload_eq)

lemma encode_empty_packet [simp]: "is_known type \<Longrightarrow> encode_packet type [] = Inr (frame type [])"
  by (simp add: encode_ok)

lemma one_coordinate [simp]: "client_coordinate 0 = 1" "measured_coordinate one_bot 0 = 1"
  by (simp_all add: client_coordinate_def measured_coordinate_def to_int32_def one_bot_simps)

lemma one_coordinates [simp]:
  "move_coordinates one_bot 0 (Measured_move 0) = (1, 1)" "move_coordinates one_bot 0 Barrier_move = (0, 0)"
  by (simp_all add: barrier_coordinate_def)

lemma one_bot_sizes [simp]:
  "cfg_warmup_moves_per_client one_bot = 0" "cfg_measured_moves_per_client one_bot = 1" "cfg_client_count one_bot = 1"
  by (simp_all add: one_bot_simps)

abbreviation new_buffer :: "growth \<Rightarrow> ReceiveBuffer" where
  "new_buffer grow \<equiv> ReceiveBuffer_new grow max_receive_buffer_size 4096"

lemma one_bot_starts:
  "start_load_test (\<lambda>_. True) grow 0 one_bot =
    Inr (one_state (RunState_new one_bot) (new_buffer grow) Bot_connecting 0 0)"
  by (simp add: start_load_test_def one_bot_valid Bot_new_def)

definition counted :: "nat \<Rightarrow> RunState \<Rightarrow> RunState" where
  "counted k st = st\<lparr>rs_ready_clients := 1, rs_warmed_up_clients := 1,
     rs_measurement_barrier_clients := (if k \<ge> 3 then 1 else 0)\<rparr>"

lemma bot_write_step:
  "bot_phase me = Bot_writing packet after \<Longrightarrow>
    bot_write_completed config clock None after (st, me) = Some s \<Longrightarrow> bot_step config grow clock (st, me) s"
  by (rule bot_writes)

text \<open>A bot connects, joins and sees the join: it goes on behind its wait for the room entry.\<close>

lemma bot_joins:
  assumes run: "load_run config grow t0 t" and i: "i < length (lt_bots t)" "lt_bots t ! i = Bot_new grow i"
    and entered: "\<And>b. wait_for_gate Gate_ready (warmup_moves config (lt_clock t) 0) (bot_counts client_ready 1
        (lt_state t, (Bot_new grow i)\<lparr>bot_buffer := b, bot_phase := Bot_reading For_entry\<rparr>))
      = Some (st, \<lparr>bot_index = i, bot_buffer = b, bot_phase = phase, bot_passed = k\<rparr>)"
  obtains b where "load_run config grow t0
      \<lparr>lt_state = st, lt_bots = (lt_bots t)[i := \<lparr>bot_index = i, bot_buffer = b, bot_phase = phase, bot_passed = k\<rparr>],
       lt_clock = lt_clock t\<rparr>"
    "reader_inv b" "readable_bytes b = []"
proof -
  let ?now = "(lt_clock t, lt_clock t)" and ?b = "new_buffer grow"
  let ?with = "\<lambda>st me. \<lparr>lt_state = st, lt_bots = (lt_bots t)[i := me], lt_clock = lt_clock t\<rparr>"
  let ?me1 = "(Bot_new grow i)\<lparr>bot_phase := Bot_writing (frame join_room []) After_join\<rparr>"
  let ?me2 = "(Bot_new grow i)\<lparr>bot_phase := Bot_reading For_entry\<rparr>"
  let ?ev = "PlayerJoinedEvent 1 \<lparr>grid_x = 0, grid_y = 0\<rparr>"
  let ?bytes = "frame (event_type ?ev) (event_payload ?ev)"
  have b: "reader_inv ?b" "readable_bytes ?b = []" by (simp_all add: reader_new)
  obtain b1 b2 where b1: "ReceiveBuffer_append grow ?b ?bytes = Inr b1"
    and b2: "\<forall>fits. fits (server_event_of ?ev) \<longrightarrow> wait_for read_next_server_event fits b1 = Some (Fetched (), b2)"
      "reader_inv b2" "readable_bytes b2 = []"
    by (rule event_arrives [OF b, of grow ?ev])
  have small: "length ?bytes \<le> read_chunk_size"
    using event_packet_size [of ?ev] unfolding read_chunk_size_def by linarith
  have "bot_step config grow ?now (lt_state t, Bot_new grow i) (lt_state t, ?me1)"
    using bot_connects [of "Bot_new grow i" config grow ?now "lt_state t" None]
    by (simp add: Bot_new_def connect_completed_def send_packet_def bot_goes_def)
  then have 1: "load_step config grow t (?with (lt_state t) ?me1)"
    using resume_bot [of i t ?now config grow "lt_state t" ?me1] i by simp
  have "bot_step config grow ?now (lt_state t, ?me1) (lt_state t, ?me2)"
    using b by (intro bot_write_step [where packet = "frame join_room []" and after = After_join])
      (simp_all add: Bot_new_def bot_write_completed_def await_entry_def wait_for_room_entry_def wait_for_nothing
        reader_inv_def bot_goes_def)
  then have 2: "load_step config grow (?with (lt_state t) ?me1) (?with (lt_state t) ?me2)"
    using resume_bot [of i "?with (lt_state t) ?me1" ?now config grow "lt_state t" ?me2] i by simp
  have "bot_step config grow ?now (lt_state t, ?me2)
      (st, \<lparr>bot_index = i, bot_buffer = b2, bot_phase = phase, bot_passed = k\<rparr>)"
    using b1 small spec [OF b2(1), of is_room_entry] entered [of b2]
    by (intro bot_reads [where what = For_entry and result = "Inr ?bytes"])
      (simp_all add: Bot_new_def await_entry_def wait_for_room_entry_def is_room_entry_def)
  then have 3: "load_step config grow (?with (lt_state t) ?me2)
      (?with st \<lparr>bot_index = i, bot_buffer = b2, bot_phase = phase, bot_passed = k\<rparr>)"
    using resume_bot [of i "?with (lt_state t) ?me2" ?now config grow] i by simp
  from load_more [OF load_more [OF load_more [OF run 1] 2] 3] b2(2,3) show thesis by (rule that)
qed

lemma one_bot_enters:
  obtains b where "load_run one_bot grow (one_state (RunState_new one_bot) (new_buffer grow) Bot_connecting 0 0)
      (one_state (counted 2 (RunState_new one_bot)) b (Bot_writing (move_packet 0 0) (After_move Barrier_move 0)) 2 0)"
    "reader_inv b" "readable_bytes b = []"
proof -
  let ?t = "one_state (RunState_new one_bot) (new_buffer grow) Bot_connecting 0 0"
  let ?phase = "Bot_writing (move_packet 0 0) (After_move Barrier_move 0)"
  have new: "0 < length (lt_bots ?t)" "lt_bots ?t ! 0 = Bot_new grow 0" by (simp_all add: Bot_new_def)
  have entered: "wait_for_gate Gate_ready (warmup_moves one_bot (lt_clock ?t) 0) (bot_counts client_ready 1
        (lt_state ?t, (Bot_new grow 0)\<lparr>bot_buffer := b, bot_phase := Bot_reading For_entry\<rparr>))
      = Some (counted 2 (RunState_new one_bot), \<lparr>bot_index = 0, bot_buffer = b, bot_phase = ?phase, bot_passed = 2\<rparr>)" for b
    by (simp add: Bot_new_def bot_defs gate_defs counted_def RunState_new_def barrier_coordinate_def)
  obtain b where "load_run one_bot grow ?t \<lparr>lt_state = counted 2 (RunState_new one_bot), lt_bots = (lt_bots ?t)[0 :=
      \<lparr>bot_index = 0, bot_buffer = b, bot_phase = ?phase, bot_passed = 2\<rparr>], lt_clock = lt_clock ?t\<rparr>"
    "reader_inv b" "readable_bytes b = []"
    by (rule bot_joins [OF load_start new entered])
  with that show thesis by simp
qed

lemma one_bot_moves:
  assumes "reader_inv b" "readable_bytes b = []" "now \<le> now'"
    and run: "load_run one_bot grow t (one_state st b (Bot_writing packet (After_move kind started)) k now)"
    and xy: "move_coordinates one_bot 0 kind = (x, y)"
    and ending: "\<And>b. reader_inv b \<Longrightarrow> readable_bytes b = [] \<Longrightarrow>
      move_completed one_bot kind started (now', now')
        (st, \<lparr>bot_index = 0, bot_buffer = b, bot_phase = Bot_reading (For_move kind started), bot_passed = k\<rparr>)
      = Some (st', \<lparr>bot_index = 0, bot_buffer = b, bot_phase = phase', bot_passed = k'\<rparr>)"
  obtains b' where "load_run one_bot grow t (one_state st' b' phase' k' now')" "reader_inv b'" "readable_bytes b' = []"
proof -
  let ?ev = "PlayerMovedEvent 1 \<lparr>grid_x = x, grid_y = y\<rparr>"
  obtain b1 b2 where b1: "ReceiveBuffer_append grow b (frame (event_type ?ev) (event_payload ?ev)) = Inr b1"
    and b2: "\<forall>fits. fits (server_event_of ?ev) \<longrightarrow> wait_for read_next_server_event fits b1 = Some (Fetched (), b2)"
      "reader_inv b2" "readable_bytes b2 = []"
    by (rule event_arrives [OF assms(1,2), of grow ?ev])
  have "load_step one_bot grow (one_state st b (Bot_writing packet (After_move kind started)) k now)
      (one_state st b (Bot_reading (For_move kind started)) k now)"
    using assms(1,2) xy
    by (intro one_step bot_write_step [where packet = packet and after = "After_move kind started"])
      (simp_all add: bot_defs wait_for_nothing reader_inv_def)
  moreover have "length (frame (event_type ?ev) (event_payload ?ev)) \<le> read_chunk_size"
    using event_packet_size [of ?ev] unfolding read_chunk_size_def by linarith
  then have "load_step one_bot grow (one_state st b (Bot_reading (For_move kind started)) k now)
      (one_state st' b2 phase' k' now')"
    using b1 spec [OF b2(1), of "is_move_event x y"] xy ending [OF b2(2,3)] assms(3)
    by (intro one_step bot_reads [where what = "For_move kind started" and result = "Inr (frame (event_type ?ev) (event_payload ?ev))"])
      (simp_all add: await_move_def wait_for_move_event_def is_move_event_def)
  ultimately show thesis using that [OF _ b2(2,3)] load_more [OF load_more [OF run]] by blast
qed

lemma one_bot_run:
  obtains t where "load_run one_bot grow (one_state (RunState_new one_bot) (new_buffer grow) Bot_connecting 0 0) t"
    "load_finished t" "rs_failure (lt_state t) = None" "rs_latencies (lt_state t) = [5]" "elapsed (lt_state t) = Some 5"
proof -
  let ?st = "RunState_new one_bot" and ?b = "new_buffer grow"
  let ?final = "client_completed (record_sample \<lparr>started_at = 0, completed_at = 5\<rparr> (counted 3 ?st))"
  obtain b where "load_run one_bot grow (one_state ?st ?b Bot_connecting 0 0)
      (one_state (counted 2 ?st) b (Bot_writing (move_packet 0 0) (After_move Barrier_move 0)) 2 0)"
    "reader_inv b" "readable_bytes b = []"
    by (rule one_bot_enters)
  note b = this
  have reached: "move_completed one_bot Barrier_move 0 (0, 0) (counted 2 ?st, \<lparr>bot_index = 0, bot_buffer = c,
        bot_phase = phase, bot_passed = 2\<rparr>)
      = Some (counted 3 ?st, \<lparr>bot_index = 0, bot_buffer = c,
          bot_phase = Bot_writing (move_packet 1 1) (After_move (Measured_move 0) 0), bot_passed = 3\<rparr>)" for c phase
    by (simp add: bot_defs gate_defs counted_def RunState_new_def)
  obtain b1 where b1: "load_run one_bot grow (one_state ?st ?b Bot_connecting 0 0)
      (one_state (counted 3 ?st) b1 (Bot_writing (move_packet 1 1) (After_move (Measured_move 0) 0)) 3 0)"
    "reader_inv b1" "readable_bytes b1 = []"
    by (rule one_bot_moves [OF b(2,3) order_refl b(1) one_coordinates(2) reached])
  have leaves: "observe_leaves 0 0 b = Some (Fetched (), 0, b)" for b
    by (simp add: observe_leaves_def count_events.simps)
  have completed: "move_completed one_bot (Measured_move 0) 0 (5, 5) (counted 3 ?st, \<lparr>bot_index = 0, bot_buffer = c,
        bot_phase = phase, bot_passed = 3\<rparr>)
      = Some (?final, \<lparr>bot_index = 0, bot_buffer = c, bot_phase = Bot_writing (frame leave_room []) After_leave,
          bot_passed = 4\<rparr>)" for c phase
    by (simp add: bot_defs gate_defs counted_def RunState_new_def record_sample_def leaves)
  have "(0 :: int) \<le> 5" by simp
  then obtain b2 where b2: "load_run one_bot grow (one_state ?st ?b Bot_connecting 0 0)
      (one_state ?final b2 (Bot_writing (frame leave_room []) After_leave) 4 5)"
    by (rule one_bot_moves [OF b1(2,3) _ b1(1) one_coordinates(1) completed])
  have "load_step one_bot grow (one_state ?final b2 (Bot_writing (frame leave_room []) After_leave) 4 5)
      (one_state ?final b2 Bot_returned 4 5)"
    by (intro one_step bot_write_step [where packet = "frame leave_room []" and after = After_leave])
      (simp_all add: bot_defs)
  from load_more [OF b2 this] show thesis
    by (rule that) (simp_all add: load_finished_def client_completed_def record_sample_def counted_def
        RunState_new_def elapsed_def size_mul_def)
qed

section \<open>Lemmas on runs\<close>

lemma run_inv:
  assumes "start_load_test is_address grow now config = Inr t0" "load_run config grow t0 t"
  shows "load_inv config t"
  using load_run_inv [OF assms(2) load_start_inv [OF assms(1)]] .

lemma live_bot:
  assumes "load_inv config t" "i < length (lt_bots t)" "phase_rank (bot_phase (lt_bots t ! i)) \<noteq> None"
  shows "phase_rank (bot_phase (lt_bots t ! i)) = Some (bot_passed (lt_bots t ! i))"
    and "j < length (lt_bots t) \<Longrightarrow> phase_floor (bot_phase (lt_bots t ! i)) \<le> bot_passed (lt_bots t ! j)"
proof -
  have fine: "bot_fine config (map bot_passed (lt_bots t)) (lt_clock t) i (lt_bots t ! i)"
    using assms by (simp add: load_inv_def)
  then show rank: "phase_rank (bot_phase (lt_bots t ! i)) = Some (bot_passed (lt_bots t ! i))"
    using assms(3) by (simp add: bot_fine_def)
  have own: "phase_floor phase \<le> k" if "phase_rank phase = Some k" for phase k
    using that by (cases phase) auto
  show "phase_floor (bot_phase (lt_bots t ! i)) \<le> bot_passed (lt_bots t ! j)" if "j < length (lt_bots t)"
    using fine assms(3) own [OF rank] that by (cases "j = i") (simp_all add: bot_fine_def)
qed

lemma all_passed_gate:
  assumes "load_inv config t" "\<And>j. j < length (lt_bots t) \<Longrightarrow> gate_rank g \<le> bot_passed (lt_bots t ! j)"
  shows "gate_open g (lt_state t)"
proof -
  have "counts_match (map bot_passed (lt_bots t)) (lt_state t)" using assms(1) by (simp add: load_inv_def)
  moreover have "\<forall>p\<in>set (map bot_passed (lt_bots t)). gate_rank g \<le> p"
    using assms(2) by (auto simp: in_set_conv_nth)
  ultimately show ?thesis
    using all_passed_iff [OF _ gate_rank_bounds] by (simp add: gate_open_counter)
qed

text \<open>The gates a bot can come to stand in.\<close>

definition only_gates :: "gate set \<Rightarrow> bot_state option \<Rightarrow> bool" where
  "only_gates G r \<longleftrightarrow> (\<forall>s g. r = Some s \<longrightarrow> bot_phase (snd s) = Bot_gate g \<longrightarrow> g \<in> G)"

lemma only_gates_mono: "only_gates G r \<Longrightarrow> G \<subseteq> H \<Longrightarrow> only_gates H r"
  unfolding only_gates_def by blast

lemma only_gates_goes [simp]:
  "only_gates G (Some (bot_goes phase s)) \<longleftrightarrow> (\<forall>g. phase = Bot_gate g \<longrightarrow> g \<in> G)" "only_gates G None"
  by (simp_all add: only_gates_def)

lemma only_gates_send: "only_gates G (Some (send_packet type bytes after s))"
  by (simp add: send_packet_def split: sum.split)

lemma only_gates_move: "only_gates G (Some (perform_move config kind started s))"
  by (simp add: perform_move_def case_prod_beta only_gates_send)

lemma only_gates_waits: "(\<And>s. only_gates G (continue s)) \<Longrightarrow> only_gates G (bot_waits r what continue s)"
  by (induction r what continue s rule: bot_waits.induct) (simp_all add: Let_def split: fetched.split)

lemma only_gates_gate:
  "(\<And>s. only_gates G (continue s)) \<Longrightarrow> only_gates (insert g G) (wait_for_gate g continue s)"
  "(\<And>s. only_gates G (continue s)) \<Longrightarrow> gate_open g (fst s) \<or> run_failed (fst s) \<Longrightarrow>
    only_gates G (wait_for_gate g continue s)"
  by (auto simp: wait_for_gate_def only_gates_mono [OF _ subset_insertI])

lemma only_gates_leaves: "only_gates {} (await_leaves n s)"
proof -
  obtain st me where s: "s = (st, me)" by fastforce
  show ?thesis
  proof (cases "observe_leaves (bot_index me) n (bot_buffer me)")
    case None
    then show ?thesis by (simp add: s only_gates_def)
  next
    case (Some r)
    then show ?thesis
      using only_gates_waits [of "{}" "\<lambda>s. Some (send_packet leave_room [] After_leave s)", OF only_gates_send]
      by (simp add: s case_prod_beta del: bot_waits.simps)
  qed
qed

lemma only_gates_measured: "only_gates {Gate_completed} (measured_moves config now n s)"
  using only_gates_gate(1) [OF only_gates_leaves] only_gates_move by (simp add: measured_moves_def)

lemma only_gates_reach: "only_gates {Gate_barrier, Gate_completed} (reach_barrier config now s)"
  unfolding reach_barrier_def by (rule only_gates_gate(1) [OF only_gates_measured])

lemma only_gates_barrier: "only_gates {Gate_barrier, Gate_completed} (measurement_barrier config now s)"
  using only_gates_waits [OF only_gates_reach] only_gates_move
  by (simp add: measurement_barrier_def await_barrier_def)

lemma only_gates_warmup: "only_gates {Gate_warmed_up, Gate_barrier, Gate_completed} (warmup_moves config now n s)"
  using only_gates_gate(1) [OF only_gates_barrier] only_gates_move by (simp add: warmup_moves_def)

text \<open>A check of an open gate, or after a failure, ends the wait.\<close>

lemma gate_left:
  assumes "gate_open g (fst s) \<or> run_failed (fst s)" "gate_timer_expired config clock g s = Some s'"
  shows "bot_phase (snd s') \<noteq> Bot_gate g"
proof -
  have "\<exists>G. only_gates G (gate_timer_expired config clock g s) \<and> g \<notin> G"
  proof (cases g)
    case Gate_ready
    with assms(1) only_gates_gate(2) [OF only_gates_warmup] show ?thesis
      by (intro exI [of _ "{Gate_warmed_up, Gate_barrier, Gate_completed}"]) simp
  next
    case Gate_warmed_up
    with assms(1) only_gates_gate(2) [OF only_gates_barrier] show ?thesis
      by (intro exI [of _ "{Gate_barrier, Gate_completed}"]) simp
  next
    case Gate_barrier
    with assms(1) only_gates_gate(2) [OF only_gates_measured] show ?thesis
      by (intro exI [of _ "{Gate_completed}"]) simp
  next
    case Gate_completed
    with assms(1) only_gates_gate(2) [OF only_gates_leaves] show ?thesis
      by (intro exI [of _ "{}"]) simp
  qed
  with assms(2) show ?thesis unfolding only_gates_def by blast
qed

lemma gate_check_ends:
  assumes "load_inv config t" "i < length (lt_bots t)" "bot_phase (lt_bots t ! i) = Bot_gate g"
  shows "\<exists>s. gate_timer_expired config clock g (lt_state t, lt_bots t ! i) = Some s"
proof -
  let ?v = "view_at config t i (snd clock)"
  have live: "phase_rank (bot_phase (lt_bots t ! i)) \<noteq> None" using assms(3) by simp
  have "running ?v (gate_rank g) (phase_samples config (Bot_gate g)) (lt_state t, lt_bots t ! i)"
    using load_inv_running [OF assms(1,2), of "snd clock"] live_bot(1) [OF assms(1,2) live] assms(3) by simp
  moreover have "others_passed ?v (gate_rank g - 1)"
    using live_bot(2) [OF assms(1,2) live] assms(3) by (simp add: others_passed_def view_at_def)
  ultimately have "suspends ?v (gate_timer_expired config clock g (lt_state t, lt_bots t ! i))"
    using gate_timer_suspends [of ?v g _ clock] by (simp add: view_at_def)
  then show ?thesis by (auto simp: suspends_def)
qed

lemma read_ends:
  assumes "load_inv config t" "i < length (lt_bots t)" "bot_phase (lt_bots t ! i) = Bot_reading what"
    and "length bytes \<le> read_chunk_size" "lt_clock t \<le> fst clock" "fst clock \<le> snd clock"
  shows "\<exists>s b. ReceiveBuffer_append grow (bot_buffer (lt_bots t ! i)) bytes = Inr b
    \<and> bot_read_completed config grow clock (Inr bytes) what (lt_state t, lt_bots t ! i) = Some s"
proof -
  let ?v = "view_at config t i (snd clock)" and ?s = "(lt_state t, lt_bots t ! i)"
  have view: "bv_config ?v = config" "bv_now ?v = snd clock" by (simp_all add: view_at_def)
  have rest: "at_rest ?v (lt_clock t) ?s" using load_inv_at_rest [OF assms(1,2)] assms(3) by simp
  have "phase_rank (bot_phase (snd ?s)) \<noteq> None" using assms(3) by simp
  then obtain k n where bot: "running ?v k n ?s" "phase_rank (bot_phase (lt_bots t ! i)) = Some k"
    "phase_samples config (bot_phase (lt_bots t ! i)) = n" "others_passed ?v (phase_floor (bot_phase (lt_bots t ! i)))"
    "phase_fine config (lt_clock t) (bot_phase (lt_bots t ! i))" "reader_settled (bot_buffer (lt_bots t ! i))"
    using at_rest_cases [OF rest] assms(3) view by auto
  then have "suspends ?v (bot_read_completed (bv_config ?v) grow clock (Inr bytes) what ?s)"
    using assms(3,4,6) phase_fine_later [OF _ assms(5)] view by (intro read_completed_suspends) auto
  moreover have "\<exists>b. ReceiveBuffer_append grow (bot_buffer (lt_bots t ! i)) bytes = Inr b"
    using settled_append [OF _ bot(6) assms(4)] running_reader [OF bot(1)] by auto
  ultimately show ?thesis by (auto simp: suspends_def view)
qed

text \<open>What a test that ended without a failure leaves behind.\<close>

lemma finished_test:
  assumes "start_load_test is_address grow now config = Inr t0" "load_run config grow t0 t" "load_finished t"
    and "rs_failure (lt_state t) = None"
  obtains e r where "elapsed (lt_state t) = Some e" "0 \<le> e"
    "list_all (\<lambda>me. bot_phase me = Bot_returned) (lt_bots t)"
    "length (rs_latencies (lt_state t)) = cfg_client_count config * cfg_measured_moves_per_client config"
    "list_all (\<lambda>l. 0 \<le> l \<and> l \<le> e) (rs_latencies (lt_state t))"
    "summarize_latencies (rs_latencies (lt_state t)) = Inr r"
    "sample_count r = cfg_client_count config * cfg_measured_moves_per_client config"
proof -
  let ?st = "lt_state t" and ?n = "cfg_client_count config * cfg_measured_moves_per_client config"
  have inv: "load_inv config t" by (rule run_inv [OF assms(1,2)])
  have returned: "\<forall>me\<in>set (lt_bots t). bot_phase me = Bot_returned"
    using inv assms(3) assms(4) by (auto simp: load_inv_def load_finished_def list_all_iff)
  then have "length (rs_latencies ?st) = samples_of config (lt_bots t)"
    using inv by (simp add: load_inv_def)
  moreover have "samples_of config (lt_bots t) = sum_list (map (\<lambda>_. cfg_measured_moves_per_client config) (lt_bots t))"
    using returned unfolding samples_of_def by (intro arg_cong [of _ _ sum_list] map_cong) simp_all
  then have "samples_of config (lt_bots t) = ?n"
    using inv by (simp add: load_inv_def sum_list_triv)
  ultimately have count: "length (rs_latencies ?st) = ?n" by simp
  have "0 < ?n" using inv validate_config_None(1,4) by (simp add: load_inv_def)
  then have some: "rs_latencies ?st \<noteq> []" using count by (metis length_0_conv less_irrefl)
  obtain a c where ends: "rs_measurement_started_at ?st = Some a" "rs_measurement_completed_at ?st = Some c"
    and within: "\<forall>l\<in>set (rs_latencies ?st). 0 \<le> l \<and> l \<le> c - a"
    using inv some by (auto simp: load_inv_def samples_ok_def split: option.splits)
  have expected: "rs_expected_samples ?st = ?n" using inv by (simp add: load_inv_def)
  have el: "elapsed ?st = Some (c - a)" by (simp add: elapsed_def ends count expected)
  have pos: "0 \<le> c - a" using within some by (metis hd_in_set order_trans)
  have "\<not> list_ex (\<lambda>l. l < 0) (rs_latencies ?st)" using within by (auto simp: list_ex_iff)
  then obtain r where r: "summarize_latencies (rs_latencies ?st) = Inr r" "sample_count r = ?n"
    using some count by (simp add: summarize_latencies_def Let_def)
  show ?thesis by (rule that [of "c - a" r]) (use pos r el returned count within in \<open>simp_all add: list_all_iff\<close>)
qed

section \<open>The stages of a test\<close>

text \<open>
  What a bot is at work on, \<open>None\<close> in a gate and after an exception; a bot that has returned counts
  as leaving. Every gate ends one stage and opens the next.
\<close>

datatype stage = Joining | Warming_up | At_barrier | Measuring | Leaving

fun stage_of_move :: "move_kind \<Rightarrow> stage" where
  "stage_of_move (Warmup_move _) = Warming_up"
| "stage_of_move Barrier_move = At_barrier"
| "stage_of_move (Measured_move _) = Measuring"

fun stage_of :: "bot_phase \<Rightarrow> stage option" where
  "stage_of Bot_connecting = Some Joining"
| "stage_of (Bot_writing _ After_join) = Some Joining"
| "stage_of (Bot_writing _ (After_move kind _)) = Some (stage_of_move kind)"
| "stage_of (Bot_writing _ After_leave) = Some Leaving"
| "stage_of (Bot_reading For_entry) = Some Joining"
| "stage_of (Bot_reading (For_move kind _)) = Some (stage_of_move kind)"
| "stage_of (Bot_reading For_barrier) = Some At_barrier"
| "stage_of (Bot_reading (For_leaves _)) = Some Leaving"
| "stage_of Bot_returned = Some Leaving"
| "stage_of _ = None"

fun stage_before :: "gate \<Rightarrow> stage" where
  "stage_before Gate_ready = Joining"
| "stage_before Gate_warmed_up = Warming_up"
| "stage_before Gate_barrier = At_barrier"
| "stage_before Gate_completed = Measuring"

fun stage_behind :: "gate \<Rightarrow> stage" where
  "stage_behind Gate_ready = Warming_up"
| "stage_behind Gate_warmed_up = At_barrier"
| "stage_behind Gate_barrier = Measuring"
| "stage_behind Gate_completed = Leaving"

fun stage_rank :: "stage \<Rightarrow> nat" where
  "stage_rank Joining = 0"
| "stage_rank Warming_up = 1"
| "stage_rank At_barrier = 2"
| "stage_rank Measuring = 3"
| "stage_rank Leaving = 4"

lemma stage_rank_inject: "stage_rank a = stage_rank b \<Longrightarrow> a = b"
  by (cases a; cases b) simp_all

lemma stage_of_rank:
  "stage_of phase = Some a \<Longrightarrow> phase_rank phase = Some (stage_rank a)" "stage_of phase = Some a \<Longrightarrow> phase_floor phase = stage_rank a"
proof -
  have move: "kind_rank kind = stage_rank (stage_of_move kind)" for kind by (cases kind) simp_all
  show rank: "stage_of phase = Some a \<Longrightarrow> phase_rank phase = Some (stage_rank a)"
    by (induction phase rule: stage_of.induct) (auto simp: move)
  show "phase_floor phase = stage_rank a" if "stage_of phase = Some a"
    using rank [OF that] that by (cases phase) simp_all
qed

section \<open>Properties\<close>

text \<open>
  C20: A load test that ends without a failure has measured exactly what it was asked for: all
  bots have returned, there are as many samples as clients times measured moves, no latency is
  negative or longer than the measured interval, the error \<open>load test completed without the
  expected samples\<close> cannot occur, and the result counts all samples; the only way to no
  result is an interval of length zero. A test in which a bot failed ends with a bot's message.
\<close>
theorem load_test_measures_everything:
  assumes "start_load_test is_address grow now config = Inr t0" and "load_run config grow t0 t"
    and "load_finished t"
  shows "case rs_failure (lt_state t) of
      Some m \<Rightarrow> load_test_result config (lt_state t) = Inl m
    | None \<Rightarrow> (\<exists>e. elapsed (lt_state t) = Some e
        \<and> list_all (\<lambda>me. bot_phase me = Bot_returned) (lt_bots t)
        \<and> length (rs_latencies (lt_state t)) = cfg_client_count config * cfg_measured_moves_per_client config
        \<and> list_all (\<lambda>l. 0 \<le> l \<and> l \<le> e) (rs_latencies (lt_state t))
        \<and> (case load_test_result config (lt_state t) of
             Inl m \<Rightarrow> e = 0 \<and> m = ''failed to summarize load test metrics''
           | Inr r \<Rightarrow> res_elapsed r = e \<and> sample_count (res_latency r) =
               cfg_client_count config * cfg_measured_moves_per_client config))"
proof (cases "rs_failure (lt_state t)")
  case (Some m)
  then show ?thesis by (simp add: load_test_result_def)
next
  case None
  from finished_test [OF assms None] obtain e r where facts: "elapsed (lt_state t) = Some e" "0 \<le> e"
    "list_all (\<lambda>me. bot_phase me = Bot_returned) (lt_bots t)"
    "length (rs_latencies (lt_state t)) = cfg_client_count config * cfg_measured_moves_per_client config"
    "list_all (\<lambda>l. 0 \<le> l \<and> l \<le> e) (rs_latencies (lt_state t))"
    "summarize_latencies (rs_latencies (lt_state t)) = Inr r"
    "sample_count r = cfg_client_count config * cfg_measured_moves_per_client config" .
  then show ?thesis by (simp add: load_test_result_def None calculate_throughput_def Let_def)
qed

theorem load_test_measures_everything_witness:
  "\<exists>t0 t r. start_load_test (\<lambda>_. True) (\<lambda>_ n. n) 0 one_bot = Inr t0 \<and> load_run one_bot (\<lambda>_ n. n) t0 t \<and> load_finished t
    \<and> load_test_result one_bot (lt_state t) = Inr r \<and> sample_count (res_latency r) = 1"
proof -
  obtain t where run: "load_run one_bot (\<lambda>_ n. n)
      (one_state (RunState_new one_bot) (new_buffer (\<lambda>_ n. n)) Bot_connecting 0 0) t"
    and fin: "load_finished t" "rs_failure (lt_state t) = None" "elapsed (lt_state t) = Some 5"
    by (rule one_bot_run)
  from load_test_measures_everything [OF one_bot_starts run fin(1)] fin
  obtain r where "load_test_result one_bot (lt_state t) = Inr r"
    "sample_count (res_latency r) = 1" by (auto split: sum.splits)
  with run fin(1) one_bot_starts show ?thesis by blast
qed

text \<open>
  C22: The gates of the load test never block it. When every bot has returned or stands in a
  gate, and some bot stands in one, then a bot's next check of its gate lets it go on: the
  gate of a bot that is furthest behind is open. And once a bot has failed, every bot that
  stands in a gate leaves it at its next check. Bots that wait for a packet are not covered.
\<close>
theorem gates_never_block:
  assumes "start_load_test is_address grow now config = Inr t0" and "load_run config grow t0 t"
    and "run_failed (lt_state t) \<or>
      list_all (\<lambda>me. bot_phase me = Bot_returned \<or> (\<exists>g. bot_phase me = Bot_gate g)) (lt_bots t)"
    and "k < length (lt_bots t)" "bot_phase (lt_bots t ! k) = Bot_gate h"
  shows "\<exists>i<length (lt_bots t). \<exists>g. bot_phase (lt_bots t ! i) = Bot_gate g \<and> (run_failed (lt_state t) \<longrightarrow> i = k) \<and>
    (\<forall>clock. \<exists>s. gate_timer_expired config clock g (lt_state t, lt_bots t ! i) = Some s
      \<and> bot_phase (snd s) \<noteq> Bot_gate g)"
proof -
  have inv: "load_inv config t" by (rule run_inv [OF assms(1,2)])
  have leaves: "\<forall>clock. \<exists>s. gate_timer_expired config clock g (lt_state t, lt_bots t ! i) = Some s \<and> bot_phase (snd s) \<noteq> Bot_gate g"
    if "i < length (lt_bots t)" "bot_phase (lt_bots t ! i) = Bot_gate g"
      "gate_open g (lt_state t) \<or> run_failed (lt_state t)" for i g
    using gate_check_ends [OF inv that(1,2)] gate_left that(3) by (metis fst_conv)
  show ?thesis
  proof (cases "run_failed (lt_state t)")
    case True
    with leaves [OF assms(4,5)] assms(4,5) show ?thesis by blast
  next
    case False
    let ?P = "\<lambda>i. i < length (lt_bots t) \<and> (\<exists>g. bot_phase (lt_bots t ! i) = Bot_gate g)"
    have "?P k" using assms(4,5) by blast
    then obtain i where i: "?P i" "\<forall>j. ?P j \<longrightarrow> bot_passed (lt_bots t ! i) \<le> bot_passed (lt_bots t ! j)"
      using ex_has_least_nat [of ?P k "\<lambda>i. bot_passed (lt_bots t ! i)"] by blast
    then obtain g where g: "bot_phase (lt_bots t ! i) = Bot_gate g" by blast
    have rank: "bot_passed (lt_bots t ! i) = gate_rank g" using live_bot(1) [OF inv, of i] i(1) g by simp
    have "gate_rank g \<le> bot_passed (lt_bots t ! j)" if j: "j < length (lt_bots t)" for j
    proof (cases "\<exists>g. bot_phase (lt_bots t ! j) = Bot_gate g")
      case True
      with i(2) j rank show ?thesis by metis
    next
      case False
      with assms(3) \<open>\<not> run_failed (lt_state t)\<close> j have "bot_phase (lt_bots t ! j) = Bot_returned"
        by (auto simp: list_all_length)
      then have "bot_passed (lt_bots t ! j) = 4" using live_bot(1) [OF inv j] by simp
      then show ?thesis by (cases g) simp_all
    qed
    from leaves [OF _ g] all_passed_gate [OF inv this] i(1) g False show ?thesis by blast
  qed
qed

definition two_bots :: LoadTestConfig where
  "two_bots = one_bot\<lparr>cfg_client_count := 2\<rparr>"

lemma two_bots_simps [simp]:
  "cfg_warmup_moves_per_client two_bots = 0" "cfg_measured_moves_per_client two_bots = 1" "cfg_client_count two_bots = 2"
  "cfg_host two_bots = cfg_host one_bot"
  by (simp_all add: two_bots_def)

text \<open>
  The first of two bots waits at the first gate, the second has gone on to the next. The first
  then goes through both gates to its barrier move.
\<close>

lemma two_bots_start:
  "start_load_test (\<lambda>_. True) grow 0 two_bots =
     Inr \<lparr>lt_state = RunState_new two_bots, lt_bots = [Bot_new grow 0, Bot_new grow 1], lt_clock = 0\<rparr>"
proof -
  have "validate_config two_bots = None"
    by (simp add: validate_config_def two_bots_def one_bot_simps int32_max_def uint64_max_def)
  moreover have "[0..<2] = [0, 1 :: nat]" by (simp add: upt_rec)
  ultimately show ?thesis by (simp add: start_load_test_def)
qed

abbreviation two_states :: "RunState \<Rightarrow> ReceiveBuffer \<Rightarrow> bot_phase \<Rightarrow> nat \<Rightarrow> ReceiveBuffer \<Rightarrow> bot_phase \<Rightarrow> LoadTest" where
  "two_states st b phase k b' phase' \<equiv> \<lparr>lt_state = st,
     lt_bots = [\<lparr>bot_index = 0, bot_buffer = b, bot_phase = phase, bot_passed = k\<rparr>,
       \<lparr>bot_index = 1, bot_buffer = b', bot_phase = phase', bot_passed = 2\<rparr>], lt_clock = 0\<rparr>"

lemma two_bots_in_gates:
  obtains t0 b b' where "start_load_test (\<lambda>_. True) grow 0 two_bots = Inr t0"
    "load_run two_bots grow t0 (two_states (client_warmed_up (client_ready (client_ready (RunState_new two_bots))))
       b (Bot_gate Gate_ready) 1 b' (Bot_gate Gate_warmed_up))"
    "reader_inv b'" "readable_bytes b' = []"
proof -
  let ?st = "RunState_new two_bots"
  define t0 where "t0 = \<lparr>lt_state = ?st, lt_bots = [Bot_new grow 0, Bot_new grow 1], lt_clock = 0\<rparr>"
  have start: "start_load_test (\<lambda>_. True) grow 0 two_bots = Inr t0" by (simp add: two_bots_start t0_def)
  obtain b where b: "load_run two_bots grow t0 \<lparr>lt_state = client_ready ?st, lt_bots = (lt_bots t0)[0 :=
      \<lparr>bot_index = 0, bot_buffer = b, bot_phase = Bot_gate Gate_ready, bot_passed = 1\<rparr>], lt_clock = lt_clock t0\<rparr>"
    by (rule bot_joins [where t = t0 and i = 0 and st = "client_ready ?st" and k = 1 and
          phase = "Bot_gate Gate_ready", OF load_start])
      (simp_all add: t0_def Bot_new_def wait_for_gate_def bot_counts_def gate_defs run_failed_def RunState_new_def bot_goes_def)
  obtain b' where b': "load_run two_bots grow t0 \<lparr>lt_state = client_warmed_up (client_ready (client_ready ?st)),
      lt_bots = (lt_bots t0)[0 := \<lparr>bot_index = 0, bot_buffer = b, bot_phase = Bot_gate Gate_ready, bot_passed = 1\<rparr>,
        1 := \<lparr>bot_index = 1, bot_buffer = b', bot_phase = Bot_gate Gate_warmed_up, bot_passed = 2\<rparr>],
      lt_clock = lt_clock t0\<rparr>" "reader_inv b'" "readable_bytes b' = []"
    by (rule bot_joins [where i = 1 and st = "client_warmed_up (client_ready (client_ready ?st))" and k = 2 and
          phase = "Bot_gate Gate_warmed_up", OF b])
      (simp_all add: t0_def Bot_new_def wait_for_gate_def bot_counts_def warmup_moves_def gate_defs run_failed_def
        RunState_new_def bot_goes_def)
  from that [OF start _ b'(2,3)] b'(1) show thesis by (simp add: t0_def)
qed

abbreviation two_ready :: RunState where
  "two_ready \<equiv> client_warmed_up (client_warmed_up (client_ready (client_ready (RunState_new two_bots))))"

lemma first_step:
  assumes "load_run two_bots grow t0 (two_states st b phase k b' phase')"
    and "bot_step two_bots grow (0, 0) (st, \<lparr>bot_index = 0, bot_buffer = b, bot_phase = phase, bot_passed = k\<rparr>)
      (st2, \<lparr>bot_index = 0, bot_buffer = b2, bot_phase = phase2, bot_passed = k2\<rparr>)"
  shows "load_run two_bots grow t0 (two_states st2 b2 phase2 k2 b' phase')"
  using load_more [OF assms(1)] resume_bot [of 0 "two_states st b phase k b' phase'" "(0, 0)" two_bots grow] assms(2) by simp

lemma two_bots_at_barrier:
  obtains t0 b b' where "start_load_test (\<lambda>_. True) grow 0 two_bots = Inr t0"
    "load_run two_bots grow t0 (two_states two_ready b
       (Bot_writing (move_packet 0 0) (After_move Barrier_move 0)) 2 b' (Bot_gate Gate_warmed_up))"
    "reader_inv b'" "readable_bytes b' = []"
proof -
  obtain t0 b b' where run: "start_load_test (\<lambda>_. True) grow 0 two_bots = Inr t0"
    "load_run two_bots grow t0 (two_states (client_warmed_up (client_ready (client_ready (RunState_new two_bots))))
       b (Bot_gate Gate_ready) 1 b' (Bot_gate Gate_warmed_up))" "reader_inv b'" "readable_bytes b' = []"
    by (rule two_bots_in_gates)
  have "load_run two_bots grow t0 (two_states two_ready b
       (Bot_writing (move_packet 0 0) (After_move Barrier_move 0)) 2 b' (Bot_gate Gate_warmed_up))"
    by (rule first_step [OF run(2) bot_checks_gate [where g = Gate_ready]])
      (simp_all add: bot_defs gate_defs RunState_new_def barrier_coordinate_def)
  from that [OF run(1) this run(3,4)] show thesis .
qed

theorem gates_never_block_witness:
  "\<exists>t0 t. start_load_test (\<lambda>_. True) (\<lambda>_ n. n) 0 two_bots = Inr t0 \<and> load_run two_bots (\<lambda>_ n. n) t0 t
    \<and> map bot_phase (lt_bots t) = [Bot_gate Gate_ready, Bot_gate Gate_warmed_up]
    \<and> (\<exists>i<length (lt_bots t). \<exists>g. bot_phase (lt_bots t ! i) = Bot_gate g \<and>
        (\<forall>clock. \<exists>s. gate_timer_expired two_bots clock g (lt_state t, lt_bots t ! i) = Some s
          \<and> bot_phase (snd s) \<noteq> Bot_gate g))"
proof -
  obtain t0 b b' where run: "start_load_test (\<lambda>_. True) (\<lambda>_ n. n) 0 two_bots = Inr t0"
    "load_run two_bots (\<lambda>_ n. n) t0 (two_states (client_warmed_up (client_ready (client_ready (RunState_new two_bots))))
       b (Bot_gate Gate_ready) 1 b' (Bot_gate Gate_warmed_up))" (is "load_run _ _ _ ?t")
    by (rule two_bots_in_gates)
  have found: "\<exists>i<length (lt_bots ?t). \<exists>g. bot_phase (lt_bots ?t ! i) = Bot_gate g \<and>
        (\<forall>clock. \<exists>s. gate_timer_expired two_bots clock g (lt_state ?t, lt_bots ?t ! i) = Some s
          \<and> bot_phase (snd s) \<noteq> Bot_gate g)"
    using gates_never_block [OF run, of 0 Gate_ready] by auto
  show ?thesis by (intro exI [of _ t0] exI [of _ ?t] conjI run found) simp
qed

text \<open>
  C24: The gates keep the stages of the load test apart. Of all bots that are at work, neither in
  a gate nor failed, any two are in the same stage: all are joining, or in warmup moves, or at
  the measurement barrier, or in measured moves, or leaving; so no measured move ever runs
  beside a warmup move, the barrier move or a bot that is still joining. A bot in a gate is
  next to them: every bot at work is in the stage the gate ends or in the one it opens, and
  two bots stand in the same gate or in two that follow each other.
\<close>
theorem gates_keep_phases_apart:
  assumes "start_load_test is_address grow now config = Inr t0" and "load_run config grow t0 t"
    and "me \<in> set (lt_bots t)" and "other \<in> set (lt_bots t)"
  shows "(\<forall>a b. stage_of (bot_phase me) = Some a \<and> stage_of (bot_phase other) = Some b \<longrightarrow> a = b)
    \<and> (\<forall>g b. bot_phase me = Bot_gate g \<and> stage_of (bot_phase other) = Some b \<longrightarrow> b = stage_before g \<or> b = stage_behind g)
    \<and> (\<forall>g h. bot_phase me = Bot_gate g \<and> bot_phase other = Bot_gate h \<longrightarrow>
        g = h \<or> stage_behind g = stage_before h \<or> stage_behind h = stage_before g)"
proof -
  have inv: "load_inv config t" by (rule run_inv [OF assms(1,2)])
  have mutual: "phase_floor (bot_phase x) \<le> n"
    if "x \<in> set (lt_bots t)" "y \<in> set (lt_bots t)" "phase_rank (bot_phase x) = Some m" "phase_rank (bot_phase y) = Some n" for x y m n
    using that live_bot [OF inv] by (metis in_set_conv_nth option.inject option.simps(3))
  note mine = mutual [OF assms(3,4)] and yours = mutual [OF assms(4,3)]
  show ?thesis
  proof (intro conjI allI impI)
    fix a b assume "stage_of (bot_phase me) = Some a \<and> stage_of (bot_phase other) = Some b"
    then have "stage_rank a = stage_rank b" using mine yours stage_of_rank by (metis antisym)
    then show "a = b" by (rule stage_rank_inject)
  next
    fix g b assume "bot_phase me = Bot_gate g \<and> stage_of (bot_phase other) = Some b"
    then have "gate_rank g - 1 \<le> stage_rank b" "stage_rank b \<le> gate_rank g"
      using mine yours stage_of_rank by (metis phase_floor.simps(1) phase_rank.simps(4))+
    then show "b = stage_before g \<or> b = stage_behind g" by (cases g; cases b) simp_all
  next
    fix g h assume "bot_phase me = Bot_gate g \<and> bot_phase other = Bot_gate h"
    then have "gate_rank g - 1 \<le> gate_rank h" "gate_rank h - 1 \<le> gate_rank g" using mine yours by simp_all
    then show "g = h \<or> stage_behind g = stage_before h \<or> stage_behind h = stage_before g" by (cases g; cases h) simp_all
  qed
qed

theorem gates_keep_phases_apart_witness:
  "\<exists>t0 t me other. start_load_test (\<lambda>_. True) (\<lambda>_ n. n) 0 two_bots = Inr t0 \<and> load_run two_bots (\<lambda>_ n. n) t0 t
    \<and> me \<in> set (lt_bots t) \<and> other \<in> set (lt_bots t) \<and> bot_phase me = Bot_gate Gate_warmed_up
    \<and> stage_of (bot_phase other) = Some At_barrier \<and> stage_behind Gate_warmed_up = At_barrier"
proof -
  obtain t0 b b' where run: "start_load_test (\<lambda>_. True) (\<lambda>_ n. n) 0 two_bots = Inr t0"
    "load_run two_bots (\<lambda>_ n. n) t0 (two_states two_ready b
       (Bot_writing (move_packet 0 0) (After_move Barrier_move 0)) 2 b' (Bot_gate Gate_warmed_up))" (is "load_run _ _ _ ?t")
    by (rule two_bots_at_barrier)
  have mem: "lt_bots ?t ! 1 \<in> set (lt_bots ?t)" "lt_bots ?t ! 0 \<in> set (lt_bots ?t)" by simp_all
  have "At_barrier = stage_before Gate_warmed_up \<or> At_barrier = stage_behind Gate_warmed_up"
    using gates_keep_phases_apart [OF run mem] by simp
  with run mem show ?thesis
    by (intro exI [of _ t0] exI [of _ ?t] exI [of _ "lt_bots ?t ! 1"] exI [of _ "lt_bots ?t ! 0"]) simp
qed

text \<open>
  C25: Every resumption of a bot comes to an end and its buffer never overflows: in every state
  a run can reach, whatever a write or a read of at most the size of the read buffer delivers
  and whenever a gate's timer expires, the bot's loops over the received packets terminate at
  the next suspension point, and the bytes of a read always fit, so the exception \<open>receive
  buffer limit exceeded\<close> is never thrown.
\<close>
theorem bot_loops_end:
  assumes "start_load_test is_address grow now config = Inr t0" and "load_run config grow t0 t"
    and "me \<in> set (lt_bots t)" and "lt_clock t \<le> fst clock" and "fst clock \<le> snd clock"
  shows "(bot_phase me = Bot_writing packet after \<longrightarrow>
        (\<exists>s. bot_write_completed config clock error after (lt_state t, me) = Some s))
    \<and> (bot_phase me = Bot_reading what \<and> length bytes \<le> read_chunk_size \<longrightarrow>
        (\<exists>s b. ReceiveBuffer_append grow (bot_buffer me) bytes = Inr b
          \<and> bot_read_completed config grow clock (Inr bytes) what (lt_state t, me) = Some s))
    \<and> (bot_phase me = Bot_gate g \<longrightarrow> (\<exists>s. gate_timer_expired config clock g (lt_state t, me) = Some s))"
proof -
  have inv: "load_inv config t" by (rule run_inv [OF assms(1,2)])
  obtain i where i: "i < length (lt_bots t)" and me: "me = lt_bots t ! i" using assms(3) by (metis in_set_conv_nth)
  let ?v = "view_at config t i (snd clock)" and ?s = "(lt_state t, me)"
  have view: "bv_config ?v = config" "bv_now ?v = snd clock" by (simp_all add: view_at_def)
  note rest = load_inv_at_rest [OF inv i, of "snd clock", folded me]
  have written: "\<exists>s. bot_write_completed config clock error after ?s = Some s"
    if phase: "bot_phase me = Bot_writing packet after"
  proof -
    have "phase_rank (bot_phase (snd ?s)) \<noteq> None" using phase by simp
    then obtain k n where "running ?v k n ?s" "phase_rank (bot_phase me) = Some k"
      "phase_samples config (bot_phase me) = n" "others_passed ?v (phase_floor (bot_phase me))"
      "phase_fine config (lt_clock t) (bot_phase me)"
      using at_rest_cases [OF rest] phase view by auto
    then have "suspends ?v (bot_write_completed (bv_config ?v) clock error after ?s)"
      using phase phase_fine_later [OF _ assms(4)] assms(5) view
      by (intro write_completed_suspends [where packet = packet]) auto
    then show ?thesis by (auto simp: suspends_def view)
  qed
  have read: "\<exists>s b. ReceiveBuffer_append grow (bot_buffer me) bytes = Inr b
      \<and> bot_read_completed config grow clock (Inr bytes) what ?s = Some s"
    if "bot_phase me = Bot_reading what" "length bytes \<le> read_chunk_size"
    using read_ends [OF inv i _ that(2) assms(4,5), of what grow] that(1) me by simp
  show ?thesis using written read gate_check_ends [OF inv i, folded me] by blast
qed

theorem bot_loops_end_witness:
  "\<exists>t me s. load_run one_bot (\<lambda>_ n. n) (one_state (RunState_new one_bot) (new_buffer (\<lambda>_ n. n)) Bot_connecting 0 0) t
    \<and> me \<in> set (lt_bots t) \<and> bot_phase me = Bot_writing (move_packet 0 0) (After_move Barrier_move 0)
    \<and> bot_write_completed one_bot (0, 0) None (After_move Barrier_move 0) (lt_state t, me) = Some s"
proof -
  let ?phase = "Bot_writing (move_packet 0 0) (After_move Barrier_move 0)"
  obtain b where run: "load_run one_bot (\<lambda>_ n. n) (one_state (RunState_new one_bot) (new_buffer (\<lambda>_ n. n)) Bot_connecting 0 0)
      (one_state (counted 2 (RunState_new one_bot)) b ?phase 2 0)"
    by (rule one_bot_enters)
  let ?t = "one_state (counted 2 (RunState_new one_bot)) b ?phase 2 0"
  let ?me = "\<lparr>bot_index = 0, bot_buffer = b, bot_phase = ?phase, bot_passed = 2\<rparr>"
  have me: "?me \<in> set (lt_bots ?t)" by simp
  have "\<exists>s. bot_write_completed one_bot (0, 0) None (After_move Barrier_move 0) (lt_state ?t, ?me) = Some s"
    using bot_loops_end [OF one_bot_starts run me, of "(0, 0)"] by simp
  then obtain s where "bot_write_completed one_bot (0, 0) None (After_move Barrier_move 0) (lt_state ?t, ?me) = Some s" ..
  with run me show ?thesis by (intro exI [of _ ?t] exI [of _ ?me] exI [of _ s]) simp
qed

end
