(* ===== verification/Load_Report.thy ===== *)
theory Load_Report
  imports Load_Properties
begin

text \<open>
  The \<open>main\<close> of \<open>src/benchmark/load_client_main.cpp\<close>: the arguments, the result on standard output
  and the exit code. The texts of standard output and standard error are values. The lemmas
  read the printed report back.
\<close>

section \<open>Operations\<close>

definition microseconds :: "Latency \<Rightarrow> double" where
  "microseconds latency = duration_count 1000 latency"

definition print_usage :: string where
  "print_usage = ''usage: mcrs_load_client [host] [port] [clients] [warmup] [measured]'' @ [CHR 0x0A]"

definition print_result :: "LoadTestResult \<Rightarrow> string" where
  "print_result r =
     (let elapsed_ms = duration_count 1000000 (res_elapsed r); endl = [CHR 0x0A] in
        ''clients: '' @ show_decimal (cfg_client_count (res_config r)) @ endl
      @ ''warmup moves/client: '' @ show_decimal (cfg_warmup_moves_per_client (res_config r)) @ endl
      @ ''measured moves/client: '' @ show_decimal (cfg_measured_moves_per_client (res_config r)) @ endl
      @ ''samples: '' @ show_decimal (sample_count (res_latency r)) @ endl
      @ ''elapsed: '' @ show_fixed elapsed_ms @ '' ms'' @ endl
      @ ''commands/sec: '' @ show_fixed (res_commands_per_second r) @ endl
      @ ''estimated deliveries/sec: '' @ show_fixed (res_estimated_deliveries_per_second r) @ endl
      @ ''latency min/p50/p95/p99/max: ''
      @ show_fixed (microseconds (minimum (res_latency r))) @ '' / ''
      @ show_fixed (microseconds (p50 (res_latency r))) @ '' / ''
      @ show_fixed (microseconds (p95 (res_latency r))) @ '' / ''
      @ show_fixed (microseconds (p99 (res_latency r))) @ '' / ''
      @ show_fixed (microseconds (maximum (res_latency r))) @ '' us'' @ endl)"

text \<open>What the process leaves behind: its exit code, standard output and standard error.\<close>

record Exit =
  exit_code :: int
  std_out :: string
  std_err :: string

text \<open>\<open>main\<close> up to the call of \<open>run_load_test\<close>, and from there on.\<close>

definition load_client_start :: "string list \<Rightarrow> (LoadTestConfig, Exit) expected" where
  "load_client_start argv =
     (case load_client_arguments argv of
        None \<Rightarrow> Inl \<lparr>exit_code = 1, std_out = [], std_err = print_usage\<rparr>
      | Some config \<Rightarrow> Inr config)"

definition load_client_end :: "(LoadTestResult, string) expected \<Rightarrow> Exit" where
  "load_client_end result =
     (case result of
        Inl error \<Rightarrow> \<lparr>exit_code = 1, std_out = [], std_err = ''load test failed: '' @ error @ [CHR 0x0A]\<rparr>
      | Inr r \<Rightarrow> \<lparr>exit_code = 0, std_out = print_result r, std_err = []\<rparr>)"

section \<open>Reading the report\<close>

text \<open>The numbers of a text, and those that stand behind the first colon of each line of one.\<close>

definition number_char :: "char \<Rightarrow> bool" where
  "number_char c \<longleftrightarrow> is_digit c \<or> c = CHR ''.''"

function numbers_in :: "string \<Rightarrow> string list" where
  "numbers_in str =
     (case dropWhile (Not \<circ> number_char) str of
        [] \<Rightarrow> []
      | c # cs \<Rightarrow> (c # takeWhile number_char cs) # numbers_in (dropWhile number_char cs))"
  by pat_completeness auto
termination
proof (relation "measure length", simp)
  fix str c cs assume "dropWhile (Not \<circ> number_char) str = c # cs"
  then have "Suc (length cs) \<le> length str" by (metis length_Cons length_dropWhile_le)
  moreover have "length (dropWhile number_char cs) \<le> length cs" by (rule length_dropWhile_le)
  ultimately show "(dropWhile number_char cs, str) \<in> measure length" by simp
qed

declare numbers_in.simps [simp del]

definition line_numbers :: "string \<Rightarrow> string list" where
  "line_numbers l = numbers_in (drop 1 (dropWhile (\<lambda>c. c \<noteq> CHR '':'') l))"

fun lines_from :: "string \<Rightarrow> string \<Rightarrow> string list" where
  "lines_from l [] = (if l = [] then [] else [l])"
| "lines_from l (c # cs) = (if c = CHR 0x0A then l # lines_from [] cs else lines_from (l @ [c]) cs)"

definition report_numbers :: "string \<Rightarrow> nat list list" where
  "report_numbers str = map (map thousandths \<circ> line_numbers) (lines_from [] str)"

lemma lines_from_line: "\<forall>c\<in>set xs. c \<noteq> CHR 0x0A \<Longrightarrow> lines_from l (xs @ CHR 0x0A # ys) = (l @ xs) # lines_from [] ys"
  by (induction xs arbitrary: l) simp_all

lemma numbers_in_number:
  assumes "xs \<noteq> []" "\<forall>c\<in>set xs. number_char c" "ys = [] \<or> \<not> number_char (hd ys)"
  shows "numbers_in (xs @ ys) = xs # numbers_in ys"
proof -
  have "takeWhile number_char (xs @ ys) = xs" "dropWhile number_char (xs @ ys) = ys"
    using assms(2,3) by (cases ys; simp add: takeWhile_append2 dropWhile_append2)+
  with assms(1,2) show ?thesis by (cases xs; subst numbers_in.simps) simp_all
qed

lemma numbers_in_Nil [simp]: "numbers_in [] = []"
  by (simp add: numbers_in.simps)

lemma numbers_in_skip: "\<not> number_char c \<Longrightarrow> numbers_in (c # cs) = numbers_in cs"
  by (simp add: numbers_in.simps)

lemma not_number_chars [simp]:
  "\<not> number_char (CHR '' '')" "\<not> number_char (CHR ''/'')" "\<not> number_char (CHR ''m'')" "\<not> number_char (CHR ''s'')" "\<not> number_char (CHR ''u'')"
  by (simp_all add: number_char_def is_digit_def)

lemma number_char_not_newline: "number_char c \<Longrightarrow> c \<noteq> CHR 0x0A"
  by (auto simp: number_char_def is_digit_def)

lemma show_decimal_number: "\<forall>c\<in>set (show_decimal n). number_char c"
  using show_decimal_digits by (auto simp: number_char_def)

lemma show_fixed_number: "0 \<le> x \<Longrightarrow> \<forall>c\<in>set (show_fixed x). number_char c"
  using show_decimal_digits by (auto simp: number_char_def show_fixed_def three_digits_def Let_def)

lemma show_fixed_nonempty [simp]: "show_fixed x \<noteq> []"
  by (simp add: show_fixed_def Let_def)

lemma line_numbers_label:
  assumes "\<forall>c\<in>set label. c \<noteq> CHR '':''"
  shows "line_numbers (label @ CHR '':'' # xs) = numbers_in xs"
  using assms by (simp add: line_numbers_def dropWhile_append2)

lemma report_line:
  assumes "\<forall>c\<in>set label. c \<noteq> CHR '':'' \<and> c \<noteq> CHR 0x0A" "\<forall>c\<in>set xs. c \<noteq> CHR 0x0A"
  shows "report_numbers (label @ CHR '':'' # xs @ CHR 0x0A # rest) = map thousandths (numbers_in xs) # report_numbers rest"
proof -
  have "lines_from [] ((label @ CHR '':'' # xs) @ CHR 0x0A # rest) = (label @ CHR '':'' # xs) # lines_from [] rest"
    using assms by (subst lines_from_line) auto
  with line_numbers_label [of label xs] assms(1) show ?thesis by (simp add: report_numbers_def)
qed

definition number_text :: "string \<Rightarrow> bool" where
  "number_text xs \<longleftrightarrow> xs \<noteq> [] \<and> list_all number_char xs"

lemma number_text_no_newline: "number_text xs \<Longrightarrow> \<forall>c\<in>set xs. c \<noteq> CHR 0x0A"
  using number_char_not_newline by (auto simp: number_text_def list_all_iff)

lemma number_text_show: "number_text (show_decimal n)" "0 \<le> x \<Longrightarrow> number_text (show_fixed x)"
  using show_decimal_number show_fixed_number by (simp_all add: number_text_def list_all_iff)

lemma numbers_in_text:
  "number_text xs \<Longrightarrow> numbers_in (xs @ CHR '' '' # ys) = xs # numbers_in ys" "number_text xs \<Longrightarrow> numbers_in xs = [xs]"
  using numbers_in_number [of xs "CHR '' '' # ys"] numbers_in_number [of xs "[]"]
  by (simp_all add: number_text_def list_all_iff numbers_in_skip)

text \<open>A line with one number, perhaps followed by its unit, and the line with five of them.\<close>

lemma report_one:
  assumes "\<forall>c\<in>set label. c \<noteq> CHR '':'' \<and> c \<noteq> CHR 0x0A" "number_text a"
  shows "report_numbers (label @ CHR '':'' # CHR '' '' # a @ CHR 0x0A # rest) = [thousandths a] # report_numbers rest"
    "report_numbers (label @ CHR '':'' # CHR '' '' # a @ CHR '' '' # CHR ''m'' # CHR ''s'' # CHR 0x0A # rest) =
      [thousandths a] # report_numbers rest"
  using report_line [OF assms(1), of "CHR '' '' # a" rest] report_line [OF assms(1), of "CHR '' '' # a @ '' ms''" rest]
    number_text_no_newline [OF assms(2)] assms(2) by (simp_all add: numbers_in_skip numbers_in_text)

lemma report_five:
  assumes "\<forall>c\<in>set label. c \<noteq> CHR '':'' \<and> c \<noteq> CHR 0x0A" "number_text a" "number_text b" "number_text c" "number_text d" "number_text e"
  shows "report_numbers (label @ CHR '':'' # '' '' @ a @ '' / '' @ b @ '' / '' @ c @ '' / '' @ d @ '' / '' @ e @ '' us'' @ [CHR 0x0A]) =
    [map thousandths [a, b, c, d, e]]"
proof -
  let ?xs = "'' '' @ a @ '' / '' @ b @ '' / '' @ c @ '' / '' @ d @ '' / '' @ e @ '' us''"
  have "\<forall>x\<in>set ?xs. x \<noteq> CHR 0x0A" using assms(2-) [THEN number_text_no_newline] by (simp add: ball_Un)
  moreover have "numbers_in ?xs = [a, b, c, d, e]" using assms(2-) by (simp add: numbers_in_skip numbers_in_text)
  ultimately show ?thesis using report_line [OF assms(1), of ?xs "[]"] by (simp add: report_numbers_def)
qed

lemma report_numbers_print:
  assumes "0 \<le> res_elapsed r" "res_elapsed r < 2 ^ 53" "0 \<le> res_commands_per_second r" "0 \<le> res_estimated_deliveries_per_second r"
    and "list_all (\<lambda>l. 0 \<le> l \<and> l < 2 ^ 52) [minimum (res_latency r), p50 (res_latency r), p95 (res_latency r), p99 (res_latency r), maximum (res_latency r)]"
  shows "report_numbers (print_result r) =
     [[1000 * cfg_client_count (res_config r)], [1000 * cfg_warmup_moves_per_client (res_config r)],
      [1000 * cfg_measured_moves_per_client (res_config r)], [1000 * sample_count (res_latency r)],
      [thousandths (show_fixed (duration_count 1000000 (res_elapsed r)))],
      [thousandths (show_fixed (res_commands_per_second r))],
      [thousandths (show_fixed (res_estimated_deliveries_per_second r))],
      map nat [minimum (res_latency r), p50 (res_latency r), p95 (res_latency r), p99 (res_latency r), maximum (res_latency r)]]"
proof -
  let ?s = "res_latency r"
  have el: "0 \<le> duration_count 1000000 (res_elapsed r)" using assms(1,2) by (intro duration_count_error(2)) simp_all
  have us: "0 \<le> microseconds l" "thousandths (show_fixed (microseconds l)) = nat l" if "0 \<le> l" "l < 2 ^ 52" for l
    using that thousandths_duration [of l] duration_count_error(2) [of l 1000] by (simp_all add: microseconds_def)
  have "number_text (show_fixed (microseconds l))" if "0 \<le> l" "l < 2 ^ 52" for l
    using us(1) [OF that] by (rule number_text_show)
  note latency = report_five [of "''latency min/p50/p95/p99/max''", OF _ this this this this this]
  show ?thesis
    using latency [of "minimum ?s" "p50 ?s" "p95 ?s" "p99 ?s" "maximum ?s"] el assms(3-5) us(2)
    by (simp add: print_result_def number_text_show
      report_one [of "''clients''", simplified] report_one [of "''warmup moves/client''", simplified]
      report_one [of "''measured moves/client''", simplified] report_one [of "''samples''", simplified]
      report_one [of "''elapsed''", simplified] report_one [of "''commands/sec''", simplified]
      report_one [of "''estimated deliveries/sec''", simplified])
qed

text \<open>The printed rates against the exact quotients.\<close>

lemma printed_rates:
  fixes x :: rat
  assumes "calculate_throughput n e = Inr q" "e < 2 ^ 52" "n < 2 ^ 53" "c \<le> n"
  defines "x \<equiv> of_nat n * 1000000000 / of_int e" and "d \<equiv> double_mul q (to_double (of_nat c))"
  shows "0 \<le> q" "0 \<le> d" "\<bar>of_nat (thousandths (show_fixed q)) / 1000 - x\<bar> \<le> 1 / 2000 + x / 2 ^ 51"
    "\<bar>of_nat (thousandths (show_fixed d)) / 1000 - x * of_nat c\<bar> \<le> 1 / 2000 + x * of_nat c / 2 ^ 50"
proof -
  have clients: "to_double (of_nat c) = of_nat c" using assms(3,4) by (intro to_double_nat) linarith
  have rate: "\<bar>q - x\<bar> \<le> x / 2 ^ 51" "0 \<le> q" unfolding x_def using throughput_accurate [OF assms(1,3)] assms(2) by simp_all
  have "0 < e" using assms(1) by (simp add: calculate_throughput_def split: if_splits)
  then have nonneg: "0 \<le> x" "0 \<le> (of_nat c :: rat)" by (simp_all add: x_def)
  show "\<bar>of_nat (thousandths (show_fixed q)) / 1000 - x\<bar> \<le> 1 / 2000 + x / 2 ^ 51"
    using thousandths_error [OF rate(2)] rate(1) by linarith
  have d: "\<bar>d - x * of_nat c\<bar> \<le> x * of_nat c / 2 ^ 50" "0 \<le> d"
    using double_mul_error [OF nonneg rate(1)] by (simp_all add: d_def clients)
  show "\<bar>of_nat (thousandths (show_fixed d)) / 1000 - x * of_nat c\<bar> \<le> 1 / 2000 + x * of_nat c / 2 ^ 50"
    using thousandths_error [OF d(2)] d(1) by linarith
  show "0 \<le> q" "0 \<le> d" by (fact rate(2), fact d(2))
qed

section \<open>Properties\<close>

text \<open>
  C21: The report of the load client can be trusted. A finished test exits with code 0 exactly
  when no bot failed and the measured interval is not empty; otherwise it prints nothing but
  an error. Reading the numbers of the printed report back gives the configuration and the
  number of samples, and the five latencies to the nanosecond: the conversion to \<open>double\<close>
  microseconds and the three decimals lose nothing, for intervals below \<open>2 ^ 52\<close> nanoseconds (52
  days) and fewer than \<open>2 ^ 53\<close> samples. The elapsed time is right to half a microsecond and one nanosecond, and commands and
  deliveries per second are right to the printed half of a thousandth and relative errors of
  \<open>2\<close> to the \<open>-51\<close> and \<open>-50\<close> against the exact quotients.
\<close>
theorem load_report_exact:
  assumes "start_load_test is_address grow now config = Inr t0" and "load_run config grow t0 t"
    and "load_finished t" and "pred_option (\<lambda>e. e < 2 ^ 52) (elapsed (lt_state t))"
    and "cfg_client_count config * cfg_measured_moves_per_client config < 2 ^ 53"
  defines "result \<equiv> load_client_end (load_test_result config (lt_state t))"
  shows "if rs_failure (lt_state t) \<noteq> None \<or> elapsed (lt_state t) = Some 0
     then exit_code result = 1 \<and> std_out result = [] \<and> std_err result \<noteq> []
     else exit_code result = 0 \<and> std_err result = []
       \<and> (\<exists>e s el rate deliveries. elapsed (lt_state t) = Some e \<and> summarize_latencies (rs_latencies (lt_state t)) = Inr s
          \<and> report_numbers (std_out result) =
              [[1000 * cfg_client_count config], [1000 * cfg_warmup_moves_per_client config],
               [1000 * cfg_measured_moves_per_client config],
               [1000 * (cfg_client_count config * cfg_measured_moves_per_client config)],
               [el], [rate], [deliveries], map nat [minimum s, p50 s, p95 s, p99 s, maximum s]]
          \<and> \<bar>1000 * int el - e\<bar> \<le> 501
          \<and> (let x = of_nat (sample_count s) * 1000000000 / of_int e :: rat; y = x * of_nat (cfg_client_count config)
             in \<bar>of_nat rate / 1000 - x\<bar> \<le> 1 / 2000 + x / 2 ^ 51
              \<and> \<bar>of_nat deliveries / 1000 - y\<bar> \<le> 1 / 2000 + y / 2 ^ 50))"
proof (cases "rs_failure (lt_state t)")
  case (Some m)
  then show ?thesis by (simp add: result_def load_client_end_def load_test_result_def)
next
  case None
  let ?n = "cfg_client_count config * cfg_measured_moves_per_client config" and ?lat = "rs_latencies (lt_state t)"
    and ?c = "cfg_client_count config"
  from finished_test [OF assms(1-3) None] obtain e s where e: "elapsed (lt_state t) = Some e" "0 \<le> e" and len: "length ?lat = ?n"
    and within: "list_all (\<lambda>l. 0 \<le> l \<and> l \<le> e) ?lat" and s: "summarize_latencies ?lat = Inr s" "sample_count s = ?n" .
  show ?thesis
  proof (cases "e = 0")
    case True
    with e s show ?thesis by (simp add: result_def load_client_end_def load_test_result_def None calculate_throughput_def)
  next
    case False
    then obtain q where q: "calculate_throughput ?n e = Inr q" using e(2) by (simp add: calculate_throughput_def)
    let ?d = "double_mul q (to_double (of_nat (cfg_client_count config)))"
    let ?r = "\<lparr>res_config = config, res_latency = s, res_elapsed = e, res_commands_per_second = q, res_estimated_deliveries_per_second = ?d\<rparr>"
    have short: "e < 2 ^ 52" using assms(4) e(1) by simp
    have out: "result = \<lparr>exit_code = 0, std_out = print_result ?r, std_err = []\<rparr>"
      using e q s len by (simp add: result_def load_client_end_def load_test_result_def None)
    have "cfg_client_count config \<le> ?n" using len s(1) by (cases "cfg_measured_moves_per_client config") (simp_all add: summarize_latencies_def)
    note rates = printed_rates [OF q short assms(5) this]
    have "set [minimum s, p50 s, p95 s, p99 s, maximum s] \<subseteq> set ?lat" using summary_figures(1) [OF s(1)] assms(5) len by simp
    then have figures: "list_all (\<lambda>l. 0 \<le> l \<and> l < 2 ^ 52) [minimum s, p50 s, p95 s, p99 s, maximum s]"
      using within short by (fastforce simp: list_all_iff)
    have numbers: "report_numbers (std_out result) =
        [[1000 * ?c], [1000 * cfg_warmup_moves_per_client config], [1000 * cfg_measured_moves_per_client config], [1000 * ?n],
         [thousandths (show_fixed (duration_count 1000000 e))], [thousandths (show_fixed q)], [thousandths (show_fixed ?d)],
         map nat [minimum s, p50 s, p95 s, p99 s, maximum s]]"
      using report_numbers_print [of ?r] e(2) short rates(1,2) figures s(2) by (simp add: out)
    have "\<bar>1000 * int (thousandths (show_fixed (duration_count 1000000 e))) - e\<bar> \<le> 501"
      by (rule thousandths_milliseconds [OF e(2) short])
    moreover note rates(3,4)
    moreover have "\<not> (rs_failure (lt_state t) \<noteq> None \<or> elapsed (lt_state t) = Some 0)" using None e(1) False by simp
    moreover have "exit_code result = 0" "std_err result = []" by (simp_all add: out)
    ultimately show ?thesis using e(1) s(1) numbers
      unfolding Let_def s(2) [symmetric] by (simp only: if_False) (intro conjI exI; (rule refl | assumption))
  qed
qed

theorem load_report_exact_witness:
  "\<exists>t0 t. start_load_test (\<lambda>_. True) (\<lambda>_ n. n) 0 one_bot = Inr t0 \<and> load_run one_bot (\<lambda>_ n. n) t0 t \<and> load_finished t
    \<and> exit_code (load_client_end (load_test_result one_bot (lt_state t))) = 0
    \<and> last (report_numbers (std_out (load_client_end (load_test_result one_bot (lt_state t))))) = [5, 5, 5, 5, 5]"
proof -
  obtain t where run: "load_run one_bot (\<lambda>_ n. n)
      (one_state (RunState_new one_bot) (new_buffer (\<lambda>_ n. n)) Bot_connecting 0 0) t"
    and fin: "load_finished t" "rs_failure (lt_state t) = None" "rs_latencies (lt_state t) = [5]" "elapsed (lt_state t) = Some 5"
    by (rule one_bot_run)
  have sum: "summarize_latencies [5] = Inr \<lparr>sample_count = 1, minimum = 5, p50 = 5, p95 = 5, p99 = 5, maximum = 5\<rparr>"
    by (simp add: summarize_latencies_def nearest_rank_percentile_def size_mul_def)
  from load_report_exact [OF one_bot_starts run fin(1)] fin
  have "exit_code (load_client_end (load_test_result one_bot (lt_state t))) = 0
    \<and> last (report_numbers (std_out (load_client_end (load_test_result one_bot (lt_state t))))) = [5, 5, 5, 5, 5]"
    by (auto simp: sum)
  with run fin(1) one_bot_starts show ?thesis by blast
qed

end
