(* ===== verification/Load_Failure.thy ===== *)
theory Load_Failure
  imports Load_Properties
begin

text \<open>
  What a failure does not reach: a bot that waits for the barrier move on its socket. The gates
  look at the failure of the other bots, the waiting loops of the reader do not.
\<close>

section \<open>A wait on a stream without the event\<close>

lemma wait_for_others:
  assumes "reader_inv b" "events_in (readable_bytes b) = (evs, Inr rest)" "\<not> list_ex fits evs"
  shows "\<exists>b'. wait_for read_next_server_event fits b = Some (More_bytes, b') \<and> reader_inv b' \<and> reader_settled b'
    \<and> readable_bytes b' = rest"
  using assms
proof (induction "length (readable_bytes b)" arbitrary: b evs rule: less_induct)
  case less
  obtain r rest1 where first: "first_event (readable_bytes b) = (r, rest1)" by fastforce
  then obtain b' where step: "read_next_server_event b = Some (r, b')" and b': "reader_inv b'" "readable_bytes b' = rest1"
    using read_next_server_event_refines [of b] less.prems(1) by (auto simp: reader_inv_def)
  note facts = first_event_facts [OF first]
  show ?case
  proof (cases r)
    case (Fetched e)
    obtain es where es: "events_in rest1 = (es, Inr rest)" "evs = e # es"
      using less.prems(2) first Fetched by (subst (asm) events_in.simps) (auto split: prod.splits)
    have "length (readable_bytes b') < length (readable_bytes b)" using facts Fetched b'(2) by simp
    from less.hyps [OF this b'(1)] es b'(2) less.prems(3) show ?thesis
      by (subst wait_for.simps) (simp add: step Fetched)
  next
    case More_bytes
    then have "rest1 = rest" using less.prems(2) first by (subst (asm) events_in.simps) simp
    with More_bytes b' facts show ?thesis
      by (subst wait_for.simps) (simp add: step reader_settled_def wire_header_size_def)
  next
    case (Reader_threw m)
    then show ?thesis using less.prems(2) first by (subst (asm) events_in.simps) simp
  qed
qed

section \<open>Runs in which a connection stays open\<close>

text \<open>
  A run from a state, with the bytes that bot \<open>i\<close> has read in it. Its reads succeed; the other bots
  take any steps.
\<close>

inductive open_run :: "LoadTestConfig \<Rightarrow> growth \<Rightarrow> nat \<Rightarrow> LoadTest \<Rightarrow> byte list \<Rightarrow> LoadTest \<Rightarrow> bool"
  for config grow i t where
  open_start: "open_run config grow i t [] t"
| open_others: "open_run config grow i t bytes t1 \<Longrightarrow> load_step config grow t1 t2 \<Longrightarrow>
    lt_bots t2 ! i = lt_bots t1 ! i \<Longrightarrow> open_run config grow i t bytes t2"
| open_read: "open_run config grow i t bytes t1 \<Longrightarrow> bot_phase (lt_bots t1 ! i) = Bot_reading what \<Longrightarrow>
    length chunk \<le> read_chunk_size \<Longrightarrow> lt_clock t1 \<le> fst clock \<Longrightarrow> fst clock \<le> snd clock \<Longrightarrow>
    bot_read_completed config grow clock (Inr chunk) what (lt_state t1, lt_bots t1 ! i) = Some (st, me) \<Longrightarrow>
    open_run config grow i t (bytes @ chunk) \<lparr>lt_state = st, lt_bots = (lt_bots t1)[i := me], lt_clock = snd clock\<rparr>"

lemma load_step_length: "load_step config grow t t' \<Longrightarrow> length (lt_bots t') = length (lt_bots t)"
  by (induction rule: load_step.induct) simp

lemma barrier_read:
  assumes "reader_inv (bot_buffer me)" "reader_settled (bot_buffer me)" "length chunk \<le> read_chunk_size"
    and "events_in (readable_bytes (bot_buffer me) @ chunk) = (evs, Inr rest)"
    and "\<not> list_ex (is_move_event barrier_coordinate barrier_coordinate) evs"
  shows "\<exists>b. bot_read_completed config grow clock (Inr chunk) For_barrier (st, me) =
      Some (st, me\<lparr>bot_buffer := b, bot_phase := Bot_reading For_barrier\<rparr>)
    \<and> reader_inv b \<and> reader_settled b \<and> readable_bytes b = rest"
proof -
  obtain b where b: "ReceiveBuffer_append grow (bot_buffer me) chunk = Inr b" "reader_inv b"
    using settled_append [OF assms(1-3)] by blast
  have "readable_bytes b = readable_bytes (bot_buffer me) @ chunk"
    using rb.append_InrD [OF _ b(1)] assms(1) by (simp add: reader_inv_def)
  with wait_for_others [OF b(2) _ assms(5)] assms(4) obtain b' where
    "wait_for read_next_server_event (is_move_event barrier_coordinate barrier_coordinate) b = Some (More_bytes, b')"
    "reader_inv b'" "reader_settled b'" "readable_bytes b' = rest" by auto
  then show ?thesis by (intro exI [of _ b']) (simp add: b(1) await_barrier_def wait_for_move_event_def bot_goes_def)
qed

text \<open>As long as no barrier move arrives, the bot keeps waiting for it.\<close>

lemma open_run_waits:
  assumes "open_run config grow i t bytes t'" "i < length (lt_bots t)"
    and "bot_phase (lt_bots t ! i) = Bot_reading For_barrier" "reader_inv (bot_buffer (lt_bots t ! i))"
    and "readable_bytes (bot_buffer (lt_bots t ! i)) = []" "events_in bytes = (evs, Inr rest)"
    and "\<not> list_ex (is_move_event barrier_coordinate barrier_coordinate) evs"
  shows "i < length (lt_bots t') \<and> bot_phase (lt_bots t' ! i) = Bot_reading For_barrier
    \<and> reader_inv (bot_buffer (lt_bots t' ! i)) \<and> reader_settled (bot_buffer (lt_bots t' ! i))
    \<and> readable_bytes (bot_buffer (lt_bots t' ! i)) = rest"
  using assms
proof (induction arbitrary: evs rest rule: open_run.induct)
  case open_start
  then have "rest = []" by (simp add: events_in.simps first_event.simps)
  with open_start show ?case by (simp add: reader_settled_def wire_header_size_def)
next
  case (open_others bytes t1 t2)
  from open_others.IH [OF open_others.prems] open_others.hyps show ?case by (simp add: load_step_length)
next
  case (open_read bytes t1 what chunk clock st me)
  let ?me = "lt_bots t1 ! i"
  obtain evs1 rest1 where old: "events_in bytes = (evs1, Inr rest1)" and
    later: "\<exists>later. events_in (rest1 @ chunk) = (later, Inr rest) \<and> evs = evs1 @ later"
    using open_read.prems(5) events_in_append [of bytes chunk] by (auto split: prod.splits sum.splits)
  then obtain later where later: "events_in (rest1 @ chunk) = (later, Inr rest)" "evs = evs1 @ later" by blast
  have none: "\<not> list_ex (is_move_event barrier_coordinate barrier_coordinate) evs1"
    "\<not> list_ex (is_move_event barrier_coordinate barrier_coordinate) later"
    using open_read.prems(6) later(2) by simp_all
  note now = open_read.IH [OF open_read.prems(1-4) old none(1)]
  then have "what = For_barrier" using open_read.hyps(2) by simp
  with barrier_read [OF _ _ open_read.hyps(3) _ none(2), of ?me rest config grow clock "lt_state t1"] now later(1) open_read.hyps(6)
  show ?case by (auto simp del: bot_read_completed.simps)
qed

lemma second_step:
  assumes "load_run two_bots grow t0 (two_states st b phase k b' phase')"
    and "bot_step two_bots grow (0, 0) (st, \<lparr>bot_index = 1, bot_buffer = b', bot_phase = phase', bot_passed = 2\<rparr>)
      (st2, \<lparr>bot_index = 1, bot_buffer = b2, bot_phase = phase2, bot_passed = 2\<rparr>)"
  shows "load_run two_bots grow t0 (two_states st2 b phase k b2 phase2)"
  using load_more [OF assms(1)] resume_bot [of 1 "two_states st b phase k b' phase'" "(0, 0)" two_bots grow] assms(2) by simp

section \<open>Properties\<close>

text \<open>
  C23: A failure can leave the load test hanging. With two clients there is a run in which the
  write of the first client's barrier move fails, that failure is reported, and the second
  client has gone through its gate and waits for the barrier move. From then on, whatever the
  other bots do and however many whole or partial packets the server sends it, as long as
  its connection stays open, nothing it receives is malformed and no move to the barrier's
  coordinates is among it, the second client goes on waiting, so \<open>context.run()\<close> does not return
  and the failure is not reported to the user.
\<close>
theorem failure_leaves_bot_waiting:
  "\<exists>t0 t. start_load_test (\<lambda>_. True) grow 0 two_bots = Inr t0 \<and> load_run two_bots grow t0 t
    \<and> run_failed (lt_state t) \<and> map bot_phase (lt_bots t) = [Bot_reported, Bot_reading For_barrier]
    \<and> (\<forall>bytes t' evs rest. open_run two_bots grow 1 t bytes t' \<longrightarrow> events_in bytes = (evs, Inr rest) \<longrightarrow>
        \<not> list_ex (is_move_event barrier_coordinate barrier_coordinate) evs \<longrightarrow>
        bot_phase (lt_bots t' ! 1) = Bot_reading For_barrier \<and> \<not> load_finished t')"
proof -
  let ?barrier = "Bot_writing (move_packet 0 0) (After_move Barrier_move 0)"
  obtain t0 b b' where start: "start_load_test (\<lambda>_. True) grow 0 two_bots = Inr t0"
    and run: "load_run two_bots grow t0 (two_states two_ready b ?barrier 2 b' (Bot_gate Gate_warmed_up))"
    and b': "reader_inv b'" "readable_bytes b' = []"
    by (rule two_bots_at_barrier)
  let ?threw = "Bot_threw (network_error ''write packet'' ''broken pipe'')"
  have threw: "load_run two_bots grow t0 (two_states two_ready b ?threw 2 b' (Bot_gate Gate_warmed_up))"
    by (rule first_step [OF run bot_writes [where error = "Some ''broken pipe''"]])
      (simp_all add: bot_write_completed_def bot_goes_def)
  obtain m where "report_exception (Std_exception (network_error ''write packet'' ''broken pipe''))
      (two_ready, \<lparr>bot_index = 0, bot_buffer = b, bot_phase = ?threw, bot_passed = 2\<rparr>)
    = (two_ready\<lparr>rs_failure := Some m\<rparr>, \<lparr>bot_index = 0, bot_buffer = b, bot_phase = Bot_reported, bot_passed = 2\<rparr>)"
    by (simp add: report_exception_def bot_goes_def fail_run_def gate_defs RunState_new_def)
  then have reported: "load_run two_bots grow t0 (two_states (two_ready\<lparr>rs_failure := Some m\<rparr>) b Bot_reported 2 b' (Bot_gate Gate_warmed_up))"
    using first_step [OF threw, of _ b Bot_reported 2] bot_reports [of _ "network_error ''write packet'' ''broken pipe''"] by (metis Bot.select_convs(3))
  let ?t = "two_states (two_ready\<lparr>rs_failure := Some m\<rparr>) b Bot_reported 2 b' (Bot_reading For_barrier)"
  have "gate_timer_expired two_bots (0, 0) Gate_warmed_up (two_ready\<lparr>rs_failure := Some m\<rparr>,
      \<lparr>bot_index = 1, bot_buffer = b', bot_phase = Bot_gate Gate_warmed_up, bot_passed = 2\<rparr>)
    = Some (two_ready\<lparr>rs_failure := Some m\<rparr>, \<lparr>bot_index = 1, bot_buffer = b', bot_phase = Bot_reading For_barrier, bot_passed = 2\<rparr>)"
    using b' by (simp add: bot_defs gate_defs RunState_new_def await_barrier_def wait_for_nothing reader_inv_def)
  then have last: "load_run two_bots grow t0 ?t"
    by (intro second_step [OF reported] bot_checks_gate [where g = Gate_warmed_up]) simp_all
  have waits: "\<forall>bytes t' evs rest. open_run two_bots grow 1 ?t bytes t' \<longrightarrow> events_in bytes = (evs, Inr rest) \<longrightarrow>
      \<not> list_ex (is_move_event barrier_coordinate barrier_coordinate) evs \<longrightarrow>
      bot_phase (lt_bots t' ! 1) = Bot_reading For_barrier \<and> \<not> load_finished t'"
  proof (intro allI impI)
    fix bytes t' evs rest
    assume "open_run two_bots grow 1 ?t bytes t'" "events_in bytes = (evs, Inr rest)"
      "\<not> list_ex (is_move_event barrier_coordinate barrier_coordinate) evs"
    from open_run_waits [OF this(1) _ _ _ _ this(2,3)] b'
    show "bot_phase (lt_bots t' ! 1) = Bot_reading For_barrier \<and> \<not> load_finished t'"
      by (auto simp: load_finished_def list_all_length)
  qed
  show ?thesis
    by (intro exI [of _ t0] exI [of _ ?t] conjI start last waits) (simp_all add: run_failed_def)
qed

theorem failure_leaves_bot_waiting_witness:
  "\<exists>t0 t t'. start_load_test (\<lambda>_. True) (\<lambda>_ n. n) 0 two_bots = Inr t0 \<and> load_run two_bots (\<lambda>_ n. n) t0 t
    \<and> run_failed (lt_state t)
    \<and> open_run two_bots (\<lambda>_ n. n) 1 t (frame player_left (event_payload (PlayerLeftEvent 1 io_error))) t'
    \<and> bot_phase (lt_bots t' ! 1) = Bot_reading For_barrier \<and> \<not> load_finished t'"
proof -
  let ?ev = "PlayerLeftEvent 1 io_error"
  let ?bytes = "frame (event_type ?ev) (event_payload ?ev)"
  obtain t0 t where run: "start_load_test (\<lambda>_. True) (\<lambda>_ n. n) 0 two_bots = Inr t0" "load_run two_bots (\<lambda>_ n. n) t0 t"
    "run_failed (lt_state t)" "map bot_phase (lt_bots t) = [Bot_reported, Bot_reading For_barrier]"
    and waits: "\<forall>bytes t' evs rest. open_run two_bots (\<lambda>_ n. n) 1 t bytes t' \<longrightarrow> events_in bytes = (evs, Inr rest) \<longrightarrow>
        \<not> list_ex (is_move_event barrier_coordinate barrier_coordinate) evs \<longrightarrow>
        bot_phase (lt_bots t' ! 1) = Bot_reading For_barrier \<and> \<not> load_finished t'"
    using failure_leaves_bot_waiting [of "\<lambda>_ n. n"] by (elim exE conjE) (rule that)
  have len: "1 < length (lt_bots t)" using arg_cong [OF run(4), of length] by simp
  have phase: "bot_phase (lt_bots t ! 1) = Bot_reading For_barrier" using run(4) len by (metis nth_map nth_Cons_Suc nth_Cons_0 One_nat_def)
  have small: "length ?bytes \<le> read_chunk_size" using event_packet_size [of ?ev] unfolding read_chunk_size_def by linarith
  obtain st me where "bot_read_completed two_bots (\<lambda>_ n. n) (lt_clock t, lt_clock t) (Inr ?bytes) For_barrier
      (lt_state t, lt_bots t ! 1) = Some (st, me)"
    using read_ends [OF run_inv [OF run(1,2)] len phase small, of "(lt_clock t, lt_clock t)" "\<lambda>_ n. n"] by auto
  from open_read [OF open_start phase small _ _ this]
  have opened: "open_run two_bots (\<lambda>_ n. n) 1 t ?bytes \<lparr>lt_state = st, lt_bots = (lt_bots t)[1 := me], lt_clock = lt_clock t\<rparr>"
    by simp
  have "events_in ?bytes = ([server_event_of ?ev], Inr [])" using events_in_packets [of "[?ev]"] by simp
  moreover have "\<not> list_ex (is_move_event barrier_coordinate barrier_coordinate) [server_event_of ?ev]"
    by (simp add: is_move_event_def)
  ultimately have "bot_phase (lt_bots \<lparr>lt_state = st, lt_bots = (lt_bots t)[1 := me], lt_clock = lt_clock t\<rparr> ! 1) = Bot_reading For_barrier
      \<and> \<not> load_finished \<lparr>lt_state = st, lt_bots = (lt_bots t)[1 := me], lt_clock = lt_clock t\<rparr>"
    using waits opened by blast
  with run(1-3) opened show ?thesis
    by (intro exI [of _ t0] exI [of _ t] exI [of _ "\<lparr>lt_state = st, lt_bots = (lt_bots t)[1 := me], lt_clock = lt_clock t\<rparr>"]) simp
qed

end
