(* ===== verification/Spec2Isabelle.thy ===== *)
theory Spec2Isabelle
  imports Main_Program Client_View Load_Report Load_Failure
begin

text \<open>
  A verification of the room server in \<open>src/\<close>: a TCP server in C++23 on Asio in which clients join
  one room, move in it and leave, and are told of each other; with its metrics and the load
  client that measures it.

  \<^bold>\<open>The program.\<close> A connection is served by a \<open>Session\<close> on the I/O thread. Its reader appends what
  the socket delivers to a \<open>ReceiveBuffer\<close>, decodes packets from it and turns them into room
  commands, which it submits to the queue of the \<open>RoomWorker\<close>. The worker, a thread of its own,
  is the only owner of the \<open>Room\<close>: it applies the commands in order and hands the events to the
  \<open>SessionRegistry\<close>, which encodes each event once and delivers the packet to the sessions of the
  players in the room. A delivery is posted to the session's executor, enters its
  \<open>OutboundQueue\<close> under a limit of bytes, and leaves in batches by the one writer of the session.
  \<open>run_server\<close> accepts connections and numbers the sessions, \<open>main\<close> parses the arguments, builds
  and connects these objects, reports the metrics and shuts down. The load client runs bots,
  all on one thread, that join, meet at gates, send moves and measure the time to the event.

  \<^bold>\<open>The theories\<close>, in the order in which they build on each other:
  \<^item> \<open>Mcrs_Prelude\<close>: C++ integers and results as HOL types, \<open>size_t\<close> arithmetic with its
    wrap-around, blocks of memory, the collections of rules. \<open>Wire_Bytes\<close>: big and little endian
    byte lists. \<open>Fifo_Queue\<close> and \<open>Hash_Map\<close>: the interfaces of queues and hash maps as locales.
  \<^item> \<open>Packet_Codec\<close>, \<open>Gameplay_Payload\<close>: \<open>protocol/packet_codec\<close> and \<open>protocol/gameplay_payload\<close>.
    Decoding and encoding are inverse in both directions; a verdict on a packet does not depend
    on the bytes behind it.
  \<^item> \<open>Receive_Buffer\<close>, \<open>Outbound_Queue\<close>, \<open>Closeable_Queue\<close>: the three buffers. They interpret the
    locales \<open>bounded_stream\<close> and \<open>fifo\<close>; what goes in comes out in order, within the limits.
  \<^item> \<open>Room\<close>, \<open>Room_Event_Encoder\<close>, \<open>Room_Worker\<close>: the room refines a map from players to positions,
    its events reconstruct it, the worker applies every accepted command exactly once and in
    order, and stopping drains the queue.
  \<^item> \<open>Server_Metrics\<close>, \<open>Session_Registry\<close>: counters, gauges, the guards that release them, the ring
    of closed sessions; membership and fan-out of events.
  \<^item> \<open>Session\<close>, \<open>Session_Run\<close>, \<open>Session_Properties\<close>: all handlers of \<open>network/session.cpp\<close>, the
    relation \<open>session_step\<close> of their interleavings, and the properties of a session: how the
    stream is cut is immaterial, a read always fits, commands come in the order join, moves,
    leave, packets leave in order, memory is bounded, gauges are exact; and the race by which
    a stopped session can still join.
  \<^item> \<open>Server\<close>, \<open>Main_Program\<close>: \<open>network/server.cpp\<close>, \<open>run_session\<close> and \<open>main.cpp\<close>; \<open>server_step\<close> is
    the interleaving of the accept loop, all sessions and the worker, \<open>process_step\<close> adds the
    coroutines of \<open>main\<close> with their completion handlers: binding the port, the reporter and its
    timer, the messages and the exit code; and the race by which the reporter keeps the process
    alive after the server has stopped.
  \<^item> \<open>Session_Output\<close>, \<open>Server_Traffic\<close>, \<open>Client_View\<close>: server and client together. \<open>net_run\<close> is a run
    of the server with the bytes it has sent to each client, partial writes included. What a
    client reads from them with its own reader are the events of the room between its join and
    its leave, complete and in order; it can always catch up; every packet is well typed.
  \<^item> \<open>Decimal_Text\<close>, \<open>Json_Text\<close>, \<open>Metrics_Json\<close>, \<open>Command_Line\<close>: \<open>std::from_chars\<close> and the output
    of integers, a strict reader of JSON as reference, \<open>write_json\<close> and the reporter, the
    arguments of the server.
  \<^item> \<open>Cpp_Double\<close>, \<open>Load_Metrics\<close>, \<open>Load_Config\<close>, \<open>Load_Reader\<close>, \<open>Load_Client\<close>, \<open>Load_Run\<close>,
    \<open>Load_Properties\<close>, \<open>Load_Failure\<close>, \<open>Load_Report\<close>: \<open>benchmark/\<close>. \<open>double\<close>s as rounded rational numbers,
    percentiles and throughput, the configuration and its check, the bot's reader (the locale
    \<open>event_source\<close>), the coroutine of a bot, the invariant of a run of all bots, and its
    consequences: the gates neither mix the stages nor block, loops end, all samples are taken,
    and the printed report states them; and the wait that a failure of another bot never ends.
  \<^item> This theory: the properties of the whole server.

  \<^bold>\<open>How code becomes definitions.\<close> A struct or class is a record, an operation a function that
  returns the changed record; \<open>std::expected\<close> is a sum, an exception a value or a state of the
  coroutine. A coroutine is cut at its suspension points: where it stands is a field, and each
  stretch of code between two suspension points is a function of the result of the operation
  it was suspended in. The mutex-protected operations of the queue, the registry and the metrics
  are atomic, and so is one round of the worker's loop, handler included. Loops that are not
  structural are \<open>function\<close>s with a measure or, over a buffer whose invariant bounds them,
  \<open>partial_function (option)\<close>s that are shown to return. Only the reference reader of JSON has
  fuel: two calls per character, which is enough for every text the server writes.

  \<^bold>\<open>Parameters\<close> stand for what the sources do not fix: the growth of \<open>std::vector\<close> (\<open>growth\<close>, within
  what the standard promises), the order in which a coroutine is started (\<open>at_once\<close>), which
  endpoints are alive, the hosts \<open>make_address\<close> takes, the clock of
  the load client, of which only that it does not run backwards is used. Results of sockets,
  timers and the acceptor are arguments of the steps, in every combination. A hash map is the
  list of its entries, and what is proved does not depend on their order.

  \<^bold>\<open>Bounds.\<close> Session ids are \<open>uint64_t\<close> values given in sequence, so the theorems about whole runs
  assume fewer than \<open>2 ^ 64\<close> accepted connections. Counters of metrics and of the worker wrap at
  their width in the model as in the code. Sizes are below \<open>2 ^ 63\<close>, the largest object. The
  report of the load client is exact for intervals below \<open>2 ^ 52\<close> nanoseconds and fewer than
  \<open>2 ^ 53\<close> samples, which a \<open>double\<close> holds without rounding.

  \<^bold>\<open>Not modelled:\<close> the sockets, timers and executors of Asio beyond their results; the messages a
  session writes to \<open>std::cerr\<close>; failure of memory allocation, with it the memory the load client
  reserves for its samples, and the width of its time points and latencies; the shutdown of a
  bot's socket after its leave, whose errors are ignored; the memory order of relaxed
  atomics (every counter is updated atomically); overflow and subnormal numbers of \<open>double\<close>,
  which quotients of 64-bit counts do not reach.
\<close>

section \<open>The whole server\<close>

text \<open>
  C1: The room of a running server refuses no command: whatever the clients send, in every
  interleaving of connections, reads, writes, deliveries and the room worker, the commands
  submitted are those the worker has processed followed by those waiting, none was rejected,
  and the players in the room are those whose last word was not a leave.
\<close>
theorem room_refuses_nothing:
  assumes "server_run grow (Server_new metrics) n submitted srv" and "n < 2 ^ 64"
  shows "rw_rejected_commands (srv_worker srv) = 0 \<and>
    (\<exists>processed. submitted = processed @ cq_values (rw_commands (srv_worker srv)) \<and>
      rw_processed_commands (srv_worker srv) = length processed mod 2 ^ 64 \<and>
      (\<forall>i. Room_find (rw_room (srv_worker srv)) i \<noteq> None \<longleftrightarrow>
        seat i (commands_of i processed) False = Some True))"
proof -
  have inv: "worker_inv (srv_worker srv) submitted" "all_in_order submitted"
    using server_run_inv [OF assms(1) Server_new_inv assms(2)] by (simp_all add: srv_inv_def)
  then obtain processed evs where
    submitted: "submitted = processed @ cq_values (rw_commands (srv_worker srv))" and
    app: "apply_commands Room_new processed = (evs, rw_room (srv_worker srv))" and
    counts: "rw_processed_commands (srv_worker srv) = size_add 0 (length processed)"
      "rw_rejected_commands (srv_worker srv) = size_add 0 (length processed - length evs)"
    by (auto simp: worker_inv_def)
  have "all_in_order processed" using inv(2) submitted all_in_order_prefix by metis
  note room = room_accepts_in_order [OF this app]
  have "Room_find (rw_room (srv_worker srv)) i \<noteq> None \<longleftrightarrow> positions (rw_room (srv_worker srv)) i \<noteq> None" for i
    by (simp add: Room_find_def hm_find_def split: option.split)
  with room submitted counts show ?thesis by (intro conjI exI [of _ processed]) (simp_all add: size_add_def)
qed

theorem room_refuses_nothing_witness:
  "\<exists>srv. server_run exact_growth (Server_new None) 1 [JoinCommand 1] srv
    \<and> rw_rejected_commands (srv_worker srv) = 0"
proof -
  obtain srv where run: "server_run exact_growth (Server_new None) 1 [JoinCommand 1] srv"
    by (rule one_client_joins)
  from run room_refuses_nothing [OF run] show ?thesis by auto
qed

text \<open>
  C7: From the command line to the exit code: when \<open>main\<close> has accepted its arguments and, after
  any run of the process, stops the room worker, the summary is the truth about the sessions.
  Every command that any session submitted has been processed, none was rejected, the final
  players are the sessions that have joined and not left, and a session that still exists knows
  it of itself. Once the accept loop has ended, the exit code is 0 exactly if it returned: a
  port that cannot be bound and a failed accept both give 1. There is a metrics reporter
  exactly when the interval on the command line is not zero. The destructor of the worker, at
  the end of \<open>main\<close>, then changes nothing any more.
\<close>
theorem shutdown_summary_exact:
  assumes "main_start argv = Inr p0" and "process_run grow p0 n submitted p" and "n < 2 ^ 64"
    and "main_end p = (code, summary, p')"
  shows "summary_rejected_commands summary = 0
    \<and> summary_processed_commands summary = length submitted mod 2 ^ 64
    \<and> snap_session_id ` set (summary_players summary) = {i. seat i (commands_of i submitted) False = Some True}
    \<and> (\<forall>i s. srv_sessions (pr_server p) i = Some s \<longrightarrow>
        (i \<in> snap_session_id ` set (summary_players summary) \<longleftrightarrow> se_joined_room s))
    \<and> (pr_run_server p = Run_server_completed \<longrightarrow> (code = 0 \<longleftrightarrow> srv_acceptor (pr_server p) = Run_server_returned))
    \<and> RoomWorker_destroy (Some publish_event) touch_metrics (srv_worker (pr_server p'), pr_server p') = pr_server p'
    \<and> (\<exists>interval. server_arguments argv = Some (pr_port p0, interval) \<and> (pr_reporter p0 = No_reporter \<longleftrightarrow> interval = 0))"
proof -
  let ?srv = "pr_server p"
  obtain interval metrics where args: "server_arguments argv = Some (pr_port p0, interval)"
    "pr_reporter p0 = No_reporter \<longleftrightarrow> interval = 0" and start: "pr_server p0 = Server_new metrics"
    using main_startD(1) [OF assms(1)] by blast
  have process: "process_inv p" "server_run grow (Server_new metrics) n submitted ?srv"
    using process_run_server [OF assms(2) main_start_inv [OF assms(1)]] start by simp_all
  have inv: "worker_inv (srv_worker ?srv) submitted" "all_in_order submitted" "env_ok n submitted ?srv"
    using server_run_inv [OF process(2) Server_new_inv assms(3)] by (simp_all add: srv_inv_def)
  obtain w srv1 where stopped:
    "RoomWorker_stop (Some publish_event) touch_metrics (srv_worker ?srv, ?srv) = (summary, w, srv1)"
    and code: "code = (if pr_server_failed p then 1 else 0)" and p': "srv_worker (pr_server p') = w"
    using assms(4) by (auto simp: main_end_def Let_def split: prod.splits)
  obtain events r where app: "apply_commands Room_new submitted = (events, r)" by fastforce
  note room = room_accepts_in_order [OF inv(2) app]
  note stop = worker_inv_stop [OF inv(1) stopped app]
  have ids: "snap_session_id ` set (Room_snapshot r) = dom (positions r)"
    by (simp add: Room_snapshot_alt dom_map_of_conv_image_fst image_image case_prod_beta)
  then have players: "snap_session_id ` set (summary_players summary) =
      {i. seat i (commands_of i submitted) False = Some True}"
    using stop room by (auto simp: domIff)
  moreover have "seat i (commands_of i submitted) False = Some (se_joined_room s)"
    if "srv_sessions ?srv i = Some s" for i s
    using inv(3) that by (auto simp: env_ok_def)
  moreover have "pr_run_server p = Run_server_completed \<longrightarrow> (code = 0 \<longleftrightarrow> srv_acceptor ?srv = Run_server_returned)"
    using process(1) by (simp add: process_inv_def code)
  moreover have "RoomWorker_destroy (Some publish_event) touch_metrics (srv_worker (pr_server p'), pr_server p') = pr_server p'"
    using stop p' by (simp add: RoomWorker_destroy_def RoomWorker_stop_def)
  ultimately show ?thesis using stop room args by (auto simp: size_add_def)
qed

theorem shutdown_summary_exact_witness:
  "\<exists>p0 p code summary p'. main_start [''mcrs_server''] = Inr p0
    \<and> process_run exact_growth p0 1 [JoinCommand 1] p \<and> main_end p = (code, summary, p')
    \<and> summary_processed_commands summary = 1 \<and> 1 \<in> snap_session_id ` set (summary_players summary)"
proof -
  obtain p0 p where run: "main_start [''mcrs_server''] = Inr p0" "process_run exact_growth p0 1 [JoinCommand 1] p"
    by (rule process_with_client)
  obtain code summary p' where stop: "main_end p = (code, summary, p')" by (metis prod_cases3)
  from run stop shutdown_summary_exact [OF run _ stop] show ?thesis by (auto simp: commands_of_def)
qed

end
